(* ===== verification/Fb_Prelude.thy ===== *)
theory Fb_Prelude
  imports
    Main
    "HOL-Library.Word"
    "HOL-Library.Char_ord"
    "HOL-Library.List_Lexorder"
    "HOL-Library.Sublist"
begin

text \<open>
  Shared vocabulary of the development: the fixed-width integer types of the C++ code, the
  C++ exceptions as a datatype, the \<open>std::string\<close> searches (with \<open>npos\<close> as
  \<open>None\<close>) and the ordered associative container \<open>std::map\<close>, kept as a list of
  pairs in strictly ascending key order so that iteration order is the code's.
\<close>

section \<open>Collections of facts\<close>

named_theorems fb_frame \<open>fields that an operation leaves alone\<close>
named_theorems fb_inv \<open>preservation of a component's invariant\<close>

section \<open>Machine types and exceptions\<close>

type_synonym u8 = "8 word"
type_synonym u32 = "32 word"
type_synonym u64 = "64 word"

text \<open>\<open>int32_t\<close> values are kept as 32-bit words and read with \<open>sint\<close>.\<close>

type_synonym i32 = "32 word"

text \<open>A \<open>void*\<close> is a 64-bit address.\<close>

type_synonym ptr = "64 word"

text \<open>
  What the code can throw. \<open>Unknown\<close> stands for a thrown object that is not a
  \<open>std::exception\<close>, which only a \<open>catch (...)\<close> stops; \<open>NullDeref\<close> for a call through a null
  pointer, which nothing stops.
\<close>

datatype exn = JsonTypeError | JsonParseError | BadAnyCast | BadWeakPtr | FutureError
  | StdException string | UnknownExn | NullDeref

fun is_std_exception :: "exn \<Rightarrow> bool" where
  "is_std_exception UnknownExn = False"
| "is_std_exception NullDeref = False"
| "is_std_exception _ = True"

text \<open>Sequencing of computations that may throw.\<close>

definition exn_bind :: "exn + 'a \<Rightarrow> ('a \<Rightarrow> exn + 'b) \<Rightarrow> exn + 'b" where
  "exn_bind m f = (case m of Inl e \<Rightarrow> Inl e | Inr a \<Rightarrow> f a)"

lemma exn_bind_simps [simp]:
  "exn_bind (Inl e) f = Inl e"
  "exn_bind (Inr a) f = f a"
  by (simp_all add: exn_bind_def)

section \<open>std::string\<close>

text \<open>\<open>find_idx P xs\<close>: position of the first element that satisfies \<open>P\<close>.\<close>

primrec find_idx :: "('a \<Rightarrow> bool) \<Rightarrow> 'a list \<Rightarrow> nat option" where
  "find_idx P [] = None"
| "find_idx P (x # xs) = (if P x then Some 0 else map_option Suc (find_idx P xs))"

text \<open>\<open>s.find(c, pos)\<close> and \<open>s.find_first_of(cs, pos)\<close>.\<close>

definition str_find_char :: "char \<Rightarrow> string \<Rightarrow> nat \<Rightarrow> nat option" where
  "str_find_char c s pos = map_option (\<lambda>i. i + pos) (find_idx (\<lambda>x. x = c) (drop pos s))"

definition str_find_first_of :: "string \<Rightarrow> string \<Rightarrow> nat \<Rightarrow> nat option" where
  "str_find_first_of cs s pos = map_option (\<lambda>i. i + pos) (find_idx (\<lambda>x. x \<in> set cs) (drop pos s))"

text \<open>\<open>s.find(sub)\<close> for a substring, from the start.\<close>

primrec str_find :: "string \<Rightarrow> string \<Rightarrow> nat option" where
  "str_find sub [] = (if sub = [] then Some 0 else None)"
| "str_find sub (c # cs) =
     (if prefix sub (c # cs) then Some 0 else map_option Suc (str_find sub cs))"

text \<open>\<open>s.rfind(c)\<close>.\<close>

definition str_rfind_char :: "char \<Rightarrow> string \<Rightarrow> nat option" where
  "str_rfind_char c s = map_option (\<lambda>i. length s - 1 - i) (find_idx (\<lambda>x. x = c) (rev s))"

text \<open>\<open>std::tolower\<close> on one byte, in the "C" locale.\<close>

definition tolower :: "char \<Rightarrow> char" where
  "tolower c = (let n = (of_char c :: nat) in if 65 \<le> n \<and> n \<le> 90 then char_of (n + 32) else c)"

lemma find_idx_Some:
  "find_idx P xs = Some i \<longleftrightarrow> i < length xs \<and> P (xs ! i) \<and> (\<forall>j < i. \<not> P (xs ! j))"
proof (induction xs arbitrary: i)
  case Nil
  then show ?case by simp
next
  case (Cons x xs)
  show ?case
  proof (cases i)
    case 0
    then show ?thesis by auto
  next
    case (Suc k)
    then show ?thesis by (auto simp: Cons.IH less_Suc_eq_0_disj)
  qed
qed

lemma find_idx_append:
  "find_idx P (xs @ ys) = (case find_idx P xs of Some i \<Rightarrow> Some i
     | None \<Rightarrow> map_option (\<lambda>i. i + length xs) (find_idx P ys))"
  by (induction xs) (auto split: option.splits simp: option.map_comp o_def option.map_ident)

lemma find_idx_None: "find_idx P xs = None \<longleftrightarrow> (\<forall>x \<in> set xs. \<not> P x)"
  by (induction xs) auto

lemma find_idx_take: "find_idx P xs = Some i \<Longrightarrow> x \<in> set (take i xs) \<Longrightarrow> \<not> P x"
  by (auto simp: find_idx_Some in_set_conv_nth)

lemma str_find_char_None:
  "str_find_char c s pos = None \<longleftrightarrow> c \<notin> set (drop pos s)"
  by (auto simp: str_find_char_def find_idx_None)

lemma str_find_char_Some:
  "str_find_char c s pos = Some i \<longleftrightarrow>
     pos \<le> i \<and> i < length s \<and> s ! i = c \<and> (\<forall>j. pos \<le> j \<longrightarrow> j < i \<longrightarrow> s ! j \<noteq> c)"
  (is "?l = ?r")
proof
  assume ?l
  then obtain k where k: "find_idx (\<lambda>x. x = c) (drop pos s) = Some k" and i: "i = k + pos"
    by (auto simp: str_find_char_def)
  then have "k < length s - pos" "s ! (pos + k) = c" and before: "\<forall>j < k. s ! (pos + j) \<noteq> c"
    by (auto simp: find_idx_Some)
  moreover have "s ! j \<noteq> c" if "pos \<le> j" "j < i" for j
    using before[rule_format, of "j - pos"] that i by simp
  ultimately show ?r using i by (simp add: add.commute)
next
  assume ?r
  then have "find_idx (\<lambda>x. x = c) (drop pos s) = Some (i - pos)"
    by (auto simp: find_idx_Some)
  with \<open>?r\<close> show ?l by (simp add: str_find_char_def)
qed

section \<open>std::map\<close>

text \<open>
  \<open>om_lookup\<close> is \<open>find\<close>, \<open>om_update\<close> is \<open>m[k] = v\<close>, \<open>om_delete\<close> is \<open>erase(k)\<close>.
\<close>

type_synonym ('k, 'v) omap = "('k \<times> 'v) list"

definition om_wf :: "('k::linorder, 'v) omap \<Rightarrow> bool" where
  "om_wf m \<longleftrightarrow> sorted_wrt (<) (map fst m)"

definition om_lookup :: "('k, 'v) omap \<Rightarrow> 'k \<Rightarrow> 'v option" where
  "om_lookup m k = map_of m k"

primrec om_update :: "'k::linorder \<Rightarrow> 'v \<Rightarrow> ('k, 'v) omap \<Rightarrow> ('k, 'v) omap" where
  "om_update k v [] = [(k, v)]"
| "om_update k v (x # xs) =
     (if k < fst x then (k, v) # x # xs
      else if k = fst x then (k, v) # xs
      else x # om_update k v xs)"

definition om_delete :: "'k \<Rightarrow> ('k, 'v) omap \<Rightarrow> ('k, 'v) omap" where
  "om_delete k m = filter (\<lambda>x. fst x \<noteq> k) m"

text \<open>The contract of an ordered map, as the components use it.\<close>

locale ordered_map =
  fixes lookup :: "'m \<Rightarrow> 'k::linorder \<Rightarrow> 'v option"
    and update :: "'k \<Rightarrow> 'v \<Rightarrow> 'm \<Rightarrow> 'm"
    and delete :: "'k \<Rightarrow> 'm \<Rightarrow> 'm"
    and entries :: "'m \<Rightarrow> ('k \<times> 'v) list"
    and wf :: "'m \<Rightarrow> bool"
  assumes wf_update: "wf m \<Longrightarrow> wf (update k v m)"
    and wf_delete: "wf m \<Longrightarrow> wf (delete k m)"
    and lookup_update: "lookup (update k v m) = (lookup m)(k \<mapsto> v)"
    and lookup_delete: "lookup (delete k m) = (lookup m)(k := None)"
    and entries_lookup: "wf m \<Longrightarrow> (k, v) \<in> set (entries m) \<longleftrightarrow> lookup m k = Some v"
    and entries_ascending: "wf m \<Longrightarrow> sorted_wrt (<) (map fst (entries m))"
begin

lemma keys_distinct: "wf m \<Longrightarrow> distinct (map fst (entries m))"
  using entries_ascending strict_sorted_iff by blast

lemma entry_update:
  "wf m \<Longrightarrow> (a, b) \<in> set (entries (update k v m)) \<longleftrightarrow>
     (if a = k then b = v else (a, b) \<in> set (entries m))"
  by (auto simp: entries_lookup wf_update lookup_update)

lemma entry_delete:
  "wf m \<Longrightarrow> (a, b) \<in> set (entries (delete k m)) \<longleftrightarrow> a \<noteq> k \<and> (a, b) \<in> set (entries m)"
  by (auto simp: entries_lookup wf_delete lookup_delete)

end

lemma om_update_fst: "set (map fst (om_update k v m)) = insert k (set (map fst m))"
  by (induction m) auto

lemma om_wf_Nil [simp]: "om_wf []"
  by (simp add: om_wf_def)

lemma om_wf_Cons: "om_wf (x # xs) \<longleftrightarrow> (\<forall>y \<in> set xs. fst x < fst y) \<and> om_wf xs"
  by (auto simp: om_wf_def)

lemma om_wf_update: "om_wf m \<Longrightarrow> om_wf (om_update k v m)"
proof (induction m)
  case Nil
  then show ?case by (simp add: om_wf_def)
next
  case (Cons x xs)
  have "\<forall>y \<in> set (om_update k v xs). fst y = k \<or> fst y \<in> fst ` set xs"
    using om_update_fst[of k v xs] by auto
  with Cons show ?case by (auto simp: om_wf_Cons) (metis fst_conv image_iff linorder_neqE)+
qed

lemma om_wf_filter: "om_wf m \<Longrightarrow> om_wf (filter P m)"
  by (induction m) (auto simp: om_wf_Cons)

lemma om_lookup_update: "om_lookup (om_update k v m) = (om_lookup m)(k \<mapsto> v)"
proof (induction m)
  case Nil
  then show ?case by (simp add: om_lookup_def)
next
  case (Cons x xs)
  then show ?case by (cases x) (simp add: om_lookup_def fun_eq_iff)
qed

lemma om_lookup_delete: "om_lookup (om_delete k m) = (om_lookup m)(k := None)"
  by (induction m) (auto simp: om_lookup_def om_delete_def fun_eq_iff)

lemma om_wf_distinct: "om_wf m \<Longrightarrow> distinct (map fst m)"
  by (simp add: om_wf_def strict_sorted_iff)

lemma om_lookup_Some: "om_wf m \<Longrightarrow> om_lookup m k = Some v \<longleftrightarrow> (k, v) \<in> set m"
  by (simp add: om_lookup_def om_wf_distinct)

lemma om_delete_update: "k \<notin> fst ` set m \<Longrightarrow> om_delete k (om_update k v m) = m"
  by (induction m) (auto simp: om_delete_def filter_id_conv)

lemma set_om_update: "k \<notin> fst ` set m \<Longrightarrow> set (om_update k v m) = insert (k, v) (set m)"
  by (induction m) auto

lemma om_lookup_notin: "k \<notin> fst ` set m \<Longrightarrow> om_lookup m k = None"
  by (simp add: om_lookup_def map_of_eq_None_iff)

lemma om_delete_notin: "om_lookup m k = None \<Longrightarrow> om_delete k m = m"
  by (auto simp: om_lookup_def om_delete_def map_of_eq_None_iff filter_id_conv)

interpretation om: ordered_map om_lookup om_update om_delete "\<lambda>m. m" om_wf
  by unfold_locales
     (auto simp: om_wf_update om_delete_def om_wf_filter om_lookup_update
        om_lookup_delete[unfolded om_delete_def] om_lookup_Some, auto simp: om_wf_def)

end
