(* ===== verification/Fb_Types.thy ===== *)
theory Fb_Types
  imports Fb_Prelude
begin

text \<open>
  The public value types: \<open>include/firebolt/types.h\<close> (\<open>Error\<close>, \<open>LogLevel\<close>,
  \<open>ErrorInfo\<close>, \<open>Result\<close>) and \<open>include/firebolt/config.h.in\<close> (\<open>Config\<close>).
  Both enumerations have a fixed underlying type and the code casts integers into them
  (\<open>static_cast<Firebolt::Error>(code)\<close>), so each datatype has one more constructor for the
  values that are no enumerator.
\<close>

section \<open>enum class Error : int32\_t\<close>

datatype Error = Err_None | Err_General | Err_Timedout | Err_NotConnected | Err_AlreadyConnected
  | Err_Unspecified | Err_InvalidRequest | Err_MethodNotFound | Err_InvalidParams
  | Err_CapabilityNotAvailable | Err_CapabilityNotSupported | Err_CapabilityGet
  | Err_CapabilityNotPermitted
  | Err_Unlisted i32

fun error_code :: "Error \<Rightarrow> i32" where
  "error_code Err_None = 0"
| "error_code Err_General = 1"
| "error_code Err_Timedout = 2"
| "error_code Err_NotConnected = 3"
| "error_code Err_AlreadyConnected = 4"
| "error_code Err_Unspecified = - 32100"
| "error_code Err_InvalidRequest = - 32600"
| "error_code Err_MethodNotFound = - 32601"
| "error_code Err_InvalidParams = - 32602"
| "error_code Err_CapabilityNotAvailable = - 50300"
| "error_code Err_CapabilityNotSupported = - 50100"
| "error_code Err_CapabilityGet = - 50200"
| "error_code Err_CapabilityNotPermitted = - 40300"
| "error_code (Err_Unlisted c) = c"

definition enumerators :: "Error list" where
  "enumerators = [Err_None, Err_General, Err_Timedout, Err_NotConnected, Err_AlreadyConnected,
     Err_Unspecified, Err_InvalidRequest, Err_MethodNotFound, Err_InvalidParams,
     Err_CapabilityNotAvailable, Err_CapabilityNotSupported, Err_CapabilityGet,
     Err_CapabilityNotPermitted]"

text \<open>\<open>static_cast<Firebolt::Error>(code)\<close>.\<close>

definition error_of_code :: "i32 \<Rightarrow> Error" where
  "error_of_code c = (case find (\<lambda>e. error_code e = c) enumerators of Some e \<Rightarrow> e
     | None \<Rightarrow> Err_Unlisted c)"

section \<open>enum class LogLevel : uint8\_t\<close>

text \<open>\<open>Lvl_Beyond n\<close> is the value \<open>6 + n\<close>, past the last enumerator.\<close>

datatype LogLevel = Lvl_Error | Lvl_Warning | Lvl_Notice | Lvl_Info | Lvl_Debug | Lvl_MaxLevel
  | Lvl_Beyond nat

fun level_val :: "LogLevel \<Rightarrow> nat" where
  "level_val Lvl_Error = 0"
| "level_val Lvl_Warning = 1"
| "level_val Lvl_Notice = 2"
| "level_val Lvl_Info = 3"
| "level_val Lvl_Debug = 4"
| "level_val Lvl_MaxLevel = 5"
| "level_val (Lvl_Beyond n) = 6 + n"

lemma level_val_inj: "level_val a = level_val b \<Longrightarrow> a = b"
  by (cases a; cases b) auto

instantiation LogLevel :: linorder
begin

definition less_eq_LogLevel :: "LogLevel \<Rightarrow> LogLevel \<Rightarrow> bool" where
  "less_eq_LogLevel a b \<longleftrightarrow> level_val a \<le> level_val b"

definition less_LogLevel :: "LogLevel \<Rightarrow> LogLevel \<Rightarrow> bool" where
  "less_LogLevel a b \<longleftrightarrow> level_val a < level_val b"

instance
  by standard (auto simp: less_eq_LogLevel_def less_LogLevel_def intro: level_val_inj)

end

section \<open>ErrorInfo and Result\<close>

record ErrorInfo =
  info_error :: i32
  info_message :: string

definition ErrorInfo_default :: ErrorInfo where
  "ErrorInfo_default = \<lparr>info_error = 0, info_message = []\<rparr>"

record 'a Result =
  result_value :: "'a option"
  result_error :: Error
  result_info :: ErrorInfo

definition Result_value :: "'a \<Rightarrow> 'a Result" where
  "Result_value v = \<lparr>result_value = Some v, result_error = Err_None, result_info = ErrorInfo_default\<rparr>"

definition Result_error :: "Error \<Rightarrow> 'a Result" where
  "Result_error e = \<lparr>result_value = None, result_error = e, result_info = ErrorInfo_default\<rparr>"

definition Result_error_info :: "Error \<Rightarrow> ErrorInfo \<Rightarrow> 'a Result" where
  "Result_error_info e i = \<lparr>result_value = None, result_error = e, result_info = i\<rparr>"

text \<open>\<open>operator bool\<close> of \<open>Result<T>\<close>: there is a value.\<close>

definition has_value :: "'a Result \<Rightarrow> bool" where
  "has_value r \<longleftrightarrow> result_value r \<noteq> None"

definition value_or :: "'a Result \<Rightarrow> 'a \<Rightarrow> 'a" where
  "value_or r d = (case result_value r of Some v \<Rightarrow> v | None \<Rightarrow> d)"

text \<open>\<open>Result<void>\<close> has no value: its \<open>operator bool\<close> compares the error with \<open>None\<close>.\<close>

record ResultVoid =
  void_error :: Error
  void_info :: ErrorInfo

definition ResultVoid_error :: "Error \<Rightarrow> ResultVoid" where
  "ResultVoid_error e = \<lparr>void_error = e, void_info = ErrorInfo_default\<rparr>"

definition ResultVoid_error_info :: "Error \<Rightarrow> ErrorInfo \<Rightarrow> ResultVoid" where
  "ResultVoid_error_info e i = \<lparr>void_error = e, void_info = i\<rparr>"

definition void_ok :: "ResultVoid \<Rightarrow> bool" where
  "void_ok r \<longleftrightarrow> void_error r = Err_None"

lemmas result_defs = Result_value_def Result_error_def Result_error_info_def has_value_def
  ResultVoid_error_def ResultVoid_error_info_def void_ok_def

section \<open>Config\<close>

record LogFormat =
  fmt_ts :: bool
  fmt_location :: bool
  fmt_function :: bool
  fmt_thread :: bool

record LogSettings =
  log_level :: LogLevel
  log_transportInclude :: "u32 option"
  log_transportExclude :: "u32 option"
  log_format :: LogFormat

record Config =
  cfg_wsUrl :: string
  cfg_headers :: "(string, string) omap"
  cfg_waitTime_ms :: u32
  cfg_legacyRPCv1 :: bool
  cfg_log :: LogSettings
  cfg_watchdogCycle_ms :: u32
  cfg_reconnect_max_attempts :: u32
  cfg_reconnect_delay_ms :: u32
  cfg_connect_attempt_timeout_ms :: u32

text \<open>
  The default-initialised \<open>Config\<close>; \<open>legacy\<close> is the value the build substitutes for
  \<open>@FIREBOLT_LEGACY_RPC_V1@\<close>.
\<close>

definition Config_default :: "bool \<Rightarrow> Config" where
  "Config_default legacy = \<lparr>cfg_wsUrl = ''ws://127.0.0.1:9998'', cfg_headers = [],
     cfg_waitTime_ms = 3000, cfg_legacyRPCv1 = legacy,
     cfg_log = \<lparr>log_level = Lvl_Info, log_transportInclude = None, log_transportExclude = None,
       log_format = \<lparr>fmt_ts = True, fmt_location = False, fmt_function = True, fmt_thread = True\<rparr>\<rparr>,
     cfg_watchdogCycle_ms = 500, cfg_reconnect_max_attempts = 0, cfg_reconnect_delay_ms = 1000,
     cfg_connect_attempt_timeout_ms = 10000\<rparr>"

section \<open>The error enumeration is faithful\<close>

lemma error_code_error_of_code [simp]: "error_code (error_of_code c) = c"
proof (cases "find (\<lambda>e. error_code e = c) enumerators")
  case None
  then show ?thesis by (simp add: error_of_code_def)
next
  case (Some e)
  then have "error_code e = c" by (auto simp: find_Some_iff)
  with Some show ?thesis by (simp add: error_of_code_def)
qed

lemma error_of_code_None_iff: "error_of_code c = Err_None \<longleftrightarrow> c = 0"
proof
  assume "error_of_code c = Err_None"
  then have "error_code (error_of_code c) = 0" by simp
  then show "c = 0" by simp
next
  assume "c = 0"
  then show "error_of_code c = Err_None" by (simp add: error_of_code_def enumerators_def)
qed

text \<open>The cast from an integer keeps the code, and only 0 reads as \<open>None\<close>.\<close>

lemma error_cast_roundtrip:
  "error_code (error_of_code c) = c \<and> (error_of_code c = Err_None \<longleftrightarrow> c = 0)"
  by (simp add: error_of_code_None_iff)

end
