(* ===== verification/Fb_Json.thy ===== *)
theory Fb_Json
  imports Fb_Types
begin

text \<open>
  JSON values come from the nlohmann/json package, which is not part of the repository: the
  package is a parameter of the model, the record \<open>'j json_api\<close> of the operations the code
  calls, over an unknown type \<open>'j\<close> of values. What the code relies on is the locale
  \<open>json_lib\<close>, documented behaviour of that package. The datatype \<open>jval\<close> with
  \<open>ref_json\<close> is a full instance of it, used to evaluate the model on concrete messages.
  The theory also holds \<open>include/firebolt/json_types.h\<close>.
\<close>

section \<open>The package's operations\<close>

record 'j json_api =
  js_null :: 'j
  js_bool :: "bool \<Rightarrow> 'j"
  js_uint :: "u32 \<Rightarrow> 'j"
  js_str :: "string \<Rightarrow> 'j"
  js_set :: "'j \<Rightarrow> string \<Rightarrow> 'j \<Rightarrow> 'j" \<comment> \<open>\<open>j[k] = v\<close> on null or an object\<close>
  js_contains :: "'j \<Rightarrow> string \<Rightarrow> bool"
  js_at :: "'j \<Rightarrow> string \<Rightarrow> exn + 'j" \<comment> \<open>\<open>j[k]\<close> on a const value\<close>
  js_is_object :: "'j \<Rightarrow> bool"
  js_is_array :: "'j \<Rightarrow> bool"
  js_is_string :: "'j \<Rightarrow> bool"
  js_is_number :: "'j \<Rightarrow> bool"
  js_is_number_unsigned :: "'j \<Rightarrow> bool"
  js_is_number_integer :: "'j \<Rightarrow> bool"
  js_get_u32 :: "'j \<Rightarrow> exn + u32"
  js_get_i32 :: "'j \<Rightarrow> exn + i32"
  js_get_ll :: "'j \<Rightarrow> exn + u64" \<comment> \<open>\<open>long long\<close>, read with \<open>sint\<close>\<close>
  js_get_string :: "'j \<Rightarrow> exn + string"
  js_get_bool :: "'j \<Rightarrow> exn + bool"
  js_empty :: "'j \<Rightarrow> bool"
  js_size :: "'j \<Rightarrow> nat"
  js_front :: "'j \<Rightarrow> 'j" \<comment> \<open>\<open>j.begin().value()\<close>\<close>
  js_items :: "'j \<Rightarrow> 'j list" \<comment> \<open>range-for over an array\<close>
  js_parse :: "string \<Rightarrow> exn + 'j"
  js_dump :: "'j \<Rightarrow> exn + string"

locale json_lib =
  fixes J :: "'j json_api"
  assumes at_contains: "js_contains J j k \<Longrightarrow> \<exists>v. js_at J j k = Inr v"
    and contains_object: "js_contains J j k \<Longrightarrow> js_is_object J j"
    and contains_null: "\<not> js_contains J (js_null J) k"
    and contains_set: "j = js_null J \<or> js_is_object J j \<Longrightarrow>
      js_contains J (js_set J j k v) k' \<longleftrightarrow> k' = k \<or> js_contains J j k'"
    and at_set_same: "j = js_null J \<or> js_is_object J j \<Longrightarrow> js_at J (js_set J j k v) k = Inr v"
    and at_set_other: "j = js_null J \<or> js_is_object J j \<Longrightarrow> k' \<noteq> k \<Longrightarrow>
      js_contains J j k' \<Longrightarrow> js_at J (js_set J j k v) k' = js_at J j k'"
    and object_set: "j = js_null J \<or> js_is_object J j \<Longrightarrow> js_is_object J (js_set J j k v)"
    and empty_set: "j = js_null J \<or> js_is_object J j \<Longrightarrow> \<not> js_empty J (js_set J j k v)"
    and get_string_str: "js_get_string J (js_str J s) = Inr s"
    and get_u32_uint: "js_get_u32 J (js_uint J n) = Inr n"
    and get_bool_bool: "js_get_bool J (js_bool J b) = Inr b"
    and unsigned_uint: "js_is_number_unsigned J (js_uint J n)"
    and unsigned_get: "js_is_number_unsigned J j \<Longrightarrow> \<exists>n. js_get_u32 J j = Inr n"
    and integer_get: "js_is_number_integer J j \<Longrightarrow> \<exists>n. js_get_ll J j = Inr n"
    and number_get: "js_is_number J j \<Longrightarrow> \<exists>n. js_get_i32 J j = Inr n"
    and string_get: "js_is_string J j \<Longrightarrow> \<exists>s. js_get_string J j = Inr s"

section \<open>A concrete instance\<close>

text \<open>
  The JSON values of RFC 8259 with the package's three kinds of number. \<open>JFloat m e\<close> is
  \<open>m / 10 ^ e\<close>. An object is an ordered map, as the package's default object type is.
\<close>

datatype jval = JNull | JBool bool | JUInt u64 | JInt u64 | JFloat int nat | JStr string
  | JArr "jval list" | JObj "(string \<times> jval) list"

definition trunc_div :: "int \<Rightarrow> int \<Rightarrow> int" where
  "trunc_div a b = sgn a * sgn b * (\<bar>a\<bar> div \<bar>b\<bar>)"

text \<open>Arithmetic conversions: every number, and a boolean for a type other than \<open>bool\<close>.\<close>

fun jval_int :: "jval \<Rightarrow> int option" where
  "jval_int (JUInt n) = Some (uint n)"
| "jval_int (JInt n) = Some (sint n)"
| "jval_int (JFloat m e) = Some (trunc_div m (10 ^ e))"
| "jval_int (JBool b) = Some (of_bool b)"
| "jval_int _ = None"

definition jval_num :: "jval \<Rightarrow> exn + 'a::len word" where
  "jval_num j = (case jval_int j of Some i \<Rightarrow> Inr (word_of_int i) | None \<Rightarrow> Inl JsonTypeError)"

fun jval_set :: "jval \<Rightarrow> string \<Rightarrow> jval \<Rightarrow> jval" where
  "jval_set JNull k v = JObj [(k, v)]"
| "jval_set (JObj m) k v = JObj (om_update k v m)"
| "jval_set j k v = j"

fun jval_contains :: "jval \<Rightarrow> string \<Rightarrow> bool" where
  "jval_contains (JObj m) k = (om_lookup m k \<noteq> None)"
| "jval_contains _ k = False"

fun jval_at :: "jval \<Rightarrow> string \<Rightarrow> exn + jval" where
  "jval_at (JObj m) k = (case om_lookup m k of Some v \<Rightarrow> Inr v | None \<Rightarrow> Inl (StdException ''missing key''))"
| "jval_at _ k = Inl JsonTypeError"

fun jval_size :: "jval \<Rightarrow> nat" where
  "jval_size JNull = 0"
| "jval_size (JArr xs) = length xs"
| "jval_size (JObj m) = length m"
| "jval_size _ = 1"

fun jval_front :: "jval \<Rightarrow> jval" where
  "jval_front (JObj (p # _)) = snd p"
| "jval_front (JArr (x # _)) = x"
| "jval_front j = j"

fun jval_items :: "jval \<Rightarrow> jval list" where
  "jval_items (JArr xs) = xs"
| "jval_items (JObj m) = map snd m"
| "jval_items j = [j]"

text \<open>Text is parsed and printed by table: the concrete inputs name the payloads they use.\<close>

definition ref_json :: "(string \<times> jval) list \<Rightarrow> jval json_api" where
  "ref_json texts = \<lparr>
     js_null = JNull,
     js_bool = JBool,
     js_uint = (\<lambda>n. JUInt (ucast n)),
     js_str = JStr,
     js_set = jval_set,
     js_contains = jval_contains,
     js_at = jval_at,
     js_is_object = (\<lambda>j. case j of JObj _ \<Rightarrow> True | _ \<Rightarrow> False),
     js_is_array = (\<lambda>j. case j of JArr _ \<Rightarrow> True | _ \<Rightarrow> False),
     js_is_string = (\<lambda>j. case j of JStr _ \<Rightarrow> True | _ \<Rightarrow> False),
     js_is_number = (\<lambda>j. case j of JUInt _ \<Rightarrow> True | JInt _ \<Rightarrow> True | JFloat _ _ \<Rightarrow> True | _ \<Rightarrow> False),
     js_is_number_unsigned = (\<lambda>j. case j of JUInt _ \<Rightarrow> True | _ \<Rightarrow> False),
     js_is_number_integer = (\<lambda>j. case j of JUInt _ \<Rightarrow> True | JInt _ \<Rightarrow> True | _ \<Rightarrow> False),
     js_get_u32 = jval_num,
     js_get_i32 = jval_num,
     js_get_ll = jval_num,
     js_get_string = (\<lambda>j. case j of JStr s \<Rightarrow> Inr s | _ \<Rightarrow> Inl JsonTypeError),
     js_get_bool = (\<lambda>j. case j of JBool b \<Rightarrow> Inr b | _ \<Rightarrow> Inl JsonTypeError),
     js_empty = (\<lambda>j. jval_size j = 0),
     js_size = jval_size,
     js_front = jval_front,
     js_items = jval_items,
     js_parse = (\<lambda>s. case map_of texts s of Some j \<Rightarrow> Inr j | None \<Rightarrow> Inl JsonParseError),
     js_dump = (\<lambda>j. case find (\<lambda>p. snd p = j) texts of Some p \<Rightarrow> Inr (fst p) | None \<Rightarrow> Inr ''?'')\<rparr>"

lemma om_update_Nil [simp]: "om_update k v m \<noteq> []"
  by (cases m) auto

lemma ref_json_lib: "json_lib (ref_json texts)"
proof unfold_locales
  fix j :: jval and k k' v n b s
  let ?J = "ref_json texts"
  show "js_contains ?J j k \<Longrightarrow> \<exists>v. js_at ?J j k = Inr v"
    by (cases j) (auto simp: ref_json_def)
  show "js_contains ?J j k \<Longrightarrow> js_is_object ?J j"
    by (cases j) (auto simp: ref_json_def)
  show "\<not> js_contains ?J (js_null ?J) k"
    by (simp add: ref_json_def)
  show "j = js_null ?J \<or> js_is_object ?J j \<Longrightarrow>
      js_contains ?J (js_set ?J j k v) k' \<longleftrightarrow> k' = k \<or> js_contains ?J j k'"
    by (cases j) (auto simp: ref_json_def om_lookup_update om_lookup_def)
  show "j = js_null ?J \<or> js_is_object ?J j \<Longrightarrow> js_at ?J (js_set ?J j k v) k = Inr v"
    by (cases j) (auto simp: ref_json_def om_lookup_update om_lookup_def)
  show "j = js_null ?J \<or> js_is_object ?J j \<Longrightarrow> k' \<noteq> k \<Longrightarrow>
      js_contains ?J j k' \<Longrightarrow> js_at ?J (js_set ?J j k v) k' = js_at ?J j k'"
    by (cases j) (auto simp: ref_json_def om_lookup_update)
  show "j = js_null ?J \<or> js_is_object ?J j \<Longrightarrow> js_is_object ?J (js_set ?J j k v)"
    by (cases j) (auto simp: ref_json_def)
  show "j = js_null ?J \<or> js_is_object ?J j \<Longrightarrow> \<not> js_empty ?J (js_set ?J j k v)"
    by (cases j) (auto simp: ref_json_def)
  show "js_get_string ?J (js_str ?J s) = Inr s"
    by (simp add: ref_json_def)
  show "js_get_u32 ?J (js_uint ?J n) = Inr n"
    by (simp add: ref_json_def jval_num_def uint_up_ucast is_up)
  show "js_get_bool ?J (js_bool ?J b) = Inr b"
    by (simp add: ref_json_def)
  show "js_is_number_unsigned ?J (js_uint ?J n)"
    by (simp add: ref_json_def)
  show "js_is_number_unsigned ?J j \<Longrightarrow> \<exists>n. js_get_u32 ?J j = Inr n"
    by (cases j) (auto simp: ref_json_def jval_num_def)
  show "js_is_number_integer ?J j \<Longrightarrow> \<exists>n. js_get_ll ?J j = Inr n"
    by (cases j) (auto simp: ref_json_def jval_num_def)
  show "js_is_number ?J j \<Longrightarrow> \<exists>n. js_get_i32 ?J j = Inr n"
    by (cases j) (auto simp: ref_json_def jval_num_def)
  show "js_is_string ?J j \<Longrightarrow> \<exists>s. js_get_string ?J j = Inr s"
    by (cases j) (auto simp: ref_json_def)
qed

interpretation rj: json_lib "ref_json texts"
  by (rule ref_json_lib)

section \<open>json\_types.h\<close>

text \<open>\<open>EnumType<T>\<close> is a \<open>std::map<std::string, T>\<close>; \<open>toString\<close> takes the first key in
  order whose value matches.\<close>

definition JSON_toString :: "(string, 'a) omap \<Rightarrow> 'a \<Rightarrow> string" where
  "JSON_toString enumType v =
     (case find (\<lambda>pair. snd pair = v) enumType of Some it \<Rightarrow> fst it | None \<Rightarrow> [])"

fun checkRequiredFields :: "'j json_api \<Rightarrow> 'j \<Rightarrow> string list \<Rightarrow> bool" where
  "checkRequiredFields J json [] = True"
| "checkRequiredFields J json (fld # flds) =
     (if \<not> js_contains J json fld then False else checkRequiredFields J json flds)"

text \<open>\<open>BasicType<T>::fromJson\<close> followed by \<open>value()\<close>; \<open>get\<close> is \<open>json.get<T>()\<close>.\<close>

definition BasicType_fromJson :: "('j \<Rightarrow> exn + 'a) \<Rightarrow> 'j \<Rightarrow> exn + 'a" where
  "BasicType_fromJson get json = get json"

text \<open>
  \<open>NL_Json_Array<T1, T2>::fromJson\<close>: the exception that left it, if any, and the vector
  \<open>value_\<close> it had built by then.
\<close>

fun array_loop :: "('j \<Rightarrow> exn + 'a) \<Rightarrow> 'a list \<Rightarrow> 'j list \<Rightarrow> exn option \<times> 'a list" where
  "array_loop elem acc [] = (None, acc)"
| "array_loop elem acc (item # items) =
     (case elem item of Inl e \<Rightarrow> (Some e, acc) | Inr v \<Rightarrow> array_loop elem (acc @ [v]) items)"

definition NL_Json_Array_fromJson ::
    "'j json_api \<Rightarrow> ('j \<Rightarrow> exn + 'a) \<Rightarrow> 'j \<Rightarrow> exn option \<times> 'a list" where
  "NL_Json_Array_fromJson J elem json =
     (if \<not> js_is_array J json then (Some JsonTypeError, [])
      else array_loop elem [] (js_items J json))"

lemma array_loop_ok:
  "array_loop elem acc items = (None, vs) \<longleftrightarrow> (\<exists>ws. vs = acc @ ws \<and> map elem items = map Inr ws)"
proof (induction items arbitrary: acc)
  case Nil
  then show ?case by auto
next
  case (Cons x xs)
  then show ?case by (auto split: sum.splits simp: Cons_eq_map_conv)
qed

text \<open>
  An array is read completely or not at all: \<open>fromJson\<close> returns normally with the vector \<open>vs\<close>
  exactly when the value is an array and \<open>vs\<close> holds the elements, each read without exception,
  in order.
\<close>

lemma array_fromJson_all_or_throw:
  "NL_Json_Array_fromJson J elem json = (None, vs) \<longleftrightarrow>
     js_is_array J json \<and> map elem (js_items J json) = map Inr vs"
  by (auto simp: NL_Json_Array_fromJson_def array_loop_ok)

lemma checkRequiredFields_iff:
  "checkRequiredFields J json flds \<longleftrightarrow> (\<forall>f \<in> set flds. js_contains J json f)"
  by (induction flds) auto

text \<open>
  \<open>toString\<close> is the inverse of the name table of an enumeration whose values are distinct: the
  name printed for the value of a name is that name.
\<close>

lemma toString_inverse:
  assumes "om_wf m" and "inj_on snd (set m)"
  shows "om_lookup m k = Some v \<Longrightarrow> JSON_toString m v = k"
proof -
  assume "om_lookup m k = Some v"
  then have kv: "(k, v) \<in> set m" using assms(1) by (simp add: om_lookup_Some)
  then obtain it where it: "find (\<lambda>pair. snd pair = v) m = Some it"
    by (metis (mono_tags, lifting) find_None_iff not_Some_eq snd_conv)
  then have "it \<in> set m" "snd it = v" by (auto simp: find_Some_iff)
  with kv assms(2) have "it = (k, v)" by (metis inj_onD snd_conv)
  with it show ?thesis by (simp add: JSON_toString_def)
qed

lemma toString_inverse_witness:
  "om_lookup [(''off'', 0 :: int), (''on'', 1)] ''on'' = Some 1
   \<and> JSON_toString [(''off'', 0 :: int), (''on'', 1)] 1 = ''on''"
proof -
  have w: "om_wf [(''off'', 0 :: int), (''on'', 1)]"
    by (simp add: om_wf_def) 
  have i: "inj_on snd (set [(''off'', 0 :: int), (''on'', 1)])"
    by (simp add: inj_on_def)
  have l: "om_lookup [(''off'', 0 :: int), (''on'', 1)] ''on'' = Some 1"
    by (simp add: om_lookup_def)
  show ?thesis using l toString_inverse [OF w i l] by simp
qed

end
