(* ===== verification/Fb_Client.thy ===== *)
theory Fb_Client
  imports Fb_Json
begin

text \<open>
  \<open>class Client\<close> of \<open>src/gateway.cpp\<close>: the queue of pending requests and the promises their
  callers wait on. The heap of \<open>std::promise\<close> objects is explicit: a promise is a number, the
  store maps it to the value it was given, and a second \<open>set_value\<close> is the exception it is in
  C++. Every critical section under \<open>queue_mtx\<close> is a definition of its own, and the whole
  operations are composed of them; \<open>Fb_Client_Threads\<close> interleaves the same sections.
\<close>

section \<open>State\<close>

type_synonym promise = nat

text \<open>Time points of \<open>steady_clock\<close> are integers, in nanoseconds.\<close>

type_synonym timestamp = int

record Caller =
  caller_id :: u32
  caller_method :: string
  caller_promise :: promise
  caller_timestamp :: timestamp

record 'j Client =
  client_queue :: "(u32, Caller) omap"
  client_promises :: "promise \<Rightarrow> 'j Result option"
  client_next :: promise \<comment> \<open>the next promise to be allocated\<close>

definition Client_init :: "'j Client" where
  "Client_init = \<lparr>client_queue = [], client_promises = (\<lambda>_. None), client_next = 0\<rparr>"

text \<open>\<open>duration_cast<milliseconds>\<close> truncates towards zero.\<close>

definition duration_ms :: "int \<Rightarrow> int" where
  "duration_ms d = trunc_div d 1000000"

section \<open>Promises\<close>

definition promise_set :: "promise \<Rightarrow> 'j Result \<Rightarrow> 'j Client \<Rightarrow> exn option \<times> 'j Client" where
  "promise_set p r c =
     (if client_promises c p \<noteq> None then (Some FutureError, c)
      else (None, c\<lparr>client_promises := (client_promises c)(p := Some r)\<rparr>))"

text \<open>The loops that fulfil a batch of callers; an exception leaves the loop.\<close>

fun fulfil_all :: "Caller list \<Rightarrow> 'j Result \<Rightarrow> 'j Client \<Rightarrow> exn option \<times> 'j Client" where
  "fulfil_all [] r c = (None, c)"
| "fulfil_all (x # xs) r c =
     (case promise_set (caller_promise x) r c of
        (Some e, c') \<Rightarrow> (Some e, c')
      | (None, c') \<Rightarrow> fulfil_all xs r c')"

section \<open>checkPromises\<close>

definition timed_out :: "timestamp \<Rightarrow> u32 \<Rightarrow> Caller \<Rightarrow> bool" where
  "timed_out now wait x \<longleftrightarrow> duration_ms (now - caller_timestamp x) > uint wait"

text \<open>The loop over the queue: the callers moved to \<open>timedOut\<close> and the entries left.\<close>

fun collect_loop :: "timestamp \<Rightarrow> u32 \<Rightarrow> (u32, Caller) omap \<Rightarrow> Caller list \<times> (u32, Caller) omap" where
  "collect_loop now wait [] = ([], [])"
| "collect_loop now wait (it # q) =
     (let (timedOut, rest) = collect_loop now wait q in
      if timed_out now wait (snd it) then (snd it # timedOut, rest) else (timedOut, it # rest))"

definition checkPromises_collect :: "timestamp \<Rightarrow> u32 \<Rightarrow> 'j Client \<Rightarrow> Caller list \<times> 'j Client" where
  "checkPromises_collect now wait c =
     (let (timedOut, q) = collect_loop now wait (client_queue c)
      in (timedOut, c\<lparr>client_queue := q\<rparr>))"

definition Client_checkPromises :: "timestamp \<Rightarrow> u32 \<Rightarrow> 'j Client \<Rightarrow> exn option \<times> 'j Client" where
  "Client_checkPromises now wait c =
     (let (timedOut, c') = checkPromises_collect now wait c
      in fulfil_all timedOut (Result_error Err_Timedout) c')"

section \<open>cancelAll\<close>

text \<open>\<open>toCancel = std::move(queue)\<close> leaves the map empty.\<close>

definition cancelAll_take :: "'j Client \<Rightarrow> Caller list \<times> 'j Client" where
  "cancelAll_take c = (map snd (client_queue c), c\<lparr>client_queue := []\<rparr>)"

definition Client_cancelAll :: "'j Client \<Rightarrow> exn option \<times> 'j Client" where
  "Client_cancelAll c =
     (let (toCancel, c') = cancelAll_take c
      in fulfil_all toCancel (Result_error Err_NotConnected) c')"

section \<open>request\<close>

text \<open>\<open>make_shared<Caller>\<close>, \<open>get_future\<close> and the first critical section, \<open>queue[id] = c\<close>.\<close>

definition request_enqueue :: "u32 \<Rightarrow> string \<Rightarrow> timestamp \<Rightarrow> 'j Client \<Rightarrow> Caller \<times> 'j Client" where
  "request_enqueue i method now c =
     (let x = \<lparr>caller_id = i, caller_method = method, caller_promise = client_next c,
               caller_timestamp = now\<rparr>
      in (x, c\<lparr>client_queue := om_update i x (client_queue c), client_next := Suc (client_next c)\<rparr>))"

text \<open>The second critical section, after a failed send: \<open>ownedByUs = queue.erase(id) > 0\<close>.\<close>

definition request_erase :: "u32 \<Rightarrow> 'j Client \<Rightarrow> bool \<times> 'j Client" where
  "request_erase i c =
     (om_lookup (client_queue c) i \<noteq> None, c\<lparr>client_queue := om_delete i (client_queue c)\<rparr>)"

text \<open>
  The whole operation over the interface \<open>IClientTransport\<close>: \<open>next_id\<close> and \<open>send\<close> work on
  the transport's state \<open>t\<close>. The result is the exception that leaves the call or the promise
  behind the returned future.
\<close>

definition Client_request ::
    "('t \<Rightarrow> u32 \<times> 't) \<Rightarrow> (string \<Rightarrow> 'j \<Rightarrow> u32 \<Rightarrow> 't \<Rightarrow> (exn + Error) \<times> 't) \<Rightarrow>
     string \<Rightarrow> 'j \<Rightarrow> u32 option \<Rightarrow> timestamp \<Rightarrow> 'j Client \<Rightarrow> 't \<Rightarrow>
     (exn + promise) \<times> 'j Client \<times> 't" where
  "Client_request next_id send method params idOpt now c t =
     (let (i, t) = (case idOpt of Some i \<Rightarrow> (i, t) | None \<Rightarrow> next_id t);
          (x, c) = request_enqueue i method now c;
          (result, t) = send method params i t
      in case result of
           Inl e \<Rightarrow> (Inl e, c, t)
         | Inr err \<Rightarrow>
             if err \<noteq> Err_None then
               (let (ownedByUs, c) = request_erase i c in
                if ownedByUs then
                  (case promise_set (caller_promise x) (Result_error err) c of
                     (Some e, c) \<Rightarrow> (Inl e, c, t)
                   | (None, c) \<Rightarrow> (Inr (caller_promise x), c, t))
                else (Inr (caller_promise x), c, t))
             else (Inr (caller_promise x), c, t))"

section \<open>response\<close>

text \<open>The critical section: look the caller up and take it out of the queue.\<close>

definition response_take :: "u32 \<Rightarrow> 'j Client \<Rightarrow> Caller option \<times> 'j Client" where
  "response_take i c =
     (case om_lookup (client_queue c) i of
        None \<Rightarrow> (None, c)
      | Some x \<Rightarrow> (Some x, c\<lparr>client_queue := om_delete i (client_queue c)\<rparr>))"

text \<open>
  The \<open>try\<close> block over \<open>message["error"]\<close>: \<open>code\<close> is assigned before \<open>msg\<close> is read, so
  an exception on the way to \<open>msg\<close> keeps the code.
\<close>

definition error_code_field :: "'j json_api \<Rightarrow> 'j \<Rightarrow> i32 \<Rightarrow> exn + i32" where
  "error_code_field J err code =
     (if js_contains J err ''code'' then
        exn_bind (js_at J err ''code'') (\<lambda>f. if js_is_number J f then js_get_i32 J f else Inr code)
      else Inr code)"

definition error_message_field :: "'j json_api \<Rightarrow> 'j \<Rightarrow> string \<Rightarrow> exn + string" where
  "error_message_field J err msg =
     (if js_contains J err ''message'' then
        exn_bind (js_at J err ''message'') (\<lambda>f. if js_is_string J f then js_get_string J f else Inr msg)
      else Inr msg)"

definition response_error_fields :: "'j json_api \<Rightarrow> 'j \<Rightarrow> i32 \<times> string" where
  "response_error_fields J message =
     (let code = error_code Err_General; msg = ''unknown error'' in
      case exn_bind (js_at J message ''error'') (\<lambda>err. error_code_field J err code) of
        Inl _ \<Rightarrow> (code, msg)
      | Inr code \<Rightarrow>
          (case exn_bind (js_at J message ''error'') (\<lambda>err. error_message_field J err msg) of
             Inl _ \<Rightarrow> (code, msg)
           | Inr msg \<Rightarrow> (code, msg)))"

text \<open>What the promise of the matched caller is given.\<close>

definition response_result :: "'j json_api \<Rightarrow> 'j \<Rightarrow> exn + 'j Result" where
  "response_result J message =
     (if \<not> js_contains J message ''error'' then
        exn_bind (js_at J message ''result'') (\<lambda>v. Inr (Result_value v))
      else
        (let (code, msg) = response_error_fields J message
         in Inr (Result_error_info (error_of_code code) \<lparr>info_error = code, info_message = msg\<rparr>)))"

definition response_id :: "'j json_api \<Rightarrow> 'j \<Rightarrow> exn + u32" where
  "response_id J message = exn_bind (js_at J message ''id'') (js_get_u32 J)"

definition Client_response :: "'j json_api \<Rightarrow> 'j \<Rightarrow> 'j Client \<Rightarrow> exn option \<times> 'j Client" where
  "Client_response J message c =
     (case response_id J message of
        Inl e \<Rightarrow> (Some e, c)
      | Inr i \<Rightarrow>
          (case response_take i c of
             (None, c) \<Rightarrow> (None, c)
           | (Some x, c) \<Rightarrow>
               (case response_result J message of
                  Inl e \<Rightarrow> (Some e, c)
                | Inr r \<Rightarrow> promise_set (caller_promise x) r c)))"

section \<open>Invariant\<close>

text \<open>
  Keys are the callers' ids; the promises of the queue are allocated, distinct and not yet
  satisfied; nothing is stored for a promise that was never allocated.
\<close>

definition client_wf :: "'j Client \<Rightarrow> bool" where
  "client_wf c \<longleftrightarrow>
     om_wf (client_queue c)
     \<and> (\<forall>(k, x) \<in> set (client_queue c). caller_id x = k \<and> caller_promise x < client_next c
          \<and> client_promises c (caller_promise x) = None)
     \<and> distinct (map (caller_promise \<circ> snd) (client_queue c))
     \<and> (\<forall>p \<ge> client_next c. client_promises c p = None)"

definition pending :: "'j Client \<Rightarrow> promise set" where
  "pending c = (caller_promise \<circ> snd) ` set (client_queue c)"

lemma client_wf_init: "client_wf Client_init"
  by (simp add: client_wf_def Client_init_def)

lemma client_wf_queue: "client_wf c \<Longrightarrow> om_wf (client_queue c)"
  by (simp add: client_wf_def)

lemma client_wf_entry:
  "client_wf c \<Longrightarrow> (k, x) \<in> set (client_queue c) \<Longrightarrow>
     caller_id x = k \<and> caller_promise x < client_next c \<and> client_promises c (caller_promise x) = None"
  by (auto simp: client_wf_def)

text \<open>A sub-list of the queue, with the other promises free to change, keeps the invariant.\<close>

lemma client_wf_filter:
  assumes wf: "client_wf c"
    and q: "client_queue c' = filter P (client_queue c)"
    and n: "client_next c' = client_next c"
    and keep: "\<And>p. p \<in> pending c' \<Longrightarrow> client_promises c' p = client_promises c p"
    and old: "\<And>p. client_next c \<le> p \<Longrightarrow> client_promises c' p = None"
  shows "client_wf c'"
proof -
  have "distinct (map (caller_promise \<circ> snd) (filter P (client_queue c)))"
    using wf by (simp add: client_wf_def distinct_map_filter)
  moreover have "client_promises c' (caller_promise x) = None" if "(k, x) \<in> set (client_queue c')" for k x
    using that keep[of "caller_promise x"] wf q by (force simp: pending_def client_wf_def)
  ultimately show ?thesis
    using wf q n old by (auto simp: client_wf_def om_wf_filter)
qed

lemma distinct_promise_eq:
  assumes "distinct (map (caller_promise \<circ> snd) q)" and "x \<in> set q" and "y \<in> set q"
    and "caller_promise (snd x) = caller_promise (snd y)"
  shows "x = y"
  using assms by (metis (no_types, lifting) comp_apply distinct_map inj_onD)

section \<open>Fulfilling a batch\<close>

lemma fulfil_all_fresh:
  assumes "distinct (map caller_promise xs)"
    and "\<forall>x \<in> set xs. client_promises c (caller_promise x) = None"
  shows "fulfil_all xs r c = (None, c\<lparr>client_promises :=
           (\<lambda>p. if p \<in> caller_promise ` set xs then Some r else client_promises c p)\<rparr>)"
  using assms
proof (induction xs arbitrary: c)
  case Nil
  then show ?case by simp
next
  case (Cons x xs)
  let ?c = "c\<lparr>client_promises := (client_promises c)(caller_promise x := Some r)\<rparr>"
  have "fulfil_all (x # xs) r c = fulfil_all xs r ?c"
    using Cons.prems by (simp add: promise_set_def)
  also have "\<dots> = (None, ?c\<lparr>client_promises :=
      (\<lambda>p. if p \<in> caller_promise ` set xs then Some r else client_promises ?c p)\<rparr>)"
    using Cons.prems by (intro Cons.IH) (auto simp: image_iff)
  also have "\<dots> = (None, c\<lparr>client_promises :=
      (\<lambda>p. if p \<in> caller_promise ` set (x # xs) then Some r else client_promises c p)\<rparr>)"
    by (auto intro!: arg_cong[where f = "\<lambda>f. c\<lparr>client_promises := f\<rparr>"])
  finally show ?case .
qed

lemma collect_loop_eq:
  "collect_loop now wait q =
     (map snd (filter (\<lambda>it. timed_out now wait (snd it)) q), filter (\<lambda>it. \<not> timed_out now wait (snd it)) q)"
  by (induction q) auto

text \<open>
  A batch taken out of the queue of a well-formed client: its promises are fresh, so the loop
  gives each of them the result and throws nothing, and what stays in the queue is well formed.
\<close>

lemma fulfil_taken:
  assumes wf: "client_wf c"
  shows "fulfil_all (map snd (filter P (client_queue c))) r (c\<lparr>client_queue := filter (\<lambda>it. \<not> P it) (client_queue c)\<rparr>)
         = (None, c\<lparr>client_queue := filter (\<lambda>it. \<not> P it) (client_queue c),
              client_promises := (\<lambda>p. if p \<in> (caller_promise \<circ> snd) ` set (filter P (client_queue c))
                                      then Some r else client_promises c p)\<rparr>)"
proof -
  have "distinct (map caller_promise (map snd (filter P (client_queue c))))"
    using wf by (simp add: client_wf_def distinct_map_filter)
  moreover have "\<forall>x \<in> set (map snd (filter P (client_queue c))). client_promises c (caller_promise x) = None"
    using wf by (auto simp: client_wf_def)
  ultimately show ?thesis
    by (subst fulfil_all_fresh) (auto simp: image_image cong: if_cong)
qed

lemma fulfil_taken_wf:
  assumes wf: "client_wf c"
  shows "client_wf (c\<lparr>client_queue := filter (\<lambda>it. \<not> P it) (client_queue c),
              client_promises := (\<lambda>p. if p \<in> (caller_promise \<circ> snd) ` set (filter P (client_queue c))
                                      then Some r else client_promises c p)\<rparr>)" (is "client_wf ?c")
proof (rule client_wf_filter[OF wf])
  show "client_queue ?c = filter (\<lambda>it. \<not> P it) (client_queue c)" by simp
  show "client_next ?c = client_next c" by simp
  show "client_promises ?c p = client_promises c p" if "p \<in> pending ?c" for p
    using that wf distinct_promise_eq[of "client_queue c"] by (fastforce simp: pending_def client_wf_def)
  show "client_promises ?c p = None" if "client_next c \<le> p" for p
    using that wf by (auto simp: client_wf_def)
qed

section \<open>Whole operations on a well-formed client\<close>

lemma checkPromises_eq:
  assumes "client_wf c"
  shows "Client_checkPromises now wait c = (None, c\<lparr>
     client_queue := filter (\<lambda>it. \<not> timed_out now wait (snd it)) (client_queue c),
     client_promises := (\<lambda>p. if p \<in> (caller_promise \<circ> snd) ` set (filter (\<lambda>it. timed_out now wait (snd it)) (client_queue c))
       then Some (Result_error Err_Timedout) else client_promises c p)\<rparr>)"
  using fulfil_taken[OF assms, of "\<lambda>it. timed_out now wait (snd it)"]
  by (simp add: Client_checkPromises_def checkPromises_collect_def collect_loop_eq)

lemma cancelAll_eq:
  assumes "client_wf c"
  shows "Client_cancelAll c = (None, c\<lparr>client_queue := [],
     client_promises := (\<lambda>p. if p \<in> pending c then Some (Result_error Err_NotConnected) else client_promises c p)\<rparr>)"
  using fulfil_taken[OF assms, of "\<lambda>_. True"]
  by (simp add: Client_cancelAll_def cancelAll_take_def pending_def)

lemma checkPromises_wf [fb_inv]:
  assumes "client_wf c"
  shows "client_wf (snd (Client_checkPromises now wait c))"
  using fulfil_taken_wf[OF assms, of "\<lambda>it. timed_out now wait (snd it)"] assms
  by (simp add: checkPromises_eq)

lemma cancelAll_wf [fb_inv]:
  assumes "client_wf c"
  shows "client_wf (snd (Client_cancelAll c))"
  using fulfil_taken_wf[OF assms, of "\<lambda>_. True"] assms by (simp add: cancelAll_eq pending_def)

lemma promise_of_entry:
  assumes "client_wf c" and "(k, x) \<in> set (client_queue c)"
  shows "caller_promise x \<in> (caller_promise \<circ> snd) ` set (filter P (client_queue c)) \<longleftrightarrow> P (k, x)"
proof
  assume "caller_promise x \<in> (caller_promise \<circ> snd) ` set (filter P (client_queue c))"
  then obtain y where y: "y \<in> set (client_queue c)" "P y" "caller_promise (snd y) = caller_promise x"
    by auto
  then have "y = (k, x)"
    using assms distinct_promise_eq[of "client_queue c" y "(k, x)"] by (simp add: client_wf_def)
  with y show "P (k, x)" by simp
next
  assume "P (k, x)"
  with assms(2) show "caller_promise x \<in> (caller_promise \<circ> snd) ` set (filter P (client_queue c))"
    by force
qed

lemma response_wf [fb_inv]:
  assumes "client_wf c"
  shows "client_wf (snd (Client_response J message c))"
proof -
  have "client_wf (c\<lparr>client_queue := om_delete i (client_queue c)\<rparr>)" for i
    using assms by (intro client_wf_filter[OF assms, of _ "\<lambda>x. fst x \<noteq> i"])
      (auto simp: om_delete_def client_wf_def)
  moreover have "client_wf (c\<lparr>client_queue := om_delete i (client_queue c),
      client_promises := (client_promises c)(caller_promise x := Some r)\<rparr>)" (is "client_wf ?c")
    if x: "om_lookup (client_queue c) i = Some x" for i x r
  proof (rule client_wf_filter[OF assms, of _ "\<lambda>x. fst x \<noteq> i"])
    have ix: "(i, x) \<in> set (client_queue c)"
      using x assms by (simp add: om_lookup_Some client_wf_queue)
    have "caller_promise x \<notin> pending ?c"
      using promise_of_entry[OF assms ix, of "\<lambda>x. fst x \<noteq> i"] by (simp add: pending_def om_delete_def)
    then show "client_promises ?c p = client_promises c p" if "p \<in> pending ?c" for p
      using that by auto
    show "client_promises ?c p = None" if "client_next c \<le> p" for p
      using that client_wf_entry[OF assms ix] assms by (auto simp: client_wf_def)
  qed (simp_all add: om_delete_def)
  ultimately show ?thesis
    using assms by (auto simp: Client_response_def response_take_def promise_set_def split: sum.splits option.splits)
qed

lemma response_match:
  assumes wf: "client_wf c" and i: "response_id J message = Inr i"
    and x: "om_lookup (client_queue c) i = Some x" and r: "response_result J message = Inr r"
  shows "Client_response J message c = (None, c\<lparr>client_queue := om_delete i (client_queue c),
           client_promises := (client_promises c)(caller_promise x := Some r)\<rparr>)"
proof -
  have "(i, x) \<in> set (client_queue c)"
    using x wf by (simp add: om_lookup_Some client_wf_queue)
  then show ?thesis
    using client_wf_entry[OF wf] i x r by (simp add: Client_response_def response_take_def promise_set_def)
qed

lemma response_nobody:
  "response_id J message = Inr i \<Longrightarrow> om_lookup (client_queue c) i = None \<Longrightarrow>
     Client_response J message c = (None, c)"
  by (simp add: Client_response_def response_take_def)

text \<open>With the documented behaviour of the JSON package, reading a reply cannot throw.\<close>

context json_lib
begin

lemma error_fields_total:
  "\<exists>code. error_code_field J err c0 = Inr code" "\<exists>msg. error_message_field J err m0 = Inr msg"
  using at_contains[of err "''code''"] at_contains[of err "''message''"] number_get string_get
  by (auto simp: error_code_field_def error_message_field_def)

lemma result_total:
  assumes "js_contains J message ''result'' \<or> js_contains J message ''error''"
  shows "\<exists>r. response_result J message = Inr r"
  using assms at_contains[of message "''result''"]
  by (auto simp: response_result_def split: prod.splits)

lemma error_fields_read:
  assumes "js_at J message ''error'' = Inr err"
    and "js_contains J err ''code''" "js_at J err ''code'' = Inr cj" "js_is_number J cj" "js_get_i32 J cj = Inr code"
    and "js_contains J err ''message''" "js_at J err ''message'' = Inr mj" "js_is_string J mj" "js_get_string J mj = Inr msg"
  shows "response_error_fields J message = (code, msg)"
  using assms by (simp add: response_error_fields_def error_code_field_def error_message_field_def)

end

section \<open>The interface IClientTransport\<close>

text \<open>
  What \<open>Client\<close> needs of \<open>IClientTransport\<close>: \<open>used t\<close> is the set of ids handed out so far; while
  \<open>ready t\<close> holds, \<open>getNextMessageID\<close> gives an id outside that set; \<open>send\<close> hands out none.
\<close>

locale client_transport =
  fixes next_id :: "'t \<Rightarrow> u32 \<times> 't"
    and send :: "string \<Rightarrow> 'j \<Rightarrow> u32 \<Rightarrow> 't \<Rightarrow> (exn + Error) \<times> 't"
    and used :: "'t \<Rightarrow> u32 set"
    and ready :: "'t \<Rightarrow> bool"
  assumes next_id_fresh: "ready t \<Longrightarrow> next_id t = (i, t') \<Longrightarrow> i \<notin> used t \<and> used t' = insert i (used t)"
    and send_used: "send m p i t = (r, t') \<Longrightarrow> used t' = used t"
begin

lemma request_sent:
  assumes wf: "client_wf c" and n: "next_id t = (i, t1)" and s: "send m p i t1 = (Inr Err_None, t2)"
  shows "Client_request next_id send m p None now c t =
    (Inr (client_next c), snd (request_enqueue i m now c), t2)"
  using n s by (simp add: Client_request_def request_enqueue_def Let_def)

lemma request_threw:
  assumes "next_id t = (i, t1)" and "send m p i t1 = (Inl e, t2)"
  shows "Client_request next_id send m p None now c t = (Inl e, snd (request_enqueue i m now c), t2)"
  using assms by (simp add: Client_request_def request_enqueue_def Let_def)

lemma request_failed:
  assumes wf: "client_wf c" and used: "fst ` set (client_queue c) \<subseteq> used t" and ready: "ready t"
    and n: "next_id t = (i, t1)" and s: "send m p i t1 = (Inr err, t2)" and e: "err \<noteq> Err_None"
  shows "Client_request next_id send m p None now c t =
    (Inr (client_next c), c\<lparr>client_next := Suc (client_next c),
       client_promises := (client_promises c)(client_next c := Some (Result_error err))\<rparr>, t2)"
proof -
  have i: "i \<notin> fst ` set (client_queue c)"
    using next_id_fresh[OF ready n] used by auto
  have "client_promises c (client_next c) = None"
    using wf by (simp add: client_wf_def)
  then show ?thesis
    using n s e i
    by (simp add: Client_request_def request_enqueue_def request_erase_def promise_set_def Let_def
        om_delete_update om_lookup_update)
qed

end

section \<open>Properties\<close>

text \<open>A client with two pending requests, sent at 0 s and at 5 s, to evaluate the theorems on.\<close>

definition ex_caller :: "u32 \<Rightarrow> promise \<Rightarrow> timestamp \<Rightarrow> Caller" where
  "ex_caller i p ts = \<lparr>caller_id = i, caller_method = ''device.id'', caller_promise = p, caller_timestamp = ts\<rparr>"

definition ex_client :: "jval Client" where
  "ex_client = \<lparr>client_queue = [(1, ex_caller 1 0 0), (2, ex_caller 2 1 5000000000)],
     client_promises = (\<lambda>_. None), client_next = 2\<rparr>"

lemma ex_client_wf: "client_wf ex_client"
  by (simp add: client_wf_def ex_client_def ex_caller_def om_wf_def)

text \<open>
  The watchdog pass over a well-formed client throws nothing, keeps the invariant, answers
  exactly the requests older than the wait time with \<open>Timedout\<close>, takes exactly those out of the
  queue, and touches no other promise.
\<close>

lemma checkPromises_times_out_exactly:
  assumes "client_wf c"
  shows "\<exists>c'. Client_checkPromises now wait c = (None, c') \<and> client_wf c'
    \<and> client_queue c' = filter (\<lambda>it. \<not> timed_out now wait (snd it)) (client_queue c)
    \<and> (\<forall>(k, x) \<in> set (client_queue c). client_promises c' (caller_promise x) =
         (if timed_out now wait x then Some (Result_error Err_Timedout) else None))
    \<and> (\<forall>p. p \<notin> pending c \<longrightarrow> client_promises c' p = client_promises c p)"
proof -
  let ?c = "snd (Client_checkPromises now wait c)"
  have "client_promises ?c (caller_promise x) =
      (if timed_out now wait x then Some (Result_error Err_Timedout) else None)"
    if "(k, x) \<in> set (client_queue c)" for k x
    using promise_of_entry[OF assms that, of "\<lambda>it. timed_out now wait (snd it)"]
      client_wf_entry[OF assms that] by (simp add: checkPromises_eq[OF assms])
  moreover have "\<forall>p. p \<notin> pending c \<longrightarrow> client_promises ?c p = client_promises c p"
    by (auto simp: checkPromises_eq[OF assms] pending_def)
  moreover have "Client_checkPromises now wait c = (None, ?c)"
      "client_queue ?c = filter (\<lambda>it. \<not> timed_out now wait (snd it)) (client_queue c)"
    by (simp_all add: checkPromises_eq[OF assms])
  ultimately show ?thesis
    using checkPromises_wf[OF assms, of now wait] by blast
qed

lemma checkPromises_times_out_exactly_witness:
  "client_wf ex_client
   \<and> client_promises (snd (Client_checkPromises 7000000000 3000 ex_client)) 0 = Some (Result_error Err_Timedout)
   \<and> client_promises (snd (Client_checkPromises 7000000000 3000 ex_client)) 1 = None"
  using checkPromises_times_out_exactly [OF ex_client_wf, of 7000000000 3000] ex_client_wf
  by (auto simp: ex_client_def ex_caller_def timed_out_def duration_ms_def trunc_div_def)

text \<open>
  Cancelling a well-formed client throws nothing, empties the queue, answers every pending
  request with \<open>NotConnected\<close> and touches no other promise.
\<close>

lemma cancelAll_answers_every_pending:
  assumes "client_wf c"
  shows "\<exists>c'. Client_cancelAll c = (None, c') \<and> client_wf c' \<and> client_queue c' = []
    \<and> (\<forall>p. client_promises c' p =
         (if p \<in> pending c then Some (Result_error Err_NotConnected) else client_promises c p))"
  using cancelAll_wf[OF assms] by (simp add: cancelAll_eq[OF assms])

lemma cancelAll_answers_every_pending_witness:
  "client_wf ex_client \<and> pending ex_client = {0, 1}
   \<and> client_promises (snd (Client_cancelAll ex_client)) 1 = Some (Result_error Err_NotConnected)"
  using cancelAll_answers_every_pending [OF ex_client_wf] ex_client_wf
  by (auto simp: pending_def ex_client_def ex_caller_def)

text \<open>
  C12. A reply is correlated by its id: the caller queued under that id gets the result or the
  error of the reply, is taken out of the queue, and no other promise or entry changes.
\<close>

theorem response_correlates:
  assumes "client_wf c" and "response_id J message = Inr i"
    and "om_lookup (client_queue c) i = Some x" and "response_result J message = Inr r"
  shows "\<exists>c'. Client_response J message c = (None, c') \<and> client_wf c'
    \<and> client_promises c (caller_promise x) = None
    \<and> client_promises c' = (client_promises c)(caller_promise x := Some r)
    \<and> om_lookup (client_queue c') = (om_lookup (client_queue c))(i := None)"
proof -
  have "(i, x) \<in> set (client_queue c)"
    using assms(1,3) by (simp add: om_lookup_Some client_wf_queue)
  then show ?thesis
    using response_match[OF assms] response_wf[OF assms(1), of J message] client_wf_entry[OF assms(1)]
    by (simp add: om_lookup_delete)
qed

definition ex_reply :: "u32 \<Rightarrow> jval" where
  "ex_reply i = JObj [(''id'', JUInt (ucast i)), (''jsonrpc'', JStr ''2.0''), (''result'', JStr ''abc'')]"

theorem response_correlates_witness:
  "client_promises (snd (Client_response (ref_json []) (ex_reply 2) ex_client)) 1 = Some (Result_value (JStr ''abc''))"
proof -
  have i: "response_id (ref_json []) (ex_reply 2) = Inr 2"
    by (simp add: response_id_def ref_json_def ex_reply_def om_lookup_def jval_num_def)
  have x: "om_lookup (client_queue ex_client) 2 = Some (ex_caller 2 1 5000000000)"
    by (simp add: om_lookup_def ex_client_def)
  have r: "response_result (ref_json []) (ex_reply 2) = Inr (Result_value (JStr ''abc''))"
    by (simp add: response_result_def ref_json_def ex_reply_def om_lookup_def)
  show ?thesis
    using response_correlates [OF ex_client_wf i x r] by (auto simp: ex_caller_def)
qed

text \<open>
  A reply that arrives after the watchdog timed its request out changes nothing: the caller
  keeps \<open>Timedout\<close> and no promise is satisfied twice.
\<close>

lemma late_reply_ignored:
  assumes "client_wf c" and "(i, x) \<in> set (client_queue c)" and "timed_out now wait x"
    and "response_id J message = Inr i"
  shows "\<exists>c'. Client_checkPromises now wait c = (None, c')
    \<and> client_promises c' (caller_promise x) = Some (Result_error Err_Timedout)
    \<and> Client_response J message c' = (None, c')"
proof -
  obtain c' where c': "Client_checkPromises now wait c = (None, c')"
      "client_queue c' = filter (\<lambda>it. \<not> timed_out now wait (snd it)) (client_queue c)"
      "client_promises c' (caller_promise x) = Some (Result_error Err_Timedout)"
    using promise_of_entry[OF assms(1,2), of "\<lambda>it. timed_out now wait (snd it)"] assms(3)
    by (simp add: checkPromises_eq[OF assms(1)])
  have "(i, y) \<notin> set (client_queue c')" for y
    using assms(2,3) client_wf_queue[OF assms(1)] c'(2)
    by (auto simp: om_lookup_Some[symmetric])
  then have "om_lookup (client_queue c') i = None"
    by (intro om_lookup_notin) auto
  with c' response_nobody[OF assms(4)] show ?thesis by blast
qed

lemma late_reply_ignored_witness:
  "\<exists>c'. Client_checkPromises 7000000000 3000 ex_client = (None, c')
    \<and> client_promises c' 0 = Some (Result_error Err_Timedout)
    \<and> Client_response (ref_json []) (ex_reply 1) c' = (None, c')"
proof -
  have m: "(1, ex_caller 1 0 0) \<in> set (client_queue ex_client)"
    by (simp add: ex_client_def)
  have t: "timed_out 7000000000 3000 (ex_caller 1 0 0)"
    by (simp add: timed_out_def duration_ms_def trunc_div_def ex_caller_def)
  have i: "response_id (ref_json []) (ex_reply 1) = Inr 1"
    by (simp add: response_id_def ref_json_def ex_reply_def om_lookup_def jval_num_def)
  show ?thesis
    using late_reply_ignored [OF ex_client_wf m t i] by (simp add: ex_caller_def)
qed

text \<open>
  With a JSON package that behaves as documented, a reply with a \<open>result\<close> or an \<open>error\<close>
  and a readable id never makes \<open>response\<close> throw, whatever the error object holds: a missing
  or wrongly typed code reads as \<open>General\<close>, such a message as "unknown error".
\<close>

lemma malformed_error_reply_contained:
  assumes "json_lib J" and "client_wf c" and "response_id J message = Inr i"
    and "js_contains J message ''result'' \<or> js_contains J message ''error''"
  shows "fst (Client_response J message c) = None
    \<and> (\<forall>err. js_at J message ''error'' = Inr err \<and> (\<forall>f. js_at J err ''code'' = Inr f \<longrightarrow> \<not> js_is_number J f)
         \<longrightarrow> fst (response_error_fields J message) = error_code Err_General)
    \<and> (\<forall>err. js_at J message ''error'' = Inr err \<and> (\<forall>f. js_at J err ''message'' = Inr f \<longrightarrow> \<not> js_is_string J f)
         \<longrightarrow> snd (response_error_fields J message) = ''unknown error'')"
proof (intro conjI)
  obtain r where "response_result J message = Inr r"
    using json_lib.result_total[OF assms(1,4)] by blast
  then show "fst (Client_response J message c) = None"
    using response_match[OF assms(2,3)] response_nobody[OF assms(3)]
    by (cases "om_lookup (client_queue c) i") simp_all
qed (auto simp: response_error_fields_def error_code_field_def error_message_field_def exn_bind_def Let_def split: sum.splits)

lemma malformed_error_reply_contained_witness:
  "fst (Client_response (ref_json []) (JObj [(''error'', JStr ''boom''), (''id'', JUInt 1)]) ex_client) = None
   \<and> response_error_fields (ref_json []) (JObj [(''error'', JStr ''boom''), (''id'', JUInt 1)]) = (1, ''unknown error'')"
proof -
  let ?m = "JObj [(''error'', JStr ''boom''), (''id'', JUInt 1)]"
  have i: "response_id (ref_json []) ?m = Inr 1"
    by (simp add: response_id_def ref_json_def om_lookup_def jval_num_def)
  have e: "js_contains (ref_json []) ?m ''result'' \<or> js_contains (ref_json []) ?m ''error''"
    by (simp add: ref_json_def om_lookup_def)
  show ?thesis
    using malformed_error_reply_contained [OF ref_json_lib ex_client_wf i e]
    by (simp add: prod_eq_iff) (simp add: ref_json_def om_lookup_def)
qed

end
