(* ===== verification/Fb_Worker.thy ===== *)
theory Fb_Worker
  imports Fb_Prelude
begin

text \<open>
  The worker protocol that \<open>Transport::processQueuedMessages\<close> and
  \<open>Server::processQueuedNotifications\<close> share: wait until the stop flag is set or the queue is
  not empty, exit when it is stopped and drained, otherwise take the front element. One pass of
  the \<open>while (true)\<close> body is a step function of the component; the locale states what such
  a step promises and proves, once for both components, that a stopped worker delivers what was
  queued, in order, and exits.
\<close>

datatype 'w pass = Blocked | Exited | Took 'w

text \<open>
  At most \<open>fuel\<close> passes: the elements taken, in order, and how the last pass ended. A blocked
  worker waits on its condition variable, which ends the run.
\<close>

fun worker_run :: "('s \<Rightarrow> 'w pass \<times> 's) \<Rightarrow> nat \<Rightarrow> 's \<Rightarrow> 'w list \<times> 'w pass option \<times> 's" where
  "worker_run step 0 s = ([], None, s)"
| "worker_run step (Suc fuel) s =
     (case step s of
        (Took w, s') \<Rightarrow> (let (ws, r, s'') = worker_run step fuel s' in (w # ws, r, s''))
      | (p, s') \<Rightarrow> ([], Some p, s'))"

locale queue_worker =
  fixes queue_of :: "'s \<Rightarrow> 'w list"
    and stopped :: "'s \<Rightarrow> bool"
    and set_queue :: "'w list \<Rightarrow> 's \<Rightarrow> 's"
    and step :: "'s \<Rightarrow> 'w pass \<times> 's"
  assumes step_take: "queue_of s = w # ws \<Longrightarrow> step s = (Took w, set_queue ws s)"
    and step_idle: "queue_of s = [] \<Longrightarrow> step s = (if stopped s then Exited else Blocked, s)"
    and queue_set: "queue_of (set_queue ws s) = ws"
    and stopped_set: "stopped (set_queue ws s) = stopped s"
    and set_set: "set_queue ws (set_queue vs s) = set_queue ws s"
    and set_same: "queue_of s = ws \<Longrightarrow> set_queue ws s = s"
begin

lemma run_drains:
  "length (queue_of s) < fuel \<Longrightarrow>
     worker_run step fuel s =
       (queue_of s, Some (if stopped s then Exited else Blocked), set_queue [] s)"
proof (induction "queue_of s" arbitrary: s fuel)
  case Nil
  then obtain n where "fuel = Suc n" by (cases fuel) auto
  with Nil show ?case by (simp add: step_idle set_same)
next
  case (Cons w ws)
  then obtain n where n: "fuel = Suc n" "length ws < n" by (cases fuel) (auto simp flip: Cons.hyps(2))
  have "worker_run step n (set_queue ws s) =
      (ws, Some (if stopped s then Exited else Blocked), set_queue [] s)"
    using Cons.hyps(1)[of "set_queue ws s" n] n by (simp add: queue_set stopped_set set_set)
  then show ?case
    using n Cons.hyps(2)[symmetric] by (simp add: step_take)
qed

lemma run_after_push:
  assumes "queue_of s' = queue_of s @ ws" and "length (queue_of s') < fuel"
  shows "fst (worker_run step fuel s') = queue_of s @ ws"
  using assms by (simp add: run_drains)

end

end
