(* ===== verification/Fb_Url.thy ===== *)
theory Fb_Url
  imports Fb_Types
begin

text \<open>
  URLs: \<open>buildGatewayUrl\<close> of \<open>src/utils.cpp\<close> and the redaction of a URL before it is logged,
  which \<open>src/transport.cpp\<close> and \<open>src/gateway.cpp\<close> each write out. Both are positions and
  substrings in the code; the lemmas restate them by what they keep and drop.
\<close>

section \<open>buildGatewayUrl\<close>

definition host_start :: "string \<Rightarrow> nat" where
  "host_start url = (case str_find ''://'' url of None \<Rightarrow> 0 | Some schemePos \<Rightarrow> schemePos + 3)"

definition buildGatewayUrl :: "string \<Rightarrow> bool \<Rightarrow> string" where
  "buildGatewayUrl url legacyRPCv1 =
     (let hostStart = host_start url;
          pathPos = str_find_char CHR ''/'' url hostStart;
          url = (if pathPos = None then
                   (case str_find_char CHR ''?'' url hostStart of
                      None \<Rightarrow> url @ ''/''
                    | Some queryPos \<Rightarrow> take queryPos url @ ''/'' @ drop queryPos url)
                 else url)
      in if \<not> legacyRPCv1 then
           (if str_find_char CHR ''?'' url hostStart = None then url @ ''?'' else url @ ''&'') @ ''RPCv2=true''
         else url)"

section \<open>Redaction\<close>

text \<open>\<open>Transport::connect\<close>, the lines that compute \<open>safeUrl\<close>: the userinfo, then the rest.\<close>

definition Transport_stripUserinfo :: "string \<Rightarrow> string" where
  "Transport_stripUserinfo safeUrl =
     (case str_find ''://'' safeUrl of
        None \<Rightarrow> safeUrl
      | Some schemeEnd \<Rightarrow>
          (let authorityStart = schemeEnd + 3;
               limit = (case str_find_first_of ''/?#'' safeUrl authorityStart of
                          Some authorityEnd \<Rightarrow> authorityEnd | None \<Rightarrow> length safeUrl)
           in case str_find_char CHR ''@'' safeUrl authorityStart of
                Some atPos \<Rightarrow>
                  if atPos < limit
                  then take authorityStart safeUrl @ drop (atPos + 1) safeUrl else safeUrl
              | None \<Rightarrow> safeUrl))"

definition Transport_safeUrl :: "string \<Rightarrow> string" where
  "Transport_safeUrl url =
     (let safeUrl = Transport_stripUserinfo url;
          safeUrl = (case str_find_char CHR ''?'' safeUrl 0 of
                       Some queryEnd \<Rightarrow> take queryEnd safeUrl | None \<Rightarrow> safeUrl)
      in case str_find_char CHR ''#'' safeUrl 0 of
           Some fragmentPos \<Rightarrow> take fragmentPos safeUrl | None \<Rightarrow> safeUrl)"

text \<open>\<open>GatewayImpl::connect\<close>, the block that computes \<open>safeConnectUrl\<close>.\<close>

definition Gateway_stripUserinfo :: "string \<Rightarrow> string" where
  "Gateway_stripUserinfo s =
     (let schemeEnd = str_find ''://'' s in
      if schemeEnd \<noteq> None then
        (let authStart = the schemeEnd + 3;
             authEnd = str_find_first_of ''/?#'' s authStart;
             limit = (if authEnd \<noteq> None then the authEnd else length s);
             atPos = str_find_char CHR ''@'' s authStart
         in if atPos \<noteq> None \<and> the atPos < limit
            then take authStart s @ drop (the atPos + 1) s else s)
      else s)"

definition Gateway_safeConnectUrl :: "string \<Rightarrow> string" where
  "Gateway_safeConnectUrl url =
     (let s = Gateway_stripUserinfo url;
          qPos = str_find_char CHR ''?'' s 0;
          s = (if qPos \<noteq> None then take (the qPos) s else s);
          fPos = str_find_char CHR ''#'' s 0
      in if fPos \<noteq> None then take (the fPos) s else s)"

section \<open>Searches and what they cut\<close>

lemma find_idx_takeWhile:
  "find_idx P xs = Some i \<Longrightarrow> take i xs = takeWhile (\<lambda>x. \<not> P x) xs \<and> drop i xs = dropWhile (\<lambda>x. \<not> P x) xs"
proof (induction xs arbitrary: i)
  case Nil
  then show ?case by simp
next
  case (Cons x xs)
  show ?case
  proof (cases "P x")
    case True
    with Cons.prems show ?thesis by simp
  next
    case False
    with Cons.prems obtain k where "find_idx P xs = Some k" "i = Suc k" by auto
    with Cons.IH False show ?thesis by simp
  qed
qed

lemma find_idx_length: "find_idx P xs = Some i \<Longrightarrow> i = length (takeWhile (\<lambda>x. \<not> P x) xs)"
  using find_idx_takeWhile[of P xs i] find_idx_Some[of P xs i] by (metis length_take min.absorb4)

lemma cut_at_char:
  "(case str_find_char c s 0 of Some i \<Rightarrow> take i s | None \<Rightarrow> s) = takeWhile (\<lambda>x. x \<noteq> c) s"
proof (cases "find_idx (\<lambda>x. x = c) s")
  case None
  then have "takeWhile (\<lambda>x. x \<noteq> c) s = s" by (metis find_idx_None takeWhile_eq_all_conv)
  then show ?thesis by (simp only: str_find_char_def drop_0 None option.map option.case)
next
  case (Some i)
  then show ?thesis using find_idx_takeWhile[OF Some] by (simp add: str_find_char_def)
qed

lemma takeWhile_takeWhile: "takeWhile P (takeWhile Q xs) = takeWhile (\<lambda>x. Q x \<and> P x) xs"
  by (induction xs) auto

text \<open>The tail of the redaction: everything from the first \<open>?\<close> or \<open>#\<close> on is dropped.\<close>

definition strip_tail :: "string \<Rightarrow> string" where
  "strip_tail s = takeWhile (\<lambda>x. x \<noteq> CHR ''?'' \<and> x \<noteq> CHR ''#'') s"

text \<open>The head of it: in \<open>pre @ rest\<close> with \<open>pre\<close> up to \<open>://\<close>, the userinfo of \<open>rest\<close> is dropped.\<close>

definition authority :: "string \<Rightarrow> string" where
  "authority rest = takeWhile (\<lambda>x. x \<notin> set ''/?#'') rest"

definition drop_userinfo :: "string \<Rightarrow> string" where
  "drop_userinfo rest =
     (if CHR ''@'' \<in> set (authority rest) then tl (dropWhile (\<lambda>x. x \<noteq> CHR ''@'') rest) else rest)"

lemma at_before_limit:
  fixes rest :: string
  shows "(case str_find_char CHR ''@'' (pre @ rest) (length pre) of
            Some atPos \<Rightarrow> if atPos < (case str_find_first_of ''/?#'' (pre @ rest) (length pre) of
                 Some e \<Rightarrow> e | None \<Rightarrow> length (pre @ rest))
              then pre @ drop (atPos + 1) (pre @ rest) else pre @ rest
          | None \<Rightarrow> pre @ rest) = pre @ drop_userinfo rest"
proof (cases "find_idx (\<lambda>x. x = CHR ''@'') rest")
  case None
  then have "CHR ''@'' \<notin> set (authority rest)"
    by (auto simp: authority_def find_idx_None dest: set_takeWhileD)
  with None show ?thesis by (simp add: str_find_char_def drop_userinfo_def)
next
  case (Some i)
  let ?lim = "case find_idx (\<lambda>x. x \<in> set ''/?#'') rest of Some e \<Rightarrow> e | None \<Rightarrow> length rest"
  have lim: "?lim = length (authority rest)"
  proof (cases "find_idx (\<lambda>x. x \<in> set ''/?#'') rest")
    case None
    then have "authority rest = rest" unfolding authority_def by (metis find_idx_None takeWhile_eq_all_conv)
    with None show ?thesis by simp
  next
    case (Some e)
    then show ?thesis using find_idx_length[OF Some] by (simp add: authority_def)
  qed
  have at: "rest ! i = CHR ''@''" "i < length rest" and first: "\<forall>j < i. rest ! j \<noteq> CHR ''@''"
    using Some by (auto simp: find_idx_Some)
  have "CHR ''@'' \<in> set (authority rest) \<longleftrightarrow> i < length (authority rest)"
  proof
    assume "CHR ''@'' \<in> set (authority rest)"
    then obtain j where "j < length (authority rest)" "authority rest ! j = CHR ''@''"
      by (auto simp: in_set_conv_nth)
    moreover then have "rest ! j = CHR ''@''"
      by (simp add: authority_def takeWhile_nth)
    ultimately show "i < length (authority rest)" using first by (metis linorder_not_less order_le_less_trans)
  next
    assume "i < length (authority rest)"
    then have "authority rest ! i = CHR ''@''" using at by (simp add: authority_def takeWhile_nth)
    with \<open>i < length (authority rest)\<close> show "CHR ''@'' \<in> set (authority rest)" by (metis nth_mem)
  qed
  moreover have "tl (dropWhile (\<lambda>x. x \<noteq> CHR ''@'') rest) = drop (Suc i) rest"
    using find_idx_takeWhile[OF Some] by (metis drop_Suc tl_drop)
  ultimately show ?thesis
    using Some lim
    by (auto simp: str_find_char_def str_find_first_of_def drop_userinfo_def split: option.splits)
qed

lemma str_find_Some_prefix: "str_find sub s = Some i \<Longrightarrow> i + length sub \<le> length s"
  by (induction s arbitrary: i) (auto split: if_splits dest: prefix_length_le)

lemma stripUserinfo_eq:
  "Transport_stripUserinfo url =
     (if str_find ''://'' url = None then url
      else take (host_start url) url @ drop_userinfo (drop (host_start url) url))"
proof (cases "str_find ''://'' url")
  case None
  then show ?thesis by (simp add: Transport_stripUserinfo_def)
next
  case (Some p)
  then have len: "length (take (p + 3) url) = p + 3" using str_find_Some_prefix by fastforce
  note split_url = at_before_limit[of "take (p + 3) url" "drop (p + 3) url", unfolded append_take_drop_id len]
  show ?thesis
    unfolding Transport_stripUserinfo_def Let_def Some option.case split_url
    by (simp add: host_start_def Some)
qed

lemma safeUrl_eq: "Transport_safeUrl url = strip_tail (Transport_stripUserinfo url)"
  unfolding Transport_safeUrl_def Let_def cut_at_char takeWhile_takeWhile strip_tail_def by simp

section \<open>Properties\<close>

lemma cut_at_npos:
  "(if str_find_char c s 0 \<noteq> None then take (the (str_find_char c s 0)) s else s) = takeWhile (\<lambda>x. x \<noteq> c) s"
  using cut_at_char[where c = c and s = s] by (cases "str_find_char c s 0") simp_all

lemma stripUserinfos_agree: "Gateway_stripUserinfo url = Transport_stripUserinfo url"
proof (cases "str_find ''://'' url")
  case (Some p)
  then show ?thesis
    by (cases "str_find_char CHR ''@'' url (p + 3)")
       (simp_all add: Gateway_stripUserinfo_def Transport_stripUserinfo_def Let_def split: option.splits)
qed (simp add: Gateway_stripUserinfo_def Transport_stripUserinfo_def)

lemma safeUrls_agree: "Gateway_safeConnectUrl url = Transport_safeUrl url"
  unfolding Gateway_safeConnectUrl_def safeUrl_eq Let_def stripUserinfos_agree strip_tail_def
    cut_at_npos takeWhile_takeWhile by simp

lemma str_find_colon:
  assumes "CHR '':'' \<notin> set scheme"
  shows "str_find ''://'' (scheme @ ''://'' @ rest) = Some (length scheme)"
  using assms by (induction scheme) auto

lemma safeUrl_scheme:
  assumes "CHR '':'' \<notin> set scheme"
  shows "Transport_safeUrl (scheme @ ''://'' @ rest) = strip_tail (scheme @ ''://'' @ drop_userinfo rest)"
  using str_find_colon[OF assms, of rest] by (simp add: safeUrl_eq stripUserinfo_eq host_start_def)

lemma drop_userinfo_user:
  assumes "set user \<inter> set ''@/?#'' = {}"
  shows "drop_userinfo (user @ ''@'' @ rest) = rest"
proof -
  have "takeWhile (\<lambda>x. x \<notin> set ''/?#'') (user @ ''@'' @ rest) = user @ takeWhile (\<lambda>x. x \<notin> set ''/?#'') (''@'' @ rest)"
    using assms by (intro takeWhile_append2) auto
  moreover have "dropWhile (\<lambda>x. x \<noteq> CHR ''@'') (user @ ''@'' @ rest) = ''@'' @ rest"
    using assms by (subst dropWhile_append2) auto
  ultimately show ?thesis by (simp add: drop_userinfo_def authority_def)
qed

text \<open>
  C30. The redaction the gateway writes out by positions and substrings, the one the transport writes
  out, and its plain meaning are the same function: split the URL after \<open>://\<close>, drop what precedes
  the first \<open>@\<close> of the authority, and cut everything from the first \<open>?\<close> or \<open>#\<close> on.
\<close>

theorem redactions_equivalent:
  "Gateway_safeConnectUrl url = Transport_safeUrl url
   \<and> Transport_safeUrl url = strip_tail (if str_find ''://'' url = None then url
       else take (host_start url) url @ drop_userinfo (drop (host_start url) url))"
  using safeUrls_agree safeUrl_eq stripUserinfo_eq by simp

text \<open>
  Neither the transport nor the gateway logs credentials or anything after the path: the
  result holds no \<open>?\<close> and no \<open>#\<close>, and for a URL \<open>scheme://user@rest\<close> with a userinfo of ordinary
  characters it is a function of \<open>scheme\<close> and \<open>rest\<close> alone.
\<close>

lemma redaction_hides_userinfo:
  assumes "CHR '':'' \<notin> set scheme" and "set user \<inter> set ''@/?#'' = {}"
  shows "Gateway_safeConnectUrl (scheme @ ''://'' @ user @ ''@'' @ rest) = strip_tail (scheme @ ''://'' @ rest)
    \<and> Transport_safeUrl (scheme @ ''://'' @ user @ ''@'' @ rest) = strip_tail (scheme @ ''://'' @ rest)
    \<and> CHR ''?'' \<notin> set (Transport_safeUrl url) \<and> CHR ''#'' \<notin> set (Transport_safeUrl url)"
  using safeUrl_scheme[OF assms(1), of "user @ ''@'' @ rest"] drop_userinfo_user[OF assms(2)]
  by (auto simp: safeUrls_agree safeUrl_eq strip_tail_def dest: set_takeWhileD)

lemma redaction_hides_userinfo_witness:
  "Transport_safeUrl (''wss'' @ ''://'' @ ''user:pass'' @ ''@'' @ ''host/p?token=1'') = ''wss://host/p''"
proof -
  have s: "CHR '':'' \<notin> set ''wss''" by simp
  have u: "set ''user:pass'' \<inter> set ''@/?#'' = {}" by simp
  show ?thesis using redaction_hides_userinfo [OF s u, of "''host/p?token=1''"] by (simp add: strip_tail_def)
qed

text \<open>
  A raw \<open>@\<close> inside the password defeats the redaction: the search stops at the first one,
  so the rest of the password stays in the logged URL.
\<close>

lemma redaction_leaks_after_at:
  "Transport_safeUrl ''wss://user:p@ss@host/'' = ''wss://ss@host/''"
  by code_simp

lemma insert_slash:
  assumes "CHR ''/'' \<notin> set rest"
  shows "(case str_find_char CHR ''?'' (pre @ rest) (length pre) of
            None \<Rightarrow> (pre @ rest) @ ''/''
          | Some q \<Rightarrow> take q (pre @ rest) @ ''/'' @ drop q (pre @ rest))
         = pre @ takeWhile (\<lambda>x. x \<noteq> CHR ''?'') rest @ ''/'' @ dropWhile (\<lambda>x. x \<noteq> CHR ''?'') rest"
proof (cases "find_idx (\<lambda>x. x = CHR ''?'') rest")
  case None
  then have all: "takeWhile (\<lambda>x. x \<noteq> CHR ''?'') rest = rest" "dropWhile (\<lambda>x. x \<noteq> CHR ''?'') rest = []"
    by (metis find_idx_None takeWhile_eq_all_conv, metis find_idx_None dropWhile_eq_Nil_conv)
  show ?thesis unfolding all by (simp add: str_find_char_def None)
next
  case (Some i)
  then show ?thesis using find_idx_takeWhile[OF Some] by (simp add: str_find_char_def)
qed

lemma host_start_le: "host_start url \<le> length url"
  using str_find_Some_prefix[of "''://''" url] by (auto simp: host_start_def split: option.splits)

text \<open>
  What \<open>buildGatewayUrl\<close> builds, for every URL: a slash is inserted before the query when no
  slash at all follows the host (one inside the query counts too, and then no path is added),
  everything else is kept in order, and unless legacy RPC is on \<open>RPCv2=true\<close> is appended as the
  last query parameter.
\<close>

lemma buildGatewayUrl_spec:
  "buildGatewayUrl url legacy =
     (let pre = take (host_start url) url; rest = drop (host_start url) url in
      pre @ (if CHR ''/'' \<in> set rest then rest
             else takeWhile (\<lambda>x. x \<noteq> CHR ''?'') rest @ ''/'' @ dropWhile (\<lambda>x. x \<noteq> CHR ''?'') rest)
          @ (if legacy then [] else (if CHR ''?'' \<in> set rest then ''&'' else ''?'') @ ''RPCv2=true''))"
proof -
  let ?pre = "take (host_start url) url" and ?rest = "drop (host_start url) url"
  have len: "length ?pre = host_start url" using host_start_le by simp
  have path: "(if str_find_char CHR ''/'' url (host_start url) = None then
       (case str_find_char CHR ''?'' url (host_start url) of None \<Rightarrow> url @ ''/''
        | Some q \<Rightarrow> take q url @ ''/'' @ drop q url) else url)
      = ?pre @ (if CHR ''/'' \<in> set ?rest then ?rest
             else takeWhile (\<lambda>x. x \<noteq> CHR ''?'') ?rest @ ''/'' @ dropWhile (\<lambda>x. x \<noteq> CHR ''?'') ?rest)"
    using insert_slash[of ?rest ?pre, unfolded append_take_drop_id len] by (simp add: str_find_char_None)
  have parts: "set ?rest = set (takeWhile (\<lambda>x. x \<noteq> CHR ''?'') ?rest) \<union> set (dropWhile (\<lambda>x. x \<noteq> CHR ''?'') ?rest)"
    by (metis set_append takeWhile_dropWhile_id)
  have query: "str_find_char CHR ''?'' (?pre @ (if CHR ''/'' \<in> set ?rest then ?rest
       else takeWhile (\<lambda>x. x \<noteq> CHR ''?'') ?rest @ ''/'' @ dropWhile (\<lambda>x. x \<noteq> CHR ''?'') ?rest)) (host_start url) = None
      \<longleftrightarrow> CHR ''?'' \<notin> set ?rest"
    using len parts by (auto simp: str_find_char_None)
  show ?thesis
    unfolding buildGatewayUrl_def Let_def path query by simp
qed

end
