(* ===== verification/Fb_Transport.thy ===== *)
theory Fb_Transport
  imports Fb_Client Fb_Worker Fb_Url
begin

text \<open>
  \<open>class Transport\<close> of \<open>src/transport.h\<close> and \<open>src/transport.cpp\<close>: the connection state
  machine, the queue of received payloads with its worker, the message id counter, sending, and
  the response headers. The websocketpp library is a parameter, the record \<open>ws_api\<close> of its
  answers to the calls the code makes. Calls back into the gateway (\<open>messageReceiver_\<close>,
  \<open>connectionReceiver_\<close>) are returned as a list of upcalls in the order they are made.
\<close>

unbundle bit_operations_syntax

section \<open>The websocket library's answers\<close>

type_synonym hdl = nat

text \<open>What the library throws: \<open>std::bad_weak_ptr\<close> or an exception of its own, both \<open>std::exception\<close>s.\<close>

datatype ws_exn = WsBadWeakPtr | WsException string

fun ws_exn_of :: "ws_exn \<Rightarrow> exn" where
  "ws_exn_of WsBadWeakPtr = BadWeakPtr"
| "ws_exn_of (WsException what) = StdException what"

record ws_api =
  ws_open_handshake_timeout :: int \<comment> \<open>\<open>error::value\<close> constants\<close>
  ws_close_handshake_timeout :: int
  ws_alevel_none :: u32
  ws_alevel_all :: u32
  ws_alevel_frame_payload :: u32
  ws_alevel_frame_header :: u32
  ws_alevel_control :: u32
  ws_get_connection :: "string \<Rightarrow> int \<times> hdl option" \<comment> \<open>the error code and the pointer\<close>
  ws_replace_header :: "hdl \<Rightarrow> string \<Rightarrow> string \<Rightarrow> ws_exn option"
  ws_con_from_hdl :: "hdl option \<Rightarrow> ws_exn + hdl option" \<comment> \<open>the handle is a weak pointer, \<open>None\<close> the empty one\<close>
  ws_con_ec :: "hdl \<Rightarrow> int"
  ws_con_headers :: "hdl \<Rightarrow> (string, string) omap"
  ws_send :: "hdl option \<Rightarrow> string \<Rightarrow> int"

section \<open>State\<close>

datatype TransportState = NotStarted | Connecting | Connected | Disconnected

text \<open>A \<open>std::function\<close> kept for later is a reference number.\<close>

type_synonym fn_ref = nat

record Transport =
  tr_status :: TransportState
  tr_id_counter :: u32
  tr_debugEnabled :: bool
  tr_messageReceiver :: "fn_ref option"
  tr_connectionReceiver :: "fn_ref option"
  tr_connectionThread :: bool \<comment> \<open>joinable\<close>
  tr_connectionHandle :: "hdl option"
  tr_messageWorker :: bool \<comment> \<open>joinable\<close>
  tr_messageQueue :: "string list"
  tr_stopMessageWorker :: bool
  tr_responseHeaders :: "(string, string) omap"
  tr_perpetual :: bool \<comment> \<open>state of the websocket client object\<close>
  tr_channels :: "(u32 \<times> u32) option" \<comment> \<open>the masks last given to the websocket logger\<close>
  tr_wire :: "string list" \<comment> \<open>payloads the library accepted, in order\<close>

definition Transport_init :: Transport where
  "Transport_init = \<lparr>tr_status = NotStarted, tr_id_counter = 0, tr_debugEnabled = False,
     tr_messageReceiver = None, tr_connectionReceiver = None, tr_connectionThread = False,
     tr_connectionHandle = None, tr_messageWorker = False, tr_messageQueue = [],
     tr_stopMessageWorker = False, tr_responseHeaders = [], tr_perpetual = False,
     tr_channels = None, tr_wire = []\<rparr>"

datatype upcall = UpMessage string | UpConnection bool Error

definition mapError :: "ws_api \<Rightarrow> int \<Rightarrow> Error" where
  "mapError W v =
     (if v = ws_open_handshake_timeout W \<or> v = ws_close_handshake_timeout W
      then Err_Timedout else Err_General)"

section \<open>The message worker\<close>

definition Transport_startMessageWorker :: "Transport \<Rightarrow> Transport" where
  "Transport_startMessageWorker t =
     (if tr_messageWorker t then t
      else t\<lparr>tr_stopMessageWorker := False, tr_messageWorker := True\<rparr>)"

text \<open>
  One pass of \<open>processQueuedMessages\<close>; the payload taken is parsed and handed to
  \<open>messageReceiver_\<close> outside the lock (\<open>UpMessage\<close>); that part of the pass is \<open>Gateway_deliver\<close>
  of \<open>Fb_Gateway\<close>.
\<close>

definition processQueuedMessages_pass :: "Transport \<Rightarrow> string pass \<times> Transport" where
  "processQueuedMessages_pass t =
     (if tr_messageQueue t = [] then
        (if tr_stopMessageWorker t then (Exited, t) else (Blocked, t))
      else (Took (hd (tr_messageQueue t)), t\<lparr>tr_messageQueue := tl (tr_messageQueue t)\<rparr>))"

text \<open>
  \<open>stopMessageWorker\<close> sets the flag and joins: the worker first takes every queued payload,
  then exits. \<open>Suc\<close> of the queue's length is enough passes (\<open>mw.run_drains\<close>).
\<close>

definition Transport_stopMessageWorker :: "Transport \<Rightarrow> upcall list \<times> Transport" where
  "Transport_stopMessageWorker t =
     (let t = t\<lparr>tr_stopMessageWorker := True\<rparr> in
      if tr_messageWorker t then
        (let (payloads, _, t) = worker_run processQueuedMessages_pass (Suc (length (tr_messageQueue t))) t
         in (map UpMessage payloads, t\<lparr>tr_messageWorker := False\<rparr>))
      else ([], t))"

definition Transport_start :: "Transport \<Rightarrow> Transport" where
  "Transport_start t =
     (let t = t\<lparr>tr_perpetual := True, tr_connectionThread := True\<rparr>;
          t = Transport_startMessageWorker t
      in t\<lparr>tr_status := Disconnected\<rparr>)"

section \<open>connect\<close>

definition Transport_setLogging :: "u32 \<Rightarrow> u32 \<Rightarrow> Transport \<Rightarrow> Transport" where
  "Transport_setLogging include exclude t = t\<lparr>tr_channels := Some (include, exclude)\<rparr>"

definition logging_masks :: "ws_api \<Rightarrow> bool \<Rightarrow> u32 option \<Rightarrow> u32 option \<Rightarrow> u32 \<times> u32" where
  "logging_masks W debugEnabled transportLoggingInclude transportLoggingExclude =
     (let include = (if debugEnabled then ws_alevel_all W AND NOT (ws_alevel_frame_payload W)
                     else ws_alevel_none W);
          exclude = (if debugEnabled then ws_alevel_frame_header W OR ws_alevel_control W
                     else ws_alevel_none W);
          include = (case transportLoggingInclude of Some m \<Rightarrow> m | None \<Rightarrow> include);
          exclude = (case transportLoggingExclude of Some m \<Rightarrow> m | None \<Rightarrow> exclude);
          exclude = (if include AND ws_alevel_frame_payload W = 0
                     then exclude OR ws_alevel_frame_payload W else exclude)
      in (include, exclude))"

text \<open>The loop that injects the headers: the first exception ends it.\<close>

fun inject_headers :: "ws_api \<Rightarrow> hdl \<Rightarrow> (string, string) omap \<Rightarrow> ws_exn option" where
  "inject_headers W con [] = None"
| "inject_headers W con (header # headers) =
     (case ws_replace_header W con (fst header) (snd header) of
        Some e \<Rightarrow> Some e
      | None \<Rightarrow> inject_headers W con headers)"

definition Transport_connect ::
    "ws_api \<Rightarrow> bool \<Rightarrow> string \<Rightarrow> fn_ref \<Rightarrow> fn_ref \<Rightarrow> u32 option \<Rightarrow> u32 option \<Rightarrow>
     (string, string) omap \<Rightarrow> Transport \<Rightarrow> Error \<times> Transport" where
  "Transport_connect W debugLevelEnabled url onMessage onConnectionChange inc exc headers t =
     (if tr_status t = Connected \<or> tr_status t = Connecting then (Err_AlreadyConnected, t)
      else
        let t = (if tr_status t = NotStarted
                 then Transport_start (t\<lparr>tr_debugEnabled := debugLevelEnabled\<rparr>) else t);
            t = t\<lparr>tr_messageReceiver := Some onMessage, tr_connectionReceiver := Some onConnectionChange\<rparr>;
            (include, exclude) = logging_masks W (tr_debugEnabled t) inc exc;
            t = Transport_setLogging include exclude t
        in case ws_get_connection W url of
             (ec, con) \<Rightarrow>
               if ec \<noteq> 0 then (Err_NotConnected, t)
               else (case con of
                       None \<Rightarrow> (Err_NotConnected, t)
                     | Some h \<Rightarrow>
                         (case inject_headers W h headers of
                            Some _ \<Rightarrow> (Err_NotConnected, t)
                          | None \<Rightarrow>
                              (Err_None, t\<lparr>tr_connectionHandle := Some h, tr_status := Connecting\<rparr>))))"

section \<open>Handlers on the websocket thread\<close>

definition Transport_onMessage :: "bool \<Rightarrow> string \<Rightarrow> Transport \<Rightarrow> Transport" where
  "Transport_onMessage is_text payload t =
     (if \<not> is_text then t
      else if tr_stopMessageWorker t then t
      else t\<lparr>tr_messageQueue := tr_messageQueue t @ [payload]\<rparr>)"

text \<open>\<open>responseHeaders_[header.first] = header.second\<close> for each header of the response.\<close>

definition store_headers :: "(string, string) omap \<Rightarrow> (string, string) omap" where
  "store_headers headers = fold (\<lambda>header m. om_update (fst header) (snd header) m) headers []"

definition Transport_onOpen :: "ws_api \<Rightarrow> hdl \<Rightarrow> Transport \<Rightarrow> upcall list \<times> Transport" where
  "Transport_onOpen W h t =
     (let headers = (case ws_con_from_hdl W (Some h) of
                       Inr (Some con) \<Rightarrow> store_headers (ws_con_headers W con)
                     | Inr None \<Rightarrow> []
                     | Inl _ \<Rightarrow> [])
      in ([UpConnection True Err_None],
          t\<lparr>tr_responseHeaders := headers, tr_status := Connected\<rparr>))"

definition closing_error :: "ws_api \<Rightarrow> hdl \<Rightarrow> Error" where
  "closing_error W h = (case ws_con_from_hdl W (Some h) of
       Inr (Some con) \<Rightarrow> mapError W (ws_con_ec W con)
     | _ \<Rightarrow> Err_General)"

definition Transport_onClose :: "ws_api \<Rightarrow> hdl \<Rightarrow> Transport \<Rightarrow> upcall list \<times> Transport" where
  "Transport_onClose W h t =
     ([UpConnection False (closing_error W h)],
      t\<lparr>tr_status := Disconnected, tr_responseHeaders := []\<rparr>)"

definition Transport_onFail :: "ws_api \<Rightarrow> hdl \<Rightarrow> Transport \<Rightarrow> upcall list \<times> Transport" where
  "Transport_onFail W h t =
     ([UpConnection False (closing_error W h)],
      t\<lparr>tr_status := Disconnected, tr_responseHeaders := []\<rparr>)"

definition Transport_getResponseHeader :: "string \<Rightarrow> Transport \<Rightarrow> string option" where
  "Transport_getResponseHeader headerName t = om_lookup (tr_responseHeaders t) headerName"

section \<open>disconnect\<close>

text \<open>
  What may still run until the websocket thread is joined: its handlers, and in between passes of
  the message worker (\<open>IoPass\<close>), which goes on handing out payloads.
\<close>

datatype io_event = IoOpen hdl | IoClose hdl | IoFail hdl | IoMessage bool string | IoPass

fun Transport_io :: "ws_api \<Rightarrow> io_event \<Rightarrow> Transport \<Rightarrow> upcall list \<times> Transport" where
  "Transport_io W (IoOpen h) t = Transport_onOpen W h t"
| "Transport_io W (IoClose h) t = Transport_onClose W h t"
| "Transport_io W (IoFail h) t = Transport_onFail W h t"
| "Transport_io W (IoMessage is_text payload) t = ([], Transport_onMessage is_text payload t)"
| "Transport_io W IoPass t =
     (if tr_messageWorker t then
        (case processQueuedMessages_pass t of
           (Took payload, t) \<Rightarrow> ([UpMessage payload], t)
         | (_, t) \<Rightarrow> ([], t))
      else ([], t))"

fun Transport_io_all :: "ws_api \<Rightarrow> io_event list \<Rightarrow> Transport \<Rightarrow> upcall list \<times> Transport" where
  "Transport_io_all W [] t = ([], t)"
| "Transport_io_all W (ev # evs) t =
     (let (us, t) = Transport_io W ev t; (vs, t) = Transport_io_all W evs t in (us @ vs, t))"

text \<open>
  The \<open>try\<close> block of \<open>disconnect\<close> that shortens the close handshake: what leaves it. Only
  \<open>std::bad_weak_ptr\<close> is caught.
\<close>

definition shorten_close_handshake :: "ws_api \<Rightarrow> Transport \<Rightarrow> exn option" where
  "shorten_close_handshake W t =
     (case ws_con_from_hdl W (tr_connectionHandle t) of
        Inl e \<Rightarrow> if e = WsBadWeakPtr then None else Some (ws_exn_of e)
      | Inr None \<Rightarrow> Some NullDeref
      | Inr (Some _) \<Rightarrow> None)"

text \<open>
  \<open>evs\<close> is what the websocket thread runs between \<open>close()\<close> or \<open>stop()\<close> and the end of its
  join, such as the close handler, and the passes of the message worker in that time, in any order.
\<close>

definition Transport_disconnect ::
    "ws_api \<Rightarrow> io_event list \<Rightarrow> Transport \<Rightarrow> (exn + Error) \<times> upcall list \<times> Transport" where
  "Transport_disconnect W evs t =
     (if tr_status t = NotStarted then (Inr Err_None, [], t)
      else
        let t = t\<lparr>tr_perpetual := False\<rparr> in
        case (if tr_status t = Connected then shorten_close_handshake W t else None) of
          Some e \<Rightarrow> (Inl e, [], t)
        | None \<Rightarrow>
            let (us, t) = Transport_io_all W evs t;
                t = t\<lparr>tr_connectionThread := False\<rparr>;
                (vs, t) = Transport_stopMessageWorker t
            in (Inr Err_None, us @ vs,
                t\<lparr>tr_perpetual := False, tr_channels := None, tr_responseHeaders := [], tr_status := NotStarted\<rparr>))"

text \<open>The destructor is \<open>noexcept\<close>: an exception that reaches it (\<open>Some\<close>) ends the process.\<close>

definition Transport_destroy :: "ws_api \<Rightarrow> io_event list \<Rightarrow> Transport \<Rightarrow> exn option \<times> upcall list \<times> Transport" where
  "Transport_destroy W evs t =
     (case Transport_disconnect W evs t of
        (Inl e, us, t) \<Rightarrow> (Some e, us, t)
      | (Inr _, us, t) \<Rightarrow> (let (vs, t) = Transport_stopMessageWorker t in (None, us @ vs, t)))"

section \<open>Message ids and sending\<close>

definition Transport_getNextMessageID :: "Transport \<Rightarrow> u32 \<times> Transport" where
  "Transport_getNextMessageID t = (tr_id_counter t + 1, t\<lparr>tr_id_counter := tr_id_counter t + 1\<rparr>)"

definition rpc_message :: "'j json_api \<Rightarrow> string \<Rightarrow> 'j \<Rightarrow> u32 \<Rightarrow> 'j" where
  "rpc_message J method params i =
     (let msg = js_null J;
          msg = js_set J msg ''jsonrpc'' (js_str J ''2.0'');
          msg = js_set J msg ''id'' (js_uint J i);
          msg = js_set J msg ''method'' (js_str J method)
      in if \<not> js_empty J params then js_set J msg ''params'' params else msg)"

definition Transport_send ::
    "'j json_api \<Rightarrow> ws_api \<Rightarrow> string \<Rightarrow> 'j \<Rightarrow> u32 \<Rightarrow> Transport \<Rightarrow> (exn + Error) \<times> Transport" where
  "Transport_send J W method params i t =
     (if tr_status t \<noteq> Connected then (Inr Err_NotConnected, t)
      else case js_dump J (rpc_message J method params i) of
             Inl e \<Rightarrow> (Inl e, t)
           | Inr text \<Rightarrow>
               (let ec = ws_send W (tr_connectionHandle t) text in
                if ec \<noteq> 0 then (Inr (mapError W ec), t)
                else (Inr Err_None, t\<lparr>tr_wire := tr_wire t @ [text]\<rparr>)))"

section \<open>The worker contract\<close>

interpretation mw: queue_worker tr_messageQueue tr_stopMessageWorker
  "\<lambda>q t. t\<lparr>tr_messageQueue := q\<rparr>" processQueuedMessages_pass
  by unfold_locales (auto simp: processQueuedMessages_pass_def)

lemma stopMessageWorker_eq:
  "Transport_stopMessageWorker t =
     (if tr_messageWorker t then
        (map UpMessage (tr_messageQueue t),
         t\<lparr>tr_stopMessageWorker := True, tr_messageQueue := [], tr_messageWorker := False\<rparr>)
      else ([], t\<lparr>tr_stopMessageWorker := True\<rparr>))"
  by (simp add: Transport_stopMessageWorker_def mw.run_drains Let_def del: worker_run.simps)

section \<open>The contract of IClientTransport\<close>

text \<open>Ids handed out while the 32-bit counter has not wrapped.\<close>

definition ids_used :: "Transport \<Rightarrow> u32 set" where
  "ids_used t = {i. 0 < i \<and> i \<le> tr_id_counter t}"

definition ids_left :: "Transport \<Rightarrow> bool" where
  "ids_left t \<longleftrightarrow> tr_id_counter t \<noteq> - 1"

lemma send_frame [fb_frame, simp]:
  "tr_id_counter (snd (Transport_send J W m p i t)) = tr_id_counter t"
  "tr_status (snd (Transport_send J W m p i t)) = tr_status t"
  "tr_messageQueue (snd (Transport_send J W m p i t)) = tr_messageQueue t"
  "tr_responseHeaders (snd (Transport_send J W m p i t)) = tr_responseHeaders t"
  by (simp_all add: Transport_send_def Let_def split: sum.splits)

lemma word_succ_bounds:
  fixes a x :: "'a::len word"
  assumes "a \<noteq> - 1"
  shows "x \<le> a + 1 \<longleftrightarrow> x \<le> a \<or> x = a + 1" "0 < a + 1" "\<not> a + 1 \<le> a"
proof -
  have "unat (a + 1) = Suc (unat a)"
    using assms by (metis add.commute add_eq_0_iff unatSuc Word.unatSuc add.inverse_inverse)
  then show "x \<le> a + 1 \<longleftrightarrow> x \<le> a \<or> x = a + 1" "0 < a + 1" "\<not> a + 1 \<le> a"
    by (auto simp: word_le_nat_alt word_less_nat_alt word_unat_eq_iff)
qed

interpretation ct: client_transport Transport_getNextMessageID "Transport_send J W" ids_used ids_left
proof unfold_locales
  fix t t' i
  assume "ids_left t" "Transport_getNextMessageID t = (i, t')"
  then show "i \<notin> ids_used t \<and> ids_used t' = insert i (ids_used t)"
    by (auto simp: ids_left_def ids_used_def Transport_getNextMessageID_def word_succ_bounds)
next
  fix m p i t r t'
  assume "Transport_send J W m p i t = (r, t')"
  then show "ids_used t' = ids_used t"
    using send_frame(1)[of J W m p i t] by (simp add: ids_used_def)
qed

section \<open>Invariant of the connection state machine\<close>

text \<open>
  Threads run exactly while the transport is started, the receivers are installed then, and
  response headers are present only while connected.
\<close>

definition transport_inv :: "Transport \<Rightarrow> bool" where
  "transport_inv t \<longleftrightarrow>
     (if tr_status t = NotStarted then \<not> tr_connectionThread t \<and> \<not> tr_messageWorker t
      else tr_connectionThread t \<and> tr_messageWorker t \<and> \<not> tr_stopMessageWorker t
        \<and> tr_messageReceiver t \<noteq> None \<and> tr_connectionReceiver t \<noteq> None)
     \<and> (tr_status t \<noteq> Connected \<longrightarrow> tr_responseHeaders t = [])"

inductive transport_step :: "'j json_api \<Rightarrow> Transport \<Rightarrow> Transport \<Rightarrow> bool" for J where
  ts_connect: "transport_step J t (snd (Transport_connect W dbg url m k inc exc headers t))"
| ts_disconnect: "transport_step J t (snd (snd (Transport_disconnect W evs t)))"
| ts_io: "tr_connectionThread t \<Longrightarrow> transport_step J t (snd (Transport_io W ev t))"
| ts_pass: "tr_messageWorker t \<Longrightarrow> transport_step J t (snd (processQueuedMessages_pass t))"
| ts_next_id: "transport_step J t (snd (Transport_getNextMessageID t))"
| ts_send: "transport_step J t (snd (Transport_send J W method params i t))"

inductive transport_reachable :: "'j json_api \<Rightarrow> Transport \<Rightarrow> bool" for J where
  tr_start: "transport_reachable J Transport_init"
| tr_step: "transport_reachable J t \<Longrightarrow> transport_step J t t' \<Longrightarrow> transport_reachable J t'"

lemma io_status: "tr_status (snd (Transport_io W ev t)) \<noteq> NotStarted \<longleftrightarrow> tr_status t \<noteq> NotStarted
    \<or> (\<forall>b p. ev \<noteq> IoMessage b p) \<and> ev \<noteq> IoPass"
  by (cases ev) (auto simp: Transport_onOpen_def Transport_onClose_def Transport_onFail_def Transport_onMessage_def
      processQueuedMessages_pass_def)

lemma transport_inv_init: "transport_inv Transport_init"
  by (simp add: transport_inv_def Transport_init_def)

lemma transport_inv_connect [fb_inv]:
  "transport_inv t \<Longrightarrow> transport_inv (snd (Transport_connect W dbg url m k inc exc headers t))"
  by (cases "tr_status t")
     (auto simp: transport_inv_def Transport_connect_def Transport_start_def Transport_setLogging_def
        Transport_startMessageWorker_def Let_def split: prod.splits option.splits)

lemma transport_inv_io [fb_inv]:
  "transport_inv t \<Longrightarrow> tr_connectionThread t \<Longrightarrow> transport_inv (snd (Transport_io W ev t))"
  by (cases ev) (auto simp: transport_inv_def Transport_onOpen_def Transport_onClose_def
      Transport_onFail_def Transport_onMessage_def processQueuedMessages_pass_def split: if_splits)

lemma io_threads: "tr_connectionThread (snd (Transport_io W ev t)) = tr_connectionThread t"
  by (cases ev) (auto simp: Transport_onOpen_def Transport_onClose_def Transport_onFail_def Transport_onMessage_def
      processQueuedMessages_pass_def)

lemma transport_inv_io_all [fb_inv]:
  "transport_inv t \<Longrightarrow> tr_connectionThread t \<Longrightarrow>
     transport_inv (snd (Transport_io_all W evs t)) \<and> tr_connectionThread (snd (Transport_io_all W evs t))"
  by (induction evs arbitrary: t)
     (simp_all add: case_prod_beta Let_def transport_inv_io io_threads)

lemma transport_inv_disconnect [fb_inv]:
  "transport_inv t \<Longrightarrow> transport_inv (snd (snd (Transport_disconnect W evs t)))"
  by (auto simp: Transport_disconnect_def Let_def case_prod_beta stopMessageWorker_eq transport_inv_def split: option.splits)

lemma transport_inv_step: "transport_step J t t' \<Longrightarrow> transport_inv t \<Longrightarrow> transport_inv t'"
proof (induction rule: transport_step.induct)
  case (ts_pass t)
  then show ?case by (auto simp: processQueuedMessages_pass_def transport_inv_def split: if_splits)
next
  case (ts_next_id t)
  then show ?case by (simp add: Transport_getNextMessageID_def transport_inv_def)
next
  case (ts_send t W m ps i)
  then show ?case
    by (auto simp: Transport_send_def transport_inv_def Let_def split: sum.splits)
qed (simp_all add: transport_inv_connect transport_inv_disconnect transport_inv_io)

lemma transport_reachable_inv: "transport_reachable J t \<Longrightarrow> transport_inv t"
  by (induction rule: transport_reachable.induct) (auto intro: transport_inv_init transport_inv_step)

section \<open>Lemmas on single operations\<close>

fun texts_of :: "io_event list \<Rightarrow> string list" where
  "texts_of [] = []"
| "texts_of (IoMessage True payload # evs) = payload # texts_of evs"
| "texts_of (_ # evs) = texts_of evs"

fun messages_of :: "upcall list \<Rightarrow> string list" where
  "messages_of [] = []"
| "messages_of (UpMessage payload # us) = payload # messages_of us"
| "messages_of (UpConnection _ _ # us) = messages_of us"

lemma messages_of_append [simp]: "messages_of (us @ vs) = messages_of us @ messages_of vs"
  by (induction us rule: messages_of.induct) auto

lemma messages_of_map [simp]: "messages_of (map UpMessage ps) = ps"
  by (induction ps) auto

text \<open>Payloads are handed out in the order of arrival, whenever the worker gets to run.\<close>

lemma io_queue:
  assumes "\<not> tr_stopMessageWorker t"
  shows "messages_of (fst (Transport_io W ev t)) @ tr_messageQueue (snd (Transport_io W ev t)) = tr_messageQueue t @ texts_of [ev]
    \<and> tr_messageWorker (snd (Transport_io W ev t)) = tr_messageWorker t
    \<and> \<not> tr_stopMessageWorker (snd (Transport_io W ev t))"
proof (cases ev)
  case (IoMessage b p)
  then show ?thesis using assms by (cases b) (simp_all add: Transport_onMessage_def)
qed (use assms in \<open>auto simp: Transport_onOpen_def Transport_onClose_def Transport_onFail_def processQueuedMessages_pass_def\<close>)

lemma texts_of_Cons: "texts_of (ev # evs) = texts_of [ev] @ texts_of evs"
  by (cases "(ev # evs)" rule: texts_of.cases) simp_all

lemma io_all_queue:
  assumes "\<not> tr_stopMessageWorker t"
  shows "messages_of (fst (Transport_io_all W evs t)) @ tr_messageQueue (snd (Transport_io_all W evs t)) = tr_messageQueue t @ texts_of evs
    \<and> tr_messageWorker (snd (Transport_io_all W evs t)) = tr_messageWorker t"
  using assms
proof (induction evs arbitrary: t)
  case (Cons ev evs)
  note q = io_queue[OF Cons.prems, of W ev]
  with Cons.IH[of "snd (Transport_io W ev t)"] have
    "messages_of (fst (Transport_io_all W evs (snd (Transport_io W ev t)))) @ tr_messageQueue (snd (Transport_io_all W evs (snd (Transport_io W ev t))))
      = tr_messageQueue (snd (Transport_io W ev t)) @ texts_of evs" by blast
  then have "messages_of (fst (Transport_io W ev t)) @ messages_of (fst (Transport_io_all W evs (snd (Transport_io W ev t))))
      @ tr_messageQueue (snd (Transport_io_all W evs (snd (Transport_io W ev t))))
    = tr_messageQueue t @ texts_of (ev # evs)"
    using q unfolding texts_of_Cons[of ev evs] by (metis append.assoc)
  with q Cons.IH[of "snd (Transport_io W ev t)"] show ?case by (simp add: case_prod_beta Let_def)
qed simp

lemma fold_om_update:
  "om_lookup (fold (\<lambda>header m. om_update (fst header) (snd header) m) hs m) = om_lookup m ++ map_of (rev hs)"
  by (induction hs arbitrary: m) (auto simp: om_lookup_update map_add_upd)

lemma store_headers_lookup:
  assumes "distinct (map fst hs)"
  shows "om_lookup (store_headers hs) = om_lookup hs"
proof -
  have "map_of (rev hs) = map_of hs"
    using assms by (subst map_of_inject_set) (simp_all flip: rev_map)
  then show ?thesis
    using fold_om_update[of hs "[]"] by (simp add: store_headers_def om_lookup_def[abs_def])
qed

fun message_ids :: "nat \<Rightarrow> Transport \<Rightarrow> u32 list" where
  "message_ids 0 t = []"
| "message_ids (Suc n) t = (let (i, t') = Transport_getNextMessageID t in i # message_ids n t')"

lemma message_ids_eq: "message_ids n t = map (\<lambda>k. tr_id_counter t + of_nat (Suc k)) [0..<n]"
proof (induction n arbitrary: t)
  case (Suc n)
  have "[0..<Suc n] = 0 # map Suc [0..<n]"
    by (metis map_Suc_upt upt_conv_Cons zero_less_Suc)
  then show ?case
    by (simp add: Transport_getNextMessageID_def Suc.IH o_def algebra_simps)
qed simp

context json_lib
begin

lemma rpc_message_reads:
  "js_is_object J (rpc_message J m ps i)"
  "js_at J (rpc_message J m ps i) ''jsonrpc'' = Inr (js_str J ''2.0'')"
  "js_at J (rpc_message J m ps i) ''id'' = Inr (js_uint J i)"
  "js_at J (rpc_message J m ps i) ''method'' = Inr (js_str J m)"
  "js_contains J (rpc_message J m ps i) ''params'' \<longleftrightarrow> \<not> js_empty J ps"
  "\<not> js_empty J ps \<Longrightarrow> js_at J (rpc_message J m ps i) ''params'' = Inr ps"
  unfolding rpc_message_def
  by (simp_all add: Let_def object_set at_set_same at_set_other contains_set contains_null)

end

section \<open>Properties\<close>

text \<open>A library whose every call succeeds on handle 7, and a started transport, for evaluation.\<close>

definition ex_ws :: ws_api where
  "ex_ws = \<lparr>ws_open_handshake_timeout = 101, ws_close_handshake_timeout = 102,
     ws_alevel_none = 0, ws_alevel_all = 65535, ws_alevel_frame_payload = 128,
     ws_alevel_frame_header = 64, ws_alevel_control = 256,
     ws_get_connection = (\<lambda>url. if url = [] then (5, None) else (0, Some 7)),
     ws_replace_header = (\<lambda>_ name _. if name = [] then Some (WsException ''bad header'') else None),
     ws_con_from_hdl = (\<lambda>h. if h = None then Inl WsBadWeakPtr else Inr h), ws_con_ec = (\<lambda>_. 101),
     ws_con_headers = (\<lambda>_. [(''X-Id'', ''42'')]), ws_send = (\<lambda>_ _. 0)\<rparr>"

definition ex_connecting :: Transport where
  "ex_connecting = snd (Transport_connect ex_ws False ''ws://h/'' 0 1 None None [] Transport_init)"

definition ex_connected :: Transport where
  "ex_connected = snd (Transport_onOpen ex_ws 7 ex_connecting)"

lemma ex_connected_reachable: "transport_reachable J ex_connected"
proof -
  have "transport_reachable J ex_connecting"
    unfolding ex_connecting_def by (rule tr_step[OF tr_start ts_connect])
  moreover have "tr_connectionThread ex_connecting"
    by (simp add: ex_connecting_def ex_ws_def Transport_connect_def Transport_start_def Transport_init_def
        Transport_setLogging_def Transport_startMessageWorker_def Let_def logging_masks_def)
  ultimately show ?thesis
    using tr_step[OF _ ts_io[of ex_connecting J ex_ws "IoOpen 7"]] by (simp add: ex_connected_def)
qed

text \<open>
  What the code expects of \<open>get_con_from_hdl\<close> on the handle it closes: the connection, or
  \<open>std::bad_weak_ptr\<close> when it has been torn down.
\<close>

definition close_documented :: "ws_api \<Rightarrow> hdl option \<Rightarrow> bool" where
  "close_documented W h \<longleftrightarrow> (case ws_con_from_hdl W h of Inl e \<Rightarrow> e = WsBadWeakPtr | Inr con \<Rightarrow> con \<noteq> None)"

lemma close_documented_ok: "close_documented W (tr_connectionHandle t) \<Longrightarrow> shorten_close_handshake W t = None"
  by (auto simp: close_documented_def shorten_close_handshake_def split: sum.splits option.splits)

lemma ex_ws_close: "close_documented ex_ws h"
  by (auto simp: close_documented_def ex_ws_def)

lemma ex_connected_fields:
  "tr_status ex_connected = Connected" "tr_messageQueue ex_connected = []" "tr_wire ex_connected = []"
  "tr_id_counter ex_connected = 0" "tr_connectionHandle ex_connected = Some 7"
  by (simp_all add: ex_connected_def ex_connecting_def ex_ws_def Transport_connect_def Transport_start_def
      Transport_init_def Transport_setLogging_def Transport_startMessageWorker_def Transport_onOpen_def
      Let_def logging_masks_def)

text \<open>
  In every state the transport can reach, by any order of API calls, websocket events and
  worker passes: its two threads run exactly while it is started, the worker's stop flag is then
  down and both receivers are installed, and response headers are visible only while connected.
\<close>

lemma transport_threads_follow_status:
  assumes "transport_reachable J t"
  shows "(tr_connectionThread t \<longleftrightarrow> tr_status t \<noteq> NotStarted)
    \<and> (tr_messageWorker t \<longleftrightarrow> tr_status t \<noteq> NotStarted)
    \<and> (tr_status t \<noteq> NotStarted \<longrightarrow> \<not> tr_stopMessageWorker t
         \<and> tr_messageReceiver t \<noteq> None \<and> tr_connectionReceiver t \<noteq> None)
    \<and> (Transport_getResponseHeader name t \<noteq> None \<longrightarrow> tr_status t = Connected)"
  using transport_reachable_inv[OF assms]
  by (auto simp: transport_inv_def Transport_getResponseHeader_def om_lookup_def split: if_splits)

lemma transport_threads_follow_status_witness:
  "tr_status ex_connected = Connected \<and> tr_messageWorker ex_connected \<and> \<not> tr_stopMessageWorker ex_connected"
  using transport_threads_follow_status [OF ex_connected_reachable [of "ref_json []"], of "''X-Id''"]
  by (simp add: ex_connected_fields)

lemma transport_disconnect_messages:
  assumes "transport_inv t" and "tr_status t \<noteq> NotStarted" and "close_documented W (tr_connectionHandle t)"
  shows "\<exists>us t'. Transport_disconnect W evs t = (Inr Err_None, us, t')
    \<and> messages_of us = tr_messageQueue t @ texts_of evs
    \<and> tr_status t' = NotStarted \<and> tr_messageQueue t' = [] \<and> \<not> tr_messageWorker t'
    \<and> \<not> tr_connectionThread t' \<and> tr_responseHeaders t' = []"
proof -
  have flags: "\<not> tr_stopMessageWorker t" "tr_messageWorker t"
    using assms(1,2) by (auto simp: transport_inv_def)
  then show ?thesis
    using io_all_queue[of "t\<lparr>tr_perpetual := False\<rparr>" W evs] assms(2) close_documented_ok[of W "t\<lparr>tr_perpetual := False\<rparr>"] assms(3)
    by (simp add: Transport_disconnect_def Let_def case_prod_beta stopMessageWorker_eq append_assoc[symmetric] del: append_assoc)
qed

text \<open>
  Disconnecting a started transport hands every text payload that was queued or still arrives
  before the websocket thread is joined to the message receiver, each once and in order of
  arrival, and leaves the transport reset: not started, no thread, an empty queue, no headers;
  disconnecting again does nothing.
\<close>

lemma disconnect_drains_and_resets:
  assumes "transport_reachable J t" and "tr_status t \<noteq> NotStarted" and "close_documented W (tr_connectionHandle t)"
  shows "\<exists>us t'. Transport_disconnect W evs t = (Inr Err_None, us, t')
    \<and> messages_of us = tr_messageQueue t @ texts_of evs
    \<and> tr_status t' = NotStarted \<and> tr_messageQueue t' = [] \<and> \<not> tr_messageWorker t'
    \<and> \<not> tr_connectionThread t' \<and> tr_responseHeaders t' = []
    \<and> Transport_disconnect W' evs' t' = (Inr Err_None, [], t')"
proof -
  obtain us t' where d: "Transport_disconnect W evs t = (Inr Err_None, us, t')"
    "messages_of us = tr_messageQueue t @ texts_of evs" "tr_messageQueue t' = []" "\<not> tr_messageWorker t'"
    "\<not> tr_connectionThread t'" "tr_responseHeaders t' = []" and n: "tr_status t' = NotStarted"
    using transport_disconnect_messages[OF transport_reachable_inv[OF assms(1)] assms(2,3), of evs] by blast
  from n have "Transport_disconnect W' evs' t' = (Inr Err_None, [], t')" by (simp add: Transport_disconnect_def)
  with d n show ?thesis by blast
qed

lemma disconnect_drains_and_resets_witness:
  "messages_of (fst (snd (Transport_disconnect ex_ws [IoMessage True ''a'', IoMessage False ''b'', IoClose 7, IoMessage True ''c''] ex_connected)))
     = [''a'', ''c'']"
proof -
  have n: "tr_status ex_connected \<noteq> NotStarted" by (simp add: ex_connected_fields)
  show ?thesis
    using disconnect_drains_and_resets [OF ex_connected_reachable [of "ref_json []"] n ex_ws_close, of
        "[IoMessage True ''a'', IoMessage False ''b'', IoClose 7, IoMessage True ''c'']" ex_ws "[]"]
    by (auto simp: ex_connected_fields)
qed

text \<open>
  \<open>disconnect\<close> catches only \<open>std::bad_weak_ptr\<close> around \<open>get_con_from_hdl\<close>. Any other exception of the
  websocket library leaves it half done: the call throws, both threads still run, the state is
  still \<open>Connected\<close> with the queue and the headers in place, a second call throws again, and the
  destructor, which repeats the call, ends the process.
\<close>

lemma close_exception_leaves_running:
  assumes "transport_reachable J t" and "tr_status t = Connected"
    and "ws_con_from_hdl W (tr_connectionHandle t) = Inl (WsException what)"
  shows "\<exists>t'. Transport_disconnect W evs t = (Inl (StdException what), [], t')
    \<and> t' = t\<lparr>tr_perpetual := False\<rparr> \<and> tr_messageWorker t' \<and> tr_connectionThread t'
    \<and> Transport_disconnect W evs' t' = (Inl (StdException what), [], t')
    \<and> fst (Transport_destroy W evs' t') = Some (StdException what)"
  using assms transport_reachable_inv[OF assms(1)]
  by (simp add: Transport_disconnect_def Transport_destroy_def shorten_close_handshake_def transport_inv_def)

lemma close_exception_leaves_running_witness:
  "\<exists>t'. Transport_disconnect (ex_ws\<lparr>ws_con_from_hdl := (\<lambda>_. Inl (WsException ''Bad Connection''))\<rparr>) [] ex_connected
     = (Inl (StdException ''Bad Connection''), [], t') \<and> tr_messageWorker t'"
  using close_exception_leaves_running [OF ex_connected_reachable [of "ref_json []"], of
      "ex_ws\<lparr>ws_con_from_hdl := (\<lambda>_. Inl (WsException ''Bad Connection''))\<rparr>" "''Bad Connection''" "[]" "[]"]
  by (auto simp: ex_connected_fields)

text \<open>
  The branches of \<open>connect\<close>: refused without any change while a connection is active or in
  progress; otherwise successful exactly when the library creates the connection and accepts
  every header, and then the state is \<open>Connecting\<close>; a failed attempt leaves the started
  transport in \<open>Disconnected\<close>, from which the call can be repeated.
\<close>

lemma connect_outcomes:
  "(tr_status t = Connected \<or> tr_status t = Connecting \<longrightarrow>
      Transport_connect W dbg url m k inc exc headers t = (Err_AlreadyConnected, t))
   \<and> (tr_status t = NotStarted \<or> tr_status t = Disconnected \<longrightarrow>
      (case ws_get_connection W url of
         (ec, con) \<Rightarrow>
           if ec = 0 \<and> (\<exists>h. con = Some h \<and> inject_headers W h headers = None)
           then fst (Transport_connect W dbg url m k inc exc headers t) = Err_None
             \<and> tr_status (snd (Transport_connect W dbg url m k inc exc headers t)) = Connecting
             \<and> tr_connectionHandle (snd (Transport_connect W dbg url m k inc exc headers t)) = con
           else fst (Transport_connect W dbg url m k inc exc headers t) = Err_NotConnected
             \<and> tr_status (snd (Transport_connect W dbg url m k inc exc headers t)) = Disconnected))"
  by (auto simp: Transport_connect_def Transport_start_def Transport_setLogging_def
      Transport_startMessageWorker_def Let_def split: prod.splits option.splits)

text \<open>
  Message ids: any run of at most \<open>2 ^ 32\<close> calls of \<open>getNextMessageID\<close> gives distinct
  ids, and the bound is exact, since the 32-bit counter then wraps to the first of them.
\<close>

lemma message_ids_distinct:
  "(n \<le> 2 ^ 32 \<longrightarrow> distinct (message_ids n t))
   \<and> message_ids (Suc (2 ^ 32)) t ! (2 ^ 32) = message_ids (Suc (2 ^ 32)) t ! 0"
proof (intro conjI impI)
  assume "n \<le> 2 ^ 32"
  have "inj_on (\<lambda>k. tr_id_counter t + of_nat (Suc k)) {0..<n}"
  proof (rule inj_onI)
    fix a b assume ab: "a \<in> {0..<n}" "b \<in> {0..<n}" "tr_id_counter t + of_nat (Suc a) = tr_id_counter t + of_nat (Suc b)"
    then have "(of_nat a :: u32) = of_nat b" by simp
    moreover have "unat (of_nat a :: u32) = a" "unat (of_nat b :: u32) = b"
      using ab(1,2) \<open>n \<le> 2 ^ 32\<close> by (simp_all add: unat_of_nat)
    ultimately show "a = b" by metis
  qed
  then show "distinct (message_ids n t)" by (simp add: message_ids_eq distinct_map)
next
  show "message_ids (Suc (2 ^ 32)) t ! (2 ^ 32) = message_ids (Suc (2 ^ 32)) t ! 0"
    by (simp add: message_ids_eq nth_append del: upt_Suc)
qed

lemma message_ids_distinct_witness: "(3 :: nat) \<le> 2 ^ 32 \<and> distinct (message_ids 3 ex_connected)"
  using message_ids_distinct [of 3 ex_connected] by simp

text \<open>
  Frame payloads, which can carry tokens, reach the websocket log only on request: unless the
  caller's include mask has the payload bit, the payload bit is in the exclude mask.
\<close>

lemma payload_logging_opt_in:
  assumes "ws_alevel_none W = 0"
  shows "(case inc of None \<Rightarrow> True | Some m \<Rightarrow> m AND ws_alevel_frame_payload W = 0) \<Longrightarrow>
    snd (logging_masks W dbg inc exc) AND ws_alevel_frame_payload W = ws_alevel_frame_payload W"
  using assms
  by (auto simp: logging_masks_def Let_def split: option.splits intro!: bit_word_eqI)
     (auto simp: bit_and_iff bit_or_iff bit_not_iff)

lemma payload_logging_opt_in_witness:
  "ws_alevel_none ex_ws = 0 \<and> snd (logging_masks ex_ws True None (Some 1)) AND 128 = 128"
proof -
  have n: "ws_alevel_none ex_ws = 0" by (simp add: ex_ws_def)
  show ?thesis using n payload_logging_opt_in [OF n, of None True "Some 1"] by (simp add: ex_ws_def)
qed

text \<open>
  After the connection opens, the headers of the server's response can be looked up by name;
  after it closes or fails, none is visible.
\<close>

lemma response_headers_lifecycle:
  assumes "ws_con_from_hdl W (Some h) = Inr (Some con)" and "distinct (map fst (ws_con_headers W con))"
  shows "Transport_getResponseHeader name (snd (Transport_onOpen W h t)) = om_lookup (ws_con_headers W con) name
    \<and> Transport_getResponseHeader name (snd (Transport_onClose W h' t)) = None
    \<and> Transport_getResponseHeader name (snd (Transport_onFail W h' t)) = None"
  using assms store_headers_lookup[OF assms(2)]
  by (simp add: Transport_getResponseHeader_def Transport_onOpen_def Transport_onClose_def
      Transport_onFail_def om_lookup_def[of "[]"])

end
