(* ===== verification/Fb_Client_Threads.thy ===== *)
theory Fb_Client_Threads
  imports Fb_Transport
begin

text \<open>
  The request table under concurrency. Application threads call \<open>request\<close>, the message worker
  calls \<open>response\<close>, the watchdog calls \<open>checkPromises\<close>, and whoever notices a lost or closed
  connection calls \<open>cancelAll\<close>. Each call is a sequence of atomic sections: the critical
  sections under \<open>queue_mtx\<close> (the definitions of \<open>Fb_Client\<close>), the atomic id counter, the read
  of \<open>connectionStatus_\<close> in \<open>Transport::send\<close>, the library's send, and one \<open>set_value\<close> at a
  time. The step relation lets any thread run its next section.
\<close>

section \<open>Threads\<close>

text \<open>What a thread is about to do.\<close>

datatype 'j pc =
    Idle
  | Issued u32 \<comment> \<open>has an id, about to enqueue\<close>
  | Sending u32 Caller \<comment> \<open>enqueued, about to read the connection state\<close>
  | Posting u32 Caller \<comment> \<open>saw \<open>Connected\<close>, about to call the library\<close>
  | Erasing u32 Caller Error \<comment> \<open>send failed, about to erase its entry\<close>
  | Fulfilling "(Caller \<times> 'j Result) list" \<comment> \<open>owns these callers, about to set their values\<close>
  | Cleaning \<comment> \<open>the connection state left \<open>Connected\<close>, about to cancel all\<close>
  | Terminated \<comment> \<open>a second \<open>set_value\<close> threw\<close>

record 'j csys =
  sys_client :: "'j Client"
  sys_status :: TransportState
  sys_counter :: u32
  sys_issued :: nat \<comment> \<open>how many ids were handed out\<close>
  sys_pc :: "nat \<Rightarrow> 'j pc"

definition csys_init :: "'j csys" where
  "csys_init = \<lparr>sys_client = Client_init, sys_status = NotStarted, sys_counter = 0, sys_issued = 0,
     sys_pc = (\<lambda>_. Idle)\<rparr>"

definition at_pc :: "'j csys \<Rightarrow> nat \<Rightarrow> 'j pc \<Rightarrow> 'j csys" where
  "at_pc s t p = s\<lparr>sys_pc := (sys_pc s)(t := p)\<rparr>"

inductive cstep :: "'j csys \<Rightarrow> 'j csys \<Rightarrow> bool" where
  issue: "sys_pc s t = Idle \<Longrightarrow> i = sys_counter s + 1 \<Longrightarrow>
     cstep s (at_pc (s\<lparr>sys_counter := i, sys_issued := Suc (sys_issued s)\<rparr>) t (Issued i))"
| enqueue: "sys_pc s t = Issued i \<Longrightarrow> request_enqueue i m now (sys_client s) = (x, c) \<Longrightarrow>
     cstep s (at_pc (s\<lparr>sys_client := c\<rparr>) t (Sending i x))"
| send_connected: "sys_pc s t = Sending i x \<Longrightarrow> sys_status s = Connected \<Longrightarrow>
     cstep s (at_pc s t (Posting i x))"
| send_rejected: "sys_pc s t = Sending i x \<Longrightarrow> sys_status s \<noteq> Connected \<Longrightarrow>
     cstep s (at_pc s t (Erasing i x Err_NotConnected))"
| posted: "sys_pc s t = Posting i x \<Longrightarrow> cstep s (at_pc s t Idle)"
| post_failed: "sys_pc s t = Posting i x \<Longrightarrow> e \<noteq> Err_None \<Longrightarrow> cstep s (at_pc s t (Erasing i x e))"
| erase_owned: "sys_pc s t = Erasing i x e \<Longrightarrow> request_erase i (sys_client s) = (True, c) \<Longrightarrow>
     cstep s (at_pc (s\<lparr>sys_client := c\<rparr>) t (Fulfilling [(x, Result_error e)]))"
| erase_lost: "sys_pc s t = Erasing i x e \<Longrightarrow> request_erase i (sys_client s) = (False, c) \<Longrightarrow>
     cstep s (at_pc (s\<lparr>sys_client := c\<rparr>) t Idle)"
| watchdog: "sys_pc s t = Idle \<Longrightarrow> checkPromises_collect now wait (sys_client s) = (xs, c) \<Longrightarrow>
     cstep s (at_pc (s\<lparr>sys_client := c\<rparr>) t (Fulfilling (map (\<lambda>x. (x, Result_error Err_Timedout)) xs)))"
| reply: "sys_pc s t = Idle \<Longrightarrow> response_take i (sys_client s) = (Some x, c) \<Longrightarrow>
     cstep s (at_pc (s\<lparr>sys_client := c\<rparr>) t (Fulfilling [(x, r)]))"
| cancel: "sys_pc s t = Cleaning \<Longrightarrow> cancelAll_take (sys_client s) = (xs, c) \<Longrightarrow>
     cstep s (at_pc (s\<lparr>sys_client := c\<rparr>) t (Fulfilling (map (\<lambda>x. (x, Result_error Err_NotConnected)) xs)))"
| fulfil: "sys_pc s t = Fulfilling ((x, r) # xs) \<Longrightarrow> promise_set (caller_promise x) r (sys_client s) = (None, c) \<Longrightarrow>
     cstep s (at_pc (s\<lparr>sys_client := c\<rparr>) t (Fulfilling xs))"
| fulfil_throws: "sys_pc s t = Fulfilling ((x, r) # xs) \<Longrightarrow>
     promise_set (caller_promise x) r (sys_client s) = (Some e, c) \<Longrightarrow>
     cstep s (at_pc (s\<lparr>sys_client := c\<rparr>) t Terminated)"
| fulfilled: "sys_pc s t = Fulfilling [] \<Longrightarrow> cstep s (at_pc s t Idle)"
| connecting: "sys_status s \<noteq> Connected \<Longrightarrow> st \<noteq> Connected \<Longrightarrow> cstep s (s\<lparr>sys_status := st\<rparr>)"
| opened: "cstep s (s\<lparr>sys_status := Connected\<rparr>)"
| dropped: "sys_pc s t = Idle \<Longrightarrow> st \<noteq> Connected \<Longrightarrow>
     cstep s (at_pc (s\<lparr>sys_status := st\<rparr>) t Cleaning)"

inductive creachable :: "'j csys \<Rightarrow> bool" where
  cr_start: "creachable csys_init"
| cr_step: "creachable s \<Longrightarrow> cstep s s' \<Longrightarrow> creachable s'"

section \<open>Ownership\<close>

fun held :: "'j pc \<Rightarrow> promise list" where
  "held (Fulfilling xs) = map (caller_promise \<circ> fst) xs"
| "held _ = []"

text \<open>The id of the request a thread is in the middle of, and its entry once enqueued.\<close>

fun flight :: "'j pc \<Rightarrow> u32 option" where
  "flight (Issued i) = Some i"
| "flight (Sending i x) = Some i"
| "flight (Posting i x) = Some i"
| "flight (Erasing i x e) = Some i"
| "flight _ = None"

fun flight_entry :: "'j pc \<Rightarrow> (u32 \<times> Caller) option" where
  "flight_entry (Sending i x) = Some (i, x)"
| "flight_entry (Posting i x) = Some (i, x)"
| "flight_entry (Erasing i x e) = Some (i, x)"
| "flight_entry _ = None"

text \<open>
  A taken caller belongs to one thread: its promise is allocated, unsatisfied, out of the queue,
  and no other thread holds it.
\<close>

definition loose :: "'j Client \<Rightarrow> promise \<Rightarrow> bool" where
  "loose c p \<longleftrightarrow> p < client_next c \<and> client_promises c p = None \<and> p \<notin> pending c"

definition own_inv :: "'j Client \<Rightarrow> (nat \<Rightarrow> promise list) \<Rightarrow> bool" where
  "own_inv c h \<longleftrightarrow> client_wf c
     \<and> (\<forall>t. distinct (h t))
     \<and> (\<forall>t p. p \<in> set (h t) \<longrightarrow> loose c p)
     \<and> (\<forall>t t' p. p \<in> set (h t) \<longrightarrow> p \<in> set (h t') \<longrightarrow> t = t')"

text \<open>Every allocated promise is satisfied, queued, or in a thread's hands.\<close>

definition all_inv :: "'j Client \<Rightarrow> (nat \<Rightarrow> promise list) \<Rightarrow> bool" where
  "all_inv c h \<longleftrightarrow>
     (\<forall>p < client_next c. client_promises c p \<noteq> None \<or> p \<in> pending c \<or> (\<exists>t. p \<in> set (h t)))"

definition ids_inv :: "'j csys \<Rightarrow> bool" where
  "ids_inv s \<longleftrightarrow> sys_counter s = of_nat (sys_issued s)
     \<and> (\<forall>k \<in> fst ` set (client_queue (sys_client s)). unat k \<le> sys_issued s)
     \<and> (\<forall>t i. flight (sys_pc s t) = Some i \<longrightarrow> unat i \<le> sys_issued s)
     \<and> (\<forall>t t' i. flight (sys_pc s t) = Some i \<longrightarrow> flight (sys_pc s t') = Some i \<longrightarrow> t = t')
     \<and> (\<forall>t i. sys_pc s t = Issued i \<longrightarrow> i \<notin> fst ` set (client_queue (sys_client s)))
     \<and> (\<forall>t i x y. flight_entry (sys_pc s t) = Some (i, x) \<longrightarrow> (i, y) \<in> set (client_queue (sys_client s)) \<longrightarrow> y = x)"

text \<open>
  No entry is orphaned: while the connection is down, a cancellation is still to come or the
  entry's own thread will still find out that it cannot send.
\<close>

definition orphan_inv :: "'j csys \<Rightarrow> bool" where
  "orphan_inv s \<longleftrightarrow> (\<forall>(k, x) \<in> set (client_queue (sys_client s)).
     sys_status s = Connected \<or> (\<exists>t. sys_pc s t = Cleaning)
     \<or> (\<exists>t. sys_pc s t = Sending k x) \<or> (\<exists>t e. sys_pc s t = Erasing k x e))"

definition csys_inv :: "'j csys \<Rightarrow> bool" where
  "csys_inv s \<longleftrightarrow> own_inv (sys_client s) (\<lambda>t. held (sys_pc s t)) \<and> all_inv (sys_client s) (\<lambda>t. held (sys_pc s t))
     \<and> ids_inv s \<and> orphan_inv s \<and> (\<forall>t. sys_pc s t \<noteq> Terminated)"

section \<open>Ownership moves\<close>

lemma held_at: "(\<lambda>u. held (sys_pc (at_pc s t p) u)) = (\<lambda>u. held (sys_pc s u))(t := held p)"
  by (auto simp: at_pc_def)

lemma sys_at [simp]:
  "sys_client (at_pc s t p) = sys_client s" "sys_status (at_pc s t p) = sys_status s"
  "sys_counter (at_pc s t p) = sys_counter s" "sys_issued (at_pc s t p) = sys_issued s"
  "sys_pc (at_pc s t p) = (sys_pc s)(t := p)"
  by (simp_all add: at_pc_def)

lemma filter_key:
  assumes "om_wf q" and "(i, x) \<in> set q"
  shows "filter (\<lambda>it. fst it = i) q = [(i, x)]"
  using assms
proof (induction q)
  case (Cons y q)
  then have "\<forall>z \<in> set q. fst y < fst z" and "om_wf q" by (auto simp: om_wf_Cons)
  show ?case
  proof (cases "y = (i, x)")
    case True
    with \<open>\<forall>z \<in> set q. fst y < fst z\<close> have "filter (\<lambda>it. fst it = i) q = []" by (auto simp: filter_empty_conv)
    with True show ?thesis by simp
  next
    case False
    with Cons.prems(2) have "(i, x) \<in> set q" by auto
    with \<open>\<forall>z \<in> set q. fst y < fst z\<close> have "fst y \<noteq> i" by auto
    with Cons.IH \<open>om_wf q\<close> \<open>(i, x) \<in> set q\<close> show ?thesis by simp
  qed
qed simp

text \<open>Enqueueing under an id that is not in the queue.\<close>

lemma enqueue_pending:
  assumes "request_enqueue i m now c = (x, c')" and "i \<notin> fst ` set (client_queue c)" and "client_wf c"
  shows "set (client_queue c') = insert (i, x) (set (client_queue c))"
    "pending c' = insert (client_next c) (pending c)" "caller_promise x = client_next c"
    "client_promises c' = client_promises c" "client_next c' = Suc (client_next c)"
proof -
  have c': "c' = c\<lparr>client_queue := om_update i x (client_queue c), client_next := Suc (client_next c)\<rparr>"
    and x: "caller_promise x = client_next c"
    using assms(1) by (auto simp: request_enqueue_def Let_def)
  show q: "set (client_queue c') = insert (i, x) (set (client_queue c))"
    using assms(2) by (simp add: c' set_om_update)
  show "pending c' = insert (client_next c) (pending c)"
    using q x by (simp add: pending_def)
  show "caller_promise x = client_next c" by (rule x)
  show "client_promises c' = client_promises c" "client_next c' = Suc (client_next c)" by (simp_all add: c')
qed

lemma distinct_om_update:
  "distinct (map f m) \<Longrightarrow> f (k, v) \<notin> f ` set m \<Longrightarrow> k \<notin> fst ` set m \<Longrightarrow> distinct (map f (om_update k v m))"
proof (induction m)
  case (Cons y m)
  then show ?case by (auto simp: set_om_update)
qed simp

lemma enqueue_wf:
  assumes "request_enqueue i m now c = (x, c')" and "i \<notin> fst ` set (client_queue c)" and "client_wf c"
  shows "client_wf c'"
proof -
  have c': "client_queue c' = om_update i x (client_queue c)" and x: "caller_id x = i"
    using assms(1) by (auto simp: request_enqueue_def Let_def)
  note e = enqueue_pending[OF assms]
  have "\<forall>y \<in> set (client_queue c). caller_promise (snd y) < client_next c"
    using assms(3) by (auto simp: client_wf_def)
  then have "distinct (map (caller_promise \<circ> snd) (client_queue c'))"
    using assms(2,3) e(3) unfolding c' by (intro distinct_om_update) (auto simp: client_wf_def)
  moreover have "caller_id y = k \<and> caller_promise y < client_next c' \<and> client_promises c' (caller_promise y) = None"
    if "(k, y) \<in> set (client_queue c')" for k y
    using that assms(3) e x by (auto simp: client_wf_def)
  moreover have "om_wf (client_queue c')"
    using assms(3) unfolding c' by (intro om_wf_update) (rule client_wf_queue)
  moreover have "client_promises c' p = None" if "client_next c' \<le> p" for p
    using that assms(3) e(4,5) by (simp add: client_wf_def)
  ultimately show ?thesis unfolding client_wf_def by blast
qed

lemma own_enqueue:
  assumes "own_inv c h" and "all_inv c h" and "request_enqueue i m now c = (x, c')"
    and "i \<notin> fst ` set (client_queue c)"
  shows "own_inv c' h \<and> all_inv c' h"
proof -
  have wf: "client_wf c" using assms(1) by (simp add: own_inv_def)
  note e = enqueue_pending[OF assms(3,4) wf]
  have "loose c' p" if "loose c p" for p
    using that e by (auto simp: loose_def)
  then have "own_inv c' h"
    using assms(1) enqueue_wf[OF assms(3,4) wf] unfolding own_inv_def by blast
  moreover have "all_inv c' h"
    using assms(2) e by (auto simp: all_inv_def less_Suc_eq)
  ultimately show ?thesis by blast
qed

text \<open>Replacing what one thread holds.\<close>

lemma own_inv_upd:
  assumes "own_inv c h" and "client_wf c'" and "distinct ps" and "\<And>p. p \<in> set ps \<Longrightarrow> loose c' p"
    and "\<And>u p. u \<noteq> t \<Longrightarrow> p \<in> set (h u) \<Longrightarrow> loose c' p \<and> p \<notin> set ps"
  shows "own_inv c' (h(t := ps))"
  using assms unfolding own_inv_def by (metis fun_upd_apply)

text \<open>Taking part of the queue into the hands of a thread that held nothing.\<close>

lemma own_take:
  assumes own: "own_inv c h" and all: "all_inv c h" and "h t = []"
    and ps: "ps = map (caller_promise \<circ> snd) (filter P (client_queue c))"
  shows "own_inv (c\<lparr>client_queue := filter (\<lambda>it. \<not> P it) (client_queue c)\<rparr>) (h(t := ps))
    \<and> all_inv (c\<lparr>client_queue := filter (\<lambda>it. \<not> P it) (client_queue c)\<rparr>) (h(t := ps))"
proof -
  let ?c = "c\<lparr>client_queue := filter (\<lambda>it. \<not> P it) (client_queue c)\<rparr>"
  have wf: "client_wf c" using own by (simp add: own_inv_def)
  have wf': "client_wf ?c"
    using wf by (intro client_wf_filter[OF wf]) (auto simp: client_wf_def)
  have split_pending: "pending c = pending ?c \<union> set ps"
    by (auto simp: pending_def ps)
  have "caller_promise (snd y) \<noteq> caller_promise (snd z)"
    if "y \<in> set (client_queue c)" "z \<in> set (client_queue c)" "P z" "\<not> P y" for y z
    using distinct_promise_eq[of "client_queue c" y z] that wf by (auto simp: client_wf_def)
  then have apart: "pending ?c \<inter> set ps = {}"
    by (auto simp: pending_def ps)
  have "own_inv ?c (h(t := ps))"
  proof (rule own_inv_upd[OF own wf'])
    show "distinct ps" using wf by (simp add: ps client_wf_def distinct_map_filter)
    have "p < client_next c \<and> client_promises c p = None" if "p \<in> set ps" for p
      using that wf by (auto simp: ps client_wf_def)
    then show "loose ?c p" if "p \<in> set ps" for p
      using that apart by (auto simp: loose_def)
    fix u p assume "u \<noteq> t" "p \<in> set (h u)"
    then have "loose c p" using own by (simp add: own_inv_def)
    then show "loose ?c p \<and> p \<notin> set ps" using split_pending by (auto simp: loose_def)
  qed
  moreover have "all_inv ?c (h(t := ps))"
    unfolding all_inv_def
  proof (intro allI impI)
    fix p assume "p < client_next ?c"
    then have "client_promises c p \<noteq> None \<or> p \<in> pending ?c \<or> p \<in> set ps \<or> (\<exists>u. p \<in> set (h u))"
      using all split_pending by (auto simp: all_inv_def)
    then show "client_promises ?c p \<noteq> None \<or> p \<in> pending ?c \<or> (\<exists>u. p \<in> set ((h(t := ps)) u))"
      using \<open>h t = []\<close> by (metis (no_types) Client.select_convs(2) Client.surjective Client.update_convs(1) empty_iff empty_set fun_upd_apply)
  qed
  ultimately show ?thesis by blast
qed

text \<open>Satisfying the first promise a thread holds: it cannot throw.\<close>

lemma own_set:
  assumes own: "own_inv c h" and all: "all_inv c h" and h: "h t = p # ps"
  shows "\<exists>c'. promise_set p r c = (None, c') \<and> client_queue c' = client_queue c
    \<and> own_inv c' (h(t := ps)) \<and> all_inv c' (h(t := ps))"
proof -
  let ?c = "c\<lparr>client_promises := (client_promises c)(p := Some r)\<rparr>"
  have wf: "client_wf c" and "p \<in> set (h t)" using own h by (simp_all add: own_inv_def)
  then have p: "p < client_next c" "client_promises c p = None" "p \<notin> pending c"
    using own by (auto simp: own_inv_def loose_def)
  have others: "q \<noteq> p" if "u \<noteq> t" "q \<in> set (h u)" for u q
    using own that \<open>p \<in> set (h t)\<close> unfolding own_inv_def by metis
  have ps: "distinct ps" "p \<notin> set ps"
    using own h by (metis distinct.simps(2) own_inv_def)+
  have keep: "loose ?c q" if "loose c q" "q \<noteq> p" for q
    using that by (simp add: loose_def pending_def)
  have "client_wf ?c"
    using wf p by (force simp: client_wf_def pending_def)
  then have "own_inv ?c (h(t := ps))"
  proof (rule own_inv_upd[OF own _ ps(1)])
    have "loose c q" if "q \<in> set (h u)" for u q
      using own that by (simp add: own_inv_def)
    then show "loose ?c q" if "q \<in> set ps" for q
      using that keep ps(2) h by (metis list.set_intros(2))
    show "loose ?c q \<and> q \<notin> set ps" if "u \<noteq> t" "q \<in> set (h u)" for u q
      using that keep others own h unfolding own_inv_def by (metis list.set_intros(2))
  qed
  moreover have "all_inv ?c (h(t := ps))"
    unfolding all_inv_def
  proof (intro allI impI)
    fix q assume "q < client_next ?c"
    then have "client_promises c q \<noteq> None \<or> q \<in> pending c \<or> (\<exists>u. q \<in> set (h u))"
      using all by (simp add: all_inv_def)
    then have "q = p \<or> client_promises c q \<noteq> None \<or> q \<in> pending c \<or> (\<exists>u. q \<in> set (h u) \<and> (u = t \<longrightarrow> q \<in> set ps))"
      using h by (metis set_ConsD)
    then show "client_promises ?c q \<noteq> None \<or> q \<in> pending ?c \<or> (\<exists>u. q \<in> set ((h(t := ps)) u))"
      by (auto simp: pending_def)
  qed
  ultimately show ?thesis using p by (simp add: promise_set_def)
qed

section \<open>The invariant is kept\<close>

text \<open>Taking entries out of the queue, as every operation but \<open>request\<close> does.\<close>

lemma taken_eqs:
  assumes "client_wf c"
  shows "checkPromises_collect now wait c = (xs, c') \<Longrightarrow>
      c' = c\<lparr>client_queue := filter (\<lambda>it. \<not> timed_out now wait (snd it)) (client_queue c)\<rparr>
      \<and> xs = map snd (filter (\<lambda>it. timed_out now wait (snd it)) (client_queue c))"
    and "cancelAll_take c = (xs, c') \<Longrightarrow>
      c' = c\<lparr>client_queue := filter (\<lambda>it. \<not> True) (client_queue c)\<rparr> \<and> xs = map snd (filter (\<lambda>it. True) (client_queue c))"
    and "response_take i c = (Some x, c') \<Longrightarrow>
      c' = c\<lparr>client_queue := filter (\<lambda>it. \<not> fst it = i) (client_queue c)\<rparr>
      \<and> [x] = map snd (filter (\<lambda>it. fst it = i) (client_queue c))"
proof -
  have wf: "om_wf (client_queue c)" using assms by (rule client_wf_queue)
  show "checkPromises_collect now wait c = (xs, c') \<Longrightarrow>
      c' = c\<lparr>client_queue := filter (\<lambda>it. \<not> timed_out now wait (snd it)) (client_queue c)\<rparr>
      \<and> xs = map snd (filter (\<lambda>it. timed_out now wait (snd it)) (client_queue c))"
    by (auto simp: checkPromises_collect_def collect_loop_eq)
  show "cancelAll_take c = (xs, c') \<Longrightarrow>
      c' = c\<lparr>client_queue := filter (\<lambda>it. \<not> True) (client_queue c)\<rparr> \<and> xs = map snd (filter (\<lambda>it. True) (client_queue c))"
    by (auto simp: cancelAll_take_def)
  assume "response_take i c = (Some x, c')"
  then have "om_lookup (client_queue c) i = Some x" and c': "c' = c\<lparr>client_queue := om_delete i (client_queue c)\<rparr>"
    by (auto simp: response_take_def split: option.splits)
  then have "(i, x) \<in> set (client_queue c)" by (simp add: om_lookup_Some wf)
  then show "c' = c\<lparr>client_queue := filter (\<lambda>it. \<not> fst it = i) (client_queue c)\<rparr>
      \<and> [x] = map snd (filter (\<lambda>it. fst it = i) (client_queue c))"
    by (simp add: c' om_delete_def filter_key[OF wf])
qed

lemma erase_taken:
  assumes "client_wf c" and "request_erase i c = (b, c')" and "\<And>y. (i, y) \<in> set (client_queue c) \<Longrightarrow> y = x"
  shows "c' = c\<lparr>client_queue := filter (\<lambda>it. \<not> fst it = i) (client_queue c)\<rparr>"
    and "map snd (filter (\<lambda>it. fst it = i) (client_queue c)) = (if b then [x] else [])"
proof -
  have wf: "om_wf (client_queue c)" using assms(1) by (rule client_wf_queue)
  show "c' = c\<lparr>client_queue := filter (\<lambda>it. \<not> fst it = i) (client_queue c)\<rparr>"
    using assms(2) by (auto simp: request_erase_def om_delete_def)
  show "map snd (filter (\<lambda>it. fst it = i) (client_queue c)) = (if b then [x] else [])"
  proof (cases "om_lookup (client_queue c) i")
    case None
    then have "\<forall>it \<in> set (client_queue c). fst it \<noteq> i"
      by (metis om_lookup_Some option.distinct(1) prod.collapse wf)
    with None show ?thesis using assms(2) by (auto simp: request_erase_def filter_empty_conv)
  next
    case (Some y)
    then have "(i, y) \<in> set (client_queue c)" by (simp add: om_lookup_Some wf)
    with Some assms(2) assms(3)[OF this] show ?thesis by (auto simp: request_erase_def filter_key[OF wf])
  qed
qed

lemma held_fulfilling:
  "held (Fulfilling (map (\<lambda>x. (x, r)) (map snd q))) = map (caller_promise \<circ> snd) q"
  by simp

lemma ids_invD:
  assumes "ids_inv s"
  shows ids_counter: "sys_counter s = of_nat (sys_issued s)"
    and ids_key: "(k, x) \<in> set (client_queue (sys_client s)) \<Longrightarrow> unat k \<le> sys_issued s"
    and ids_flight: "flight (sys_pc s t) = Some i \<Longrightarrow> unat i \<le> sys_issued s"
    and ids_unique: "flight (sys_pc s t) = Some i \<Longrightarrow> flight (sys_pc s t') = Some i \<Longrightarrow> t = t'"
    and ids_issued: "sys_pc s t = Issued i \<Longrightarrow> (i, x) \<notin> set (client_queue (sys_client s))"
    and ids_entry: "flight_entry (sys_pc s t) = Some (i, x) \<Longrightarrow> (i, y) \<in> set (client_queue (sys_client s)) \<Longrightarrow> y = x"
proof -
  note parts = assms[unfolded ids_inv_def, THEN conjunct2]
  note keys = parts[THEN conjunct1] and rest = parts[THEN conjunct2]
  note uniq = rest[THEN conjunct2]
  note entries = uniq[THEN conjunct2]
  show "sys_counter s = of_nat (sys_issued s)" using assms by (simp add: ids_inv_def)
  show "(k, x) \<in> set (client_queue (sys_client s)) \<Longrightarrow> unat k \<le> sys_issued s"
    using keys by force
  show "flight (sys_pc s t) = Some i \<Longrightarrow> unat i \<le> sys_issued s" using rest[THEN conjunct1] by simp
  show "flight (sys_pc s t) = Some i \<Longrightarrow> flight (sys_pc s t') = Some i \<Longrightarrow> t = t'"
    using uniq[THEN conjunct1] by blast
  show "sys_pc s t = Issued i \<Longrightarrow> (i, x) \<notin> set (client_queue (sys_client s))"
    using entries[THEN conjunct1] by force
  show "flight_entry (sys_pc s t) = Some (i, x) \<Longrightarrow> (i, y) \<in> set (client_queue (sys_client s)) \<Longrightarrow> y = x"
    using entries[THEN conjunct2] by blast
qed

lemma ids_at:
  assumes "ids_inv s" and "sys_counter s' = sys_counter s" "sys_issued s' = sys_issued s"
    and "sys_pc s' = (sys_pc s)(t := p)"
    and "set (client_queue (sys_client s')) \<subseteq> set (client_queue (sys_client s))"
    and "flight p = None \<or> flight p = flight (sys_pc s t)"
    and "flight_entry p = None \<or> flight_entry p = flight_entry (sys_pc s t)"
    and "\<And>i. p \<noteq> Issued i"
  shows "ids_inv s'"
proof -
  have fl: "flight (sys_pc s u) = Some i" if "flight (sys_pc s' u) = Some i" for u i
    using that assms(4,6) by (auto split: if_splits)
  have fe: "flight_entry (sys_pc s u) = Some e" if "flight_entry (sys_pc s' u) = Some e" for u e
    using that assms(4,7) by (auto split: if_splits)
  have iss: "sys_pc s u = Issued i" if "sys_pc s' u = Issued i" for u i
    using that assms(4,8) by (auto split: if_splits)
  show ?thesis
    unfolding ids_inv_def assms(2,3)
  proof (intro conjI allI impI ballI)
    show "sys_counter s = of_nat (sys_issued s)" by (rule ids_counter[OF assms(1)])
    show "unat k \<le> sys_issued s" if "k \<in> fst ` set (client_queue (sys_client s'))" for k
      using that assms(5) by (auto intro: ids_key[OF assms(1)])
    show "unat i \<le> sys_issued s" if "flight (sys_pc s' u) = Some i" for u i
      by (rule ids_flight[OF assms(1) fl[OF that]])
    show "u = v" if "flight (sys_pc s' u) = Some i" "flight (sys_pc s' v) = Some i" for u v i
      by (rule ids_unique[OF assms(1) fl[OF that(1)] fl[OF that(2)]])
    show "i \<notin> fst ` set (client_queue (sys_client s'))" if "sys_pc s' u = Issued i" for u i
      using ids_issued[OF assms(1) iss[OF that]] assms(5) by auto
    show "y = x" if "flight_entry (sys_pc s' u) = Some (i, x)" "(i, y) \<in> set (client_queue (sys_client s'))" for u i x y
      using ids_entry[OF assms(1) fe[OF that(1)]] that(2) assms(5) by blast
  qed
qed

lemma orphan_at:
  assumes "orphan_inv s" and "sys_status s' = sys_status s" and "sys_pc s' = (sys_pc s)(t := p)"
    and "set (client_queue (sys_client s')) \<subseteq> set (client_queue (sys_client s))"
    and "\<And>k x. (k, x) \<in> set (client_queue (sys_client s')) \<Longrightarrow>
           sys_pc s t \<noteq> Cleaning \<and> sys_pc s t \<noteq> Sending k x \<and> (\<forall>e. sys_pc s t \<noteq> Erasing k x e)"
  shows "orphan_inv s'"
proof -
  have "sys_status s = Connected \<or> (\<exists>u. sys_pc s' u = Cleaning)
     \<or> (\<exists>u. sys_pc s' u = Sending k x) \<or> (\<exists>u e. sys_pc s' u = Erasing k x e)"
    if "(k, x) \<in> set (client_queue (sys_client s'))" for k x
  proof -
    have "sys_status s = Connected \<or> (\<exists>u. sys_pc s u = Cleaning)
     \<or> (\<exists>u. sys_pc s u = Sending k x) \<or> (\<exists>u e. sys_pc s u = Erasing k x e)"
      using assms(1,4) that by (auto simp: orphan_inv_def)
    then show ?thesis
      using assms(5)[OF that] by (metis assms(3) fun_upd_other)
  qed
  then show ?thesis using assms(2) by (auto simp: orphan_inv_def)
qed

text \<open>A thread that moves between sections that own nothing.\<close>

lemma csys_inv_move:
  assumes inv: "csys_inv s" and s': "s' = at_pc s t p"
    and "held p = held (sys_pc s t)" and "p \<noteq> Terminated"
    and "flight p = None \<or> flight p = flight (sys_pc s t)"
    and "flight_entry p = None \<or> flight_entry p = flight_entry (sys_pc s t)"
    and "\<And>i. p \<noteq> Issued i" and "orphan_inv s'"
  shows "csys_inv s'"
proof -
  have "(\<lambda>u. held (sys_pc s' u)) = (\<lambda>u. held (sys_pc s u))"
    using assms(3) by (auto simp: s')
  moreover have "ids_inv s'"
    using inv assms by (intro ids_at[of s s' t p]) (auto simp: csys_inv_def)
  ultimately show ?thesis
    using inv assms(4,8) by (simp add: csys_inv_def s')
qed

text \<open>A thread that held nothing takes part of the queue and is about to satisfy it.\<close>

lemma csys_inv_take:
  assumes inv: "csys_inv s" and held: "held (sys_pc s t) = []"
    and c: "c = (sys_client s)\<lparr>client_queue := filter (\<lambda>it. \<not> P it) (client_queue (sys_client s))\<rparr>"
    and s': "s' = at_pc (s\<lparr>sys_client := c\<rparr>) t p"
    and ps: "held p = map (caller_promise \<circ> snd) (filter P (client_queue (sys_client s)))"
    and p: "p = Idle \<or> p = Fulfilling ys" and "orphan_inv s'"
  shows "csys_inv s'"
proof -
  have "own_inv c (\<lambda>u. held (sys_pc s' u)) \<and> all_inv c (\<lambda>u. held (sys_pc s' u))"
    using own_take[of "sys_client s" "\<lambda>u. held (sys_pc s u)" t "held p" P] inv held ps
    unfolding s' held_at by (simp add: csys_inv_def c)
  moreover have "ids_inv s'"
    using inv p by (intro ids_at[of s s' t p]) (auto simp: csys_inv_def s' c)
  ultimately show ?thesis
    using inv p assms(7) by (auto simp: csys_inv_def s')
qed

text \<open>Queueing an entry: its id was handed out to this thread and to no other.\<close>

lemma ids_inv_enqueue:
  assumes ids: "ids_inv s" and t: "sys_pc s t = Issued i" and q: "set (client_queue c) = insert (i, x) (set (client_queue (sys_client s)))"
  shows "ids_inv (at_pc (s\<lparr>sys_client := c\<rparr>) t (Sending i x))" (is "ids_inv ?s")
proof -
  have i: "i \<notin> fst ` set (client_queue (sys_client s))"
    using ids_issued[OF ids t] by auto
  have ft: "flight (sys_pc s t) = Some i" using t by simp
  have fl: "flight (sys_pc s u) = Some j" if "flight (sys_pc ?s u) = Some j" for u j
    using that ft by (auto split: if_splits)
  have other: "j \<noteq> i" if "u \<noteq> t" "flight (sys_pc s u) = Some j" for u j
    using ids_unique[OF ids ft] that by blast
  have entry: "flight p = Some j" if "flight_entry p = Some (j, y)" for p :: "'a pc" and j y
    using that by (cases p) auto
  show ?thesis
    unfolding ids_inv_def
  proof (intro conjI allI impI ballI)
    show "sys_counter ?s = of_nat (sys_issued ?s)" using ids_counter[OF ids] by simp
    show "unat k \<le> sys_issued ?s" if "k \<in> fst ` set (client_queue (sys_client ?s))" for k
      using that ids_key[OF ids] ids_flight[OF ids ft] by (auto simp: q)
    show "unat j \<le> sys_issued ?s" if "flight (sys_pc ?s u) = Some j" for u j
      using ids_flight[OF ids fl[OF that]] by simp
    show "u = v" if "flight (sys_pc ?s u) = Some j" "flight (sys_pc ?s v) = Some j" for u v j
      by (rule ids_unique[OF ids fl[OF that(1)] fl[OF that(2)]])
    show "j \<notin> fst ` set (client_queue (sys_client ?s))" if "sys_pc ?s u = Issued j" for u j
    proof -
      have "u \<noteq> t" "sys_pc s u = Issued j" using that by (auto split: if_splits)
      then show ?thesis using ids_issued[OF ids] other[of u j] by (auto simp: q)
    qed
    show "z = y" if "flight_entry (sys_pc ?s u) = Some (j, y)" "(j, z) \<in> set (client_queue (sys_client ?s))" for u j y z
    proof (cases "u = t")
      case True
      with that i show ?thesis by (force simp: q)
    next
      case False
      with that(1) have fe: "flight_entry (sys_pc s u) = Some (j, y)" by simp
      with other[OF False entry] that(2) ids_entry[OF ids fe] show ?thesis by (auto simp: q)
    qed
  qed
qed

lemma orphan_inv_enqueue:
  assumes orphan: "orphan_inv s" and t: "sys_pc s t = Issued i"
    and q: "set (client_queue c) = insert (i, x) (set (client_queue (sys_client s)))"
  shows "orphan_inv (at_pc (s\<lparr>sys_client := c\<rparr>) t (Sending i x))" (is "orphan_inv ?s")
  unfolding orphan_inv_def
proof
  fix kx assume "kx \<in> set (client_queue (sys_client ?s))"
  then consider "kx = (i, x)" | "kx \<in> set (client_queue (sys_client s))" by (auto simp: q)
  then show "case kx of (k, y) \<Rightarrow> sys_status ?s = Connected \<or> (\<exists>u. sys_pc ?s u = Cleaning)
      \<or> (\<exists>u. sys_pc ?s u = Sending k y) \<or> (\<exists>u e. sys_pc ?s u = Erasing k y e)"
  proof cases
    case 2
    then have "case kx of (k, y) \<Rightarrow> sys_status s = Connected \<or> (\<exists>u. sys_pc s u = Cleaning)
      \<or> (\<exists>u. sys_pc s u = Sending k y) \<or> (\<exists>u e. sys_pc s u = Erasing k y e)"
      using orphan unfolding orphan_inv_def by blast
    moreover have "sys_pc ?s u = sys_pc s u" if "u \<noteq> t" for u using that by simp
    ultimately show ?thesis using t
      by (cases kx) (simp, metis pc.distinct(11) pc.distinct(19) pc.distinct(15) pc.distinct(23))
  qed auto
qed

lemma csys_inv_enqueue:
  assumes inv: "csys_inv s" and t: "sys_pc s t = Issued i"
    and e: "request_enqueue i m now (sys_client s) = (x, c)"
  shows "csys_inv (at_pc (s\<lparr>sys_client := c\<rparr>) t (Sending i x))" (is "csys_inv ?s")
proof -
  have own: "own_inv (sys_client s) (\<lambda>u. held (sys_pc s u))" "all_inv (sys_client s) (\<lambda>u. held (sys_pc s u))"
    and ids: "ids_inv s" and orphan: "orphan_inv s"
    using inv by (simp_all add: csys_inv_def)
  have i: "i \<notin> fst ` set (client_queue (sys_client s))"
    using ids_issued[OF ids t] by auto
  have wf: "client_wf (sys_client s)" using own by (simp add: own_inv_def)
  note q = enqueue_pending(1)[OF e i wf]
  have held: "(\<lambda>u. held (sys_pc ?s u)) = (\<lambda>u. held (sys_pc s u))"
    using t by auto
  show ?thesis
    using own_enqueue[OF own e i] inv ids_inv_enqueue[OF ids t q] orphan_inv_enqueue[OF orphan t q]
    unfolding csys_inv_def held by simp
qed

text \<open>Handing out an id: until the counter wraps it is above every id in use.\<close>

lemma csys_inv_issue:
  assumes inv: "csys_inv s" and t: "sys_pc s t = Idle" and i: "i = sys_counter s + 1"
    and bound: "Suc (sys_issued s) < 2 ^ 32"
    and s': "s' = at_pc (s\<lparr>sys_counter := i, sys_issued := Suc (sys_issued s)\<rparr>) t (Issued i)"
  shows "csys_inv s'"
proof -
  have ids: "ids_inv s" using inv by (simp add: csys_inv_def)
  have i': "i = of_nat (Suc (sys_issued s))" using ids_counter[OF ids] i by (simp add: add.commute)
  then have ui: "unat i = Suc (sys_issued s)" using bound by (simp only: unat_of_nat) simp
  have fl: "u = t \<and> j = i \<or> u \<noteq> t \<and> j \<noteq> i \<and> flight (sys_pc s u) = Some j \<and> unat j \<le> sys_issued s"
    if "flight (sys_pc s' u) = Some j" for u j
    using that ids_flight[OF ids, of u j] ui by (auto simp: s' split: if_splits)
  have "ids_inv s'"
    unfolding ids_inv_def
  proof (intro conjI allI impI ballI)
    show "sys_counter s' = of_nat (sys_issued s')" using i' by (simp add: s')
    show "unat k \<le> sys_issued s'" if "k \<in> fst ` set (client_queue (sys_client s'))" for k
      using that ids_key[OF ids] by (force simp: s' le_Suc_eq)
    show "unat j \<le> sys_issued s'" if "flight (sys_pc s' u) = Some j" for u j
      using fl[OF that] ui by (auto simp: s')
    show "u = v" if "flight (sys_pc s' u) = Some j" "flight (sys_pc s' v) = Some j" for u v j
      using fl[OF that(1)] fl[OF that(2)] ids_unique[OF ids] by blast
    show "j \<notin> fst ` set (client_queue (sys_client s'))" if "sys_pc s' u = Issued j" for u j
      using that ids_issued[OF ids, of u j] ids_key[OF ids] ui by (fastforce simp: s' split: if_splits)
    show "z = y" if "flight_entry (sys_pc s' u) = Some (j, y)" "(j, z) \<in> set (client_queue (sys_client s'))" for u j y z
      using that ids_entry[OF ids, of u j y z] by (auto simp: s' split: if_splits)
  qed
  moreover have "(\<lambda>u. held (sys_pc s' u)) = (\<lambda>u. held (sys_pc s u))" using t by (auto simp: s')
  moreover have "orphan_inv s'"
    using inv t by (intro orphan_at[of s s' t "Issued i"]) (auto simp: csys_inv_def s')
  moreover have "sys_pc s' u \<noteq> Terminated" for u using inv by (simp add: csys_inv_def s')
  ultimately show ?thesis using inv by (simp add: csys_inv_def) (simp add: s')
qed

text \<open>Satisfying a promise in hand: it never throws, and ownership is kept.\<close>

lemma csys_inv_fulfil:
  assumes inv: "csys_inv s" and t: "sys_pc s t = Fulfilling ((x, r) # xs)"
  shows "\<exists>c. promise_set (caller_promise x) r (sys_client s) = (None, c)
    \<and> csys_inv (at_pc (s\<lparr>sys_client := c\<rparr>) t (Fulfilling xs))"
proof -
  obtain c where c: "promise_set (caller_promise x) r (sys_client s) = (None, c)"
      "client_queue c = client_queue (sys_client s)"
      "own_inv c ((\<lambda>u. held (sys_pc s u))(t := held (Fulfilling xs)))"
      "all_inv c ((\<lambda>u. held (sys_pc s u))(t := held (Fulfilling xs)))"
    using own_set[of "sys_client s" "\<lambda>u. held (sys_pc s u)" t "caller_promise x" "held (Fulfilling xs)" r] inv t
    by (auto simp: csys_inv_def)
  let ?s = "at_pc (s\<lparr>sys_client := c\<rparr>) t (Fulfilling xs)"
  have "ids_inv ?s" "orphan_inv ?s"
    using inv t c(2) ids_at[of s ?s t "Fulfilling xs"] orphan_at[of s ?s t "Fulfilling xs"]
    by (auto simp: csys_inv_def)
  moreover have "own_inv (sys_client ?s) (\<lambda>u. held (sys_pc ?s u)) \<and> all_inv (sys_client ?s) (\<lambda>u. held (sys_pc ?s u))"
    using c(3,4) unfolding held_at by simp
  ultimately have "csys_inv ?s" using inv unfolding csys_inv_def by simp
  with c(1) show ?thesis by blast
qed

lemma csys_inv_status:
  assumes "csys_inv s" and "orphan_inv (s\<lparr>sys_status := st\<rparr>)"
  shows "csys_inv (s\<lparr>sys_status := st\<rparr>)"
  using assms by (simp add: csys_inv_def ids_inv_def)

lemma csys_inv_erase:
  assumes inv: "csys_inv s" and t: "sys_pc s t = Erasing i x e"
    and er: "request_erase i (sys_client s) = (b, c)"
    and p: "p = (if b then Fulfilling [(x, Result_error e)] else Idle)"
  shows "csys_inv (at_pc (s\<lparr>sys_client := c\<rparr>) t p)"
proof -
  have ids: "ids_inv s" and wf: "client_wf (sys_client s)" and orphan: "orphan_inv s"
    using inv by (simp_all add: csys_inv_def own_inv_def)
  have "flight_entry (sys_pc s t) = Some (i, x)" using t by simp
  note er' = erase_taken[OF wf er ids_entry[OF ids this]]
  show ?thesis
  proof (rule csys_inv_take[OF inv _ er'(1) refl])
    have "held p = map caller_promise (if b then [x] else [])" by (simp add: p)
    also have "\<dots> = map (caller_promise \<circ> snd) (filter (\<lambda>it. fst it = i) (client_queue (sys_client s)))"
      using arg_cong[OF er'(2), of "map caller_promise"] by simp
    finally show "held p = map (caller_promise \<circ> snd) (filter (\<lambda>it. fst it = i) (client_queue (sys_client s)))" .
    show "orphan_inv (at_pc (s\<lparr>sys_client := c\<rparr>) t p)"
      by (rule orphan_at[OF orphan, of _ t p]) (auto simp: t er'(1))
    show "p = Idle \<or> p = Fulfilling [(x, Result_error e)]" by (simp add: p)
  qed (simp add: t)
qed

lemma orphan_rejected:
  assumes "orphan_inv s" and t: "sys_pc s t = Sending i x"
  shows "orphan_inv (at_pc s t (Erasing i x e))" (is "orphan_inv ?s")
  unfolding orphan_inv_def
proof (clarify, goal_cases)
  case (1 k y)
  then have "sys_status s = Connected \<or> (\<exists>u. sys_pc s u = Cleaning)
     \<or> (\<exists>u. sys_pc s u = Sending k y) \<or> (\<exists>u e. sys_pc s u = Erasing k y e)"
    using assms(1) by (auto simp: orphan_inv_def)
  moreover have "sys_pc ?s u = Cleaning" if "sys_pc s u = Cleaning" for u using that t by auto
  moreover have "sys_pc ?s u = Sending k y \<or> sys_pc ?s u = Erasing k y e" if "sys_pc s u = Sending k y" for u
    using that t by auto
  moreover have "sys_pc ?s u = Erasing k y e'" if "sys_pc s u = Erasing k y e'" for u e' using that t by auto
  ultimately have "sys_status ?s = Connected \<or> (\<exists>u. sys_pc ?s u = Cleaning)
     \<or> (\<exists>u. sys_pc ?s u = Sending k y) \<or> (\<exists>u e. sys_pc ?s u = Erasing k y e)"
    unfolding sys_at(2) by metis
  with 1 show ?case by blast
qed

lemma csys_inv_step:
  assumes "cstep s s'" and inv: "csys_inv s" and "sys_issued s' < 2 ^ 32"
  shows "csys_inv s'"
proof -
  have wf: "client_wf (sys_client s)" and orphan: "orphan_inv s"
    using inv by (simp_all add: csys_inv_def own_inv_def)
  show ?thesis
    using assms(1)
  proof cases
    case (issue t i)
    then show ?thesis using csys_inv_issue[OF inv, of t i s'] assms(3) by simp
  next
    case (enqueue t i m now x c)
    then show ?thesis using inv by (auto intro: csys_inv_enqueue)
  next
    case (send_connected t i x)
    have "orphan_inv s'" using send_connected by (auto simp: orphan_inv_def)
    with send_connected show ?thesis by (intro csys_inv_move[OF inv send_connected(1)]) auto
  next
    case (send_rejected t i x)
    have "orphan_inv s'" using orphan_rejected[OF orphan send_rejected(2)] send_rejected(1) by simp
    with send_rejected show ?thesis by (intro csys_inv_move[OF inv send_rejected(1)]) auto
  next
    case (posted t i x)
    have "orphan_inv s'" using posted orphan by (intro orphan_at[of s s' t Idle]) auto
    with posted show ?thesis by (intro csys_inv_move[OF inv posted(1)]) auto
  next
    case (post_failed t i x e)
    have "orphan_inv s'" using post_failed orphan by (intro orphan_at[of s s' t "Erasing i x e"]) auto
    with post_failed show ?thesis by (intro csys_inv_move[OF inv post_failed(1)]) auto
  next
    case (erase_owned t i x e c)
    then show ?thesis using csys_inv_erase[OF inv, of t i x e True c] by simp
  next
    case (erase_lost t i x e c)
    then show ?thesis using csys_inv_erase[OF inv, of t i x e False c] by simp
  next
    case (watchdog t now wait xs c)
    note tk = taken_eqs(1)[OF wf watchdog(3)]
    have "orphan_inv s'" using watchdog orphan tk by (intro orphan_at[of s s' t]) auto
    with watchdog tk show ?thesis
      by (intro csys_inv_take[OF inv _ conjunct1[OF tk] watchdog(1)]) auto
  next
    case (reply t i x c r)
    note tk = taken_eqs(3)[OF wf reply(3)]
    have "orphan_inv s'" using reply orphan tk by (intro orphan_at[of s s' t]) auto
    moreover have "held (Fulfilling [(x, r)]) = map caller_promise [x]" by simp
    then have "held (Fulfilling [(x, r)]) = map (caller_promise \<circ> snd) (filter (\<lambda>it. fst it = i) (client_queue (sys_client s)))"
      unfolding conjunct2[OF tk] by (simp only: map_map)
    ultimately show ?thesis
      using reply by (intro csys_inv_take[OF inv _ conjunct1[OF tk] reply(1)]) auto
  next
    case (cancel t xs c)
    note tk = taken_eqs(2)[OF wf cancel(3)]
    have "orphan_inv s'" using cancel tk by (auto simp: orphan_inv_def)
    with cancel tk show ?thesis
      by (intro csys_inv_take[OF inv _ conjunct1[OF tk] cancel(1)]) auto
  next
    case (fulfil t x r xs c)
    then show ?thesis using csys_inv_fulfil[OF inv fulfil(2)] by auto
  next
    case (fulfil_throws t x r xs e c)
    then show ?thesis using csys_inv_fulfil[OF inv fulfil_throws(2)] by auto
  next
    case (fulfilled t)
    have "orphan_inv s'" using fulfilled orphan by (intro orphan_at[of s s' t Idle]) auto
    with fulfilled show ?thesis by (intro csys_inv_move[OF inv fulfilled(1)]) auto
  next
    case (connecting st)
    then show ?thesis using orphan by (auto intro!: csys_inv_status[OF inv] simp: orphan_inv_def)
  next
    case opened
    then show ?thesis by (auto intro!: csys_inv_status[OF inv] simp: orphan_inv_def)
  next
    case (dropped t st)
    have "orphan_inv (at_pc s t Cleaning)" by (auto simp: orphan_inv_def)
    with dropped have "csys_inv (at_pc s t Cleaning)" by (intro csys_inv_move[OF inv refl]) auto
    moreover have "s' = (at_pc s t Cleaning)\<lparr>sys_status := st\<rparr>" using dropped by (simp add: at_pc_def)
    moreover have "orphan_inv s'" using dropped by (auto simp: orphan_inv_def)
    ultimately show ?thesis by (simp add: csys_inv_status)
  qed
qed

lemma csys_inv_init: "csys_inv csys_init"
proof -
  have "own_inv (Client_init :: 'a Client) (\<lambda>_. [])" "all_inv (Client_init :: 'a Client) (\<lambda>_. [])"
    using client_wf_init by (simp_all add: own_inv_def all_inv_def, simp add: Client_init_def)
  then show ?thesis
    by (simp add: csys_inv_def csys_init_def ids_inv_def orphan_inv_def) (simp add: Client_init_def)
qed

lemma cstep_issued: "cstep s s' \<Longrightarrow> sys_issued s \<le> sys_issued s'"
  by (induction rule: cstep.induct) simp_all

lemma creachable_inv: "creachable s \<Longrightarrow> sys_issued s < 2 ^ 32 \<Longrightarrow> csys_inv s"
proof (induction rule: creachable.induct)
  case cr_start
  show ?case by (rule csys_inv_init)
next
  case (cr_step s s')
  then show ?case using cstep_issued[OF cr_step(2)] csys_inv_step[OF cr_step(2)] by simp
qed

text \<open>A step gives a value only to a promise that has none.\<close>

lemma cstep_keeps_value:
  assumes "cstep s s'" and "client_promises (sys_client s) p = Some r"
  shows "client_promises (sys_client s') p = Some r"
  using assms
  by (cases rule: cstep.cases)
    (auto simp: request_enqueue_def request_erase_def checkPromises_collect_def cancelAll_take_def
      response_take_def promise_set_def Let_def split: prod.splits option.splits if_splits)

lemma csteps_keep_value:
  "cstep\<^sup>*\<^sup>* s s' \<Longrightarrow> client_promises (sys_client s) p = Some r \<Longrightarrow> client_promises (sys_client s') p = Some r"
  by (induction rule: rtranclp_induct) (auto intro: cstep_keeps_value)

section \<open>Properties\<close>

text \<open>One request made while the transport is not started, from its id to its answer.\<close>

definition ex_refused :: "jval csys" where
  "ex_refused = \<lparr>sys_client = \<lparr>client_queue = [],
       client_promises = (\<lambda>_. None)(0 \<mapsto> Result_error Err_NotConnected), client_next = 1\<rparr>,
     sys_status = NotStarted, sys_counter = 1, sys_issued = 1, sys_pc = (\<lambda>_. Idle)\<rparr>"

text \<open>The states on the way: thread 0 finds the transport down, then owns its entry.\<close>

definition ex_at :: "jval Client \<Rightarrow> jval pc \<Rightarrow> jval csys" where
  "ex_at c p = \<lparr>sys_client = c, sys_status = NotStarted, sys_counter = 1, sys_issued = 1, sys_pc = (\<lambda>_. Idle)(0 := p)\<rparr>"

definition ex_erasing :: "jval csys" where
  "ex_erasing = ex_at (Client_init\<lparr>client_queue := [(1, ex_caller 1 0 0)], client_next := 1\<rparr>)
     (Erasing 1 (ex_caller 1 0 0) Err_NotConnected)"

definition ex_owned :: "jval csys" where
  "ex_owned = ex_at (Client_init\<lparr>client_next := 1\<rparr>) (Fulfilling [(ex_caller 1 0 0, Result_error Err_NotConnected)])"

lemma ex_erasing_run: "cstep\<^sup>*\<^sup>* csys_init ex_erasing"
proof -
  let ?x = "ex_caller 1 0 0"
  let ?q = "Client_init\<lparr>client_queue := [(1, ?x)], client_next := 1\<rparr>"
  have "cstep\<^sup>*\<^sup>* csys_init csys_init" by simp
  also have "cstep \<dots> (ex_at Client_init (Issued 1))"
    using issue[of csys_init 0 1] by (simp add: csys_init_def at_pc_def ex_at_def)
  also (rtranclp.rtrancl_into_rtrancl) have "cstep \<dots> (ex_at ?q (Sending 1 ?x))"
    using enqueue[of "ex_at Client_init (Issued 1)" 0 1 "''device.id''" 0 ?x ?q]
    by (simp add: at_pc_def request_enqueue_def Client_init_def ex_caller_def Let_def ex_at_def)
  also (rtranclp.rtrancl_into_rtrancl) have "cstep \<dots> ex_erasing"
    using send_rejected[of "ex_at ?q (Sending 1 ?x)" 0 1 ?x] by (simp add: at_pc_def ex_at_def ex_erasing_def)
  finally (rtranclp.rtrancl_into_rtrancl) show ?thesis .
qed

lemma ex_owned_step: "cstep ex_erasing ex_owned"
  using erase_owned[of ex_erasing 0 1 "ex_caller 1 0 0" Err_NotConnected "sys_client ex_owned"]
  by (simp add: at_pc_def request_erase_def om_lookup_def om_delete_def Client_init_def ex_erasing_def ex_owned_def ex_at_def)

lemma ex_refused_run: "cstep\<^sup>*\<^sup>* csys_init ex_refused"
proof -
  let ?c = "sys_client ex_refused"
  have "cstep\<^sup>*\<^sup>* csys_init ex_owned" using ex_erasing_run ex_owned_step by (rule rtranclp.rtrancl_into_rtrancl)
  also have "cstep \<dots> (ex_at ?c (Fulfilling []))"
    using fulfil[of ex_owned 0 "ex_caller 1 0 0" "Result_error Err_NotConnected" "[]" ?c]
    by (simp add: at_pc_def promise_set_def ex_caller_def Client_init_def ex_refused_def ex_owned_def ex_at_def)
  also (rtranclp.rtrancl_into_rtrancl) have "cstep \<dots> ex_refused"
    using fulfilled[of "ex_at ?c (Fulfilling [])" 0] by (simp add: at_pc_def ex_refused_def ex_at_def fun_upd_idem)
  finally (rtranclp.rtrancl_into_rtrancl) show ?thesis .
qed

lemma csteps_reachable: "cstep\<^sup>*\<^sup>* s s' \<Longrightarrow> creachable s \<Longrightarrow> creachable s'"
  by (induction rule: rtranclp_induct) (auto intro: cr_step)

lemma ex_refused_reachable: "creachable ex_refused"
  by (rule csteps_reachable[OF ex_refused_run cr_start])

text \<open>
  C2. However the threads interleave, as long as fewer than 2^32 ids were handed out, no
  \<open>set_value\<close> ever finds its promise satisfied (which would end the process), no two threads
  hold the same caller, and an answer, once given, never changes.
\<close>

theorem answered_at_most_once:
  assumes "creachable s" and "sys_issued s < 2 ^ 32"
  shows "sys_pc s t \<noteq> Terminated
    \<and> (p \<in> set (held (sys_pc s t)) \<and> p \<in> set (held (sys_pc s t')) \<longrightarrow> t = t')
    \<and> (client_promises (sys_client s) p = Some r \<and> cstep\<^sup>*\<^sup>* s s' \<longrightarrow> client_promises (sys_client s') p = Some r)"
  using creachable_inv[OF assms] csteps_keep_value[of s s' p r]
  unfolding csys_inv_def own_inv_def by blast

theorem answered_at_most_once_witness:
  "sys_pc ex_refused 0 \<noteq> Terminated \<and> client_promises (sys_client ex_refused) 0 = Some (Result_error Err_NotConnected)"
  using answered_at_most_once [OF ex_refused_reachable, of 0] by (simp add: ex_refused_def)

text \<open>
  C1. No request is lost: in every reachable state each allocated promise has its answer, or
  sits in the queue, or is in the hands of a thread that is about to answer it; and when the
  connection is down and no thread is inside an operation, every promise has its answer and the
  queue is empty.
\<close>

theorem no_request_lost:
  assumes "creachable s" and "sys_issued s < 2 ^ 32"
  shows "(\<forall>p < client_next (sys_client s). client_promises (sys_client s) p \<noteq> None
        \<or> p \<in> pending (sys_client s) \<or> (\<exists>t. p \<in> set (held (sys_pc s t))))
    \<and> (sys_status s \<noteq> Connected \<and> (\<forall>t. sys_pc s t = Idle) \<longrightarrow>
        client_queue (sys_client s) = [] \<and> (\<forall>p < client_next (sys_client s). client_promises (sys_client s) p \<noteq> None))"
proof -
  have all: "\<forall>p < client_next (sys_client s). client_promises (sys_client s) p \<noteq> None
        \<or> p \<in> pending (sys_client s) \<or> (\<exists>t. p \<in> set (held (sys_pc s t)))"
    and orphan: "orphan_inv s"
    using creachable_inv[OF assms] by (simp_all add: csys_inv_def all_inv_def)
  have "client_queue (sys_client s) = []" if "sys_status s \<noteq> Connected" "\<forall>t. sys_pc s t = Idle"
    using orphan that by (cases "client_queue (sys_client s)") (auto simp: orphan_inv_def)
  with all show ?thesis by (auto simp: pending_def)
qed

theorem no_request_lost_witness:
  "client_next (sys_client ex_refused) = 1 \<and> client_promises (sys_client ex_refused) 0 \<noteq> None"
  using no_request_lost [OF ex_refused_reachable] by (simp add: ex_refused_def)

end
