(* ===== verification/Fb_Client_Spec.thy ===== *)
theory Fb_Client_Spec
  imports Fb_Client_Threads
begin

text \<open>
  What the request table promises, stated without its representation. \<open>rpc_table\<close> is a table of
  requests by id with the answers given so far, and one function per operation; the sequential
  operations of \<open>Fb_Client\<close> refine it through the abstraction \<open>table_of\<close>. \<open>rpc\<close> is the table of many
  threads: the waiting requests, the verdicts reached and not yet delivered, the answers. Its steps
  \<open>rpc_step\<close> ask, settle and answer; each critical section of \<open>Fb_Client_Threads\<close> is one of them, or
  invisible.
\<close>

section \<open>The table as a specification\<close>

record 'j rpc_table =
  tb_pending :: "u32 \<rightharpoonup> promise \<times> timestamp"
  tb_answers :: "promise \<rightharpoonup> 'j Result"
  tb_next :: promise

text \<open>Give every pending request that satisfies \<open>P\<close> the answer \<open>r\<close> and take it out.\<close>

definition tb_settle :: "(u32 \<Rightarrow> timestamp \<Rightarrow> bool) \<Rightarrow> 'j Result \<Rightarrow> 'j rpc_table \<Rightarrow> 'j rpc_table" where
  "tb_settle P r T = T\<lparr>
     tb_pending := (\<lambda>i. case tb_pending T i of Some (p, ts) \<Rightarrow> if P i ts then None else Some (p, ts) | None \<Rightarrow> None),
     tb_answers := (\<lambda>p. if \<exists>i ts. tb_pending T i = Some (p, ts) \<and> P i ts then Some r else tb_answers T p)\<rparr>"

text \<open>A new request, pending or refused at once.\<close>

definition tb_ask :: "u32 \<Rightarrow> timestamp \<Rightarrow> 'j rpc_table \<Rightarrow> 'j rpc_table" where
  "tb_ask i now T = T\<lparr>tb_pending := (tb_pending T)(i \<mapsto> (tb_next T, now)), tb_next := Suc (tb_next T)\<rparr>"

definition tb_refuse :: "'j Result \<Rightarrow> 'j rpc_table \<Rightarrow> 'j rpc_table" where
  "tb_refuse r T = T\<lparr>tb_answers := (tb_answers T)(tb_next T \<mapsto> r), tb_next := Suc (tb_next T)\<rparr>"

text \<open>What the concrete table stands for.\<close>

definition table_of :: "'j Client \<Rightarrow> 'j rpc_table" where
  "table_of c = \<lparr>tb_pending = (\<lambda>i. map_option (\<lambda>x. (caller_promise x, caller_timestamp x)) (om_lookup (client_queue c) i)),
     tb_answers = client_promises c, tb_next = client_next c\<rparr>"

lemma lookup_filter:
  assumes "om_wf q"
  shows "om_lookup (filter P q) i = (case om_lookup q i of Some x \<Rightarrow> if P (i, x) then Some x else None | None \<Rightarrow> None)"
proof (cases "om_lookup q i")
  case None
  then have "i \<notin> fst ` set (filter P q)" by (auto simp: om_lookup_def map_of_eq_None_iff)
  with None show ?thesis by (simp add: om_lookup_notin)
next
  case (Some x)
  then have x: "(i, x) \<in> set q" using assms by (simp add: om_lookup_Some)
  show ?thesis
  proof (cases "P (i, x)")
    case True
    with x have "om_lookup (filter P q) i = Some x" by (simp add: om_lookup_Some om_wf_filter assms)
    with Some True show ?thesis by simp
  next
    case False
    have "(i, y) \<notin> set (filter P q)" for y
      using False Some assms by (auto simp: om_lookup_Some[OF assms, symmetric])
    then have "om_lookup (filter P q) i = None" by (intro om_lookup_notin) auto
    with Some False show ?thesis by simp
  qed
qed

text \<open>Taking the entries that satisfy \<open>P\<close> and answering them is \<open>tb_settle\<close>.\<close>

lemma table_settle:
  assumes wf: "client_wf c" and P: "\<And>i x. (i, x) \<in> set (client_queue c) \<Longrightarrow> P (i, x) \<longleftrightarrow> Q i (caller_timestamp x)"
  shows "table_of (c\<lparr>client_queue := filter (\<lambda>it. \<not> P it) (client_queue c),
      client_promises := (\<lambda>p. if p \<in> (caller_promise \<circ> snd) ` set (filter P (client_queue c)) then Some r else client_promises c p)\<rparr>)
    = tb_settle Q r (table_of c)"
proof -
  have q: "om_wf (client_queue c)" using wf by (rule client_wf_queue)
  have p: "p \<in> (caller_promise \<circ> snd) ` set (filter P (client_queue c))
      \<longleftrightarrow> (\<exists>i ts. tb_pending (table_of c) i = Some (p, ts) \<and> Q i ts)" (is "?l \<longleftrightarrow> ?r") for p
  proof
    assume ?l
    then obtain i x where "(i, x) \<in> set (client_queue c)" "P (i, x)" "p = caller_promise x" by auto
    with P q show ?r by (auto simp: table_of_def om_lookup_Some)
  next
    assume ?r
    then obtain i x where "(i, x) \<in> set (client_queue c)" "p = caller_promise x" "Q i (caller_timestamp x)"
      using q by (auto simp: table_of_def om_lookup_Some)
    with P show ?l by force
  qed
  have "om_lookup (filter (\<lambda>it. \<not> P it) (client_queue c)) i
      = (case om_lookup (client_queue c) i of Some x \<Rightarrow> if Q i (caller_timestamp x) then None else Some x | None \<Rightarrow> None)" for i
    using P[OF om_lookup_Some[OF q, THEN iffD1]] by (simp add: lookup_filter[OF q] split: option.split)
  then show ?thesis
    unfolding p by (auto simp: table_of_def tb_settle_def fun_eq_iff split: option.splits)
qed

lemma table_checkPromises:
  assumes "client_wf c"
  shows "table_of (snd (Client_checkPromises now wait c))
    = tb_settle (\<lambda>_ ts. duration_ms (now - ts) > uint wait) (Result_error Err_Timedout) (table_of c)"
  unfolding checkPromises_eq[OF assms] snd_conv
  by (rule table_settle[OF assms]) (simp add: timed_out_def)

lemma table_cancelAll:
  assumes "client_wf c"
  shows "table_of (snd (Client_cancelAll c)) = tb_settle (\<lambda>_ _. True) (Result_error Err_NotConnected) (table_of c)"
  using table_settle[OF assms, of "\<lambda>_. True" "\<lambda>_ _. True"]
  by (simp add: cancelAll_eq[OF assms] pending_def)

lemma table_response:
  assumes wf: "client_wf c" and i: "response_id J message = Inr i" and r: "response_result J message = Inr r"
  shows "table_of (snd (Client_response J message c)) = tb_settle (\<lambda>k _. k = i) r (table_of c)"
proof (cases "om_lookup (client_queue c) i")
  case None
  then have "tb_settle (\<lambda>k _. k = i) r (table_of c) = table_of c"
    by (auto simp: tb_settle_def table_of_def fun_eq_iff split: option.splits)
  with None show ?thesis by (simp add: response_nobody[OF i])
next
  case (Some x)
  then have "(i, x) \<in> set (client_queue c)" using wf by (simp add: om_lookup_Some client_wf_queue)
  then have "filter (\<lambda>it. fst it = i) (client_queue c) = [(i, x)]"
    by (rule filter_key[OF client_wf_queue[OF wf]])
  then have "(\<lambda>p. if p \<in> (caller_promise \<circ> snd) ` set (filter (\<lambda>it. fst it = i) (client_queue c)) then Some r else client_promises c p)
      = (client_promises c)(caller_promise x \<mapsto> r)"
    by (simp add: fun_eq_iff)
  with table_settle[OF wf, of "\<lambda>it. fst it = i" "\<lambda>k _. k = i" r] show ?thesis
    unfolding response_match[OF wf i Some r] snd_conv om_delete_def by simp
qed

lemma table_enqueue: "table_of (snd (request_enqueue i m now c)) = tb_ask i now (table_of c)"
  by (simp add: request_enqueue_def table_of_def tb_ask_def Let_def om_lookup_update fun_eq_iff)

lemma table_request:
  assumes wf: "client_wf c" and fresh: "tb_pending (table_of c) i = None"
    and s: "send m p i t = (Inr err, t')"
  shows "table_of (fst (snd (Client_request next_id send m p (Some i) now c t)))
    = (if err = Err_None then tb_ask i now (table_of c) else tb_refuse (Result_error err) (table_of c))"
proof -
  have i: "i \<notin> fst ` set (client_queue c)"
    using fresh by (auto simp: table_of_def om_lookup_def map_of_eq_None_iff)
  have "client_promises c (client_next c) = None" using wf by (simp add: client_wf_def)
  then show ?thesis
    using i s table_enqueue[of i m now c]
    by (auto simp: Client_request_def request_enqueue_def request_erase_def promise_set_def Let_def
        om_delete_update om_lookup_update tb_refuse_def table_of_def)
qed

section \<open>Ask once, settle once, answer once\<close>

text \<open>
  The table for many threads: the requests that wait for a verdict, the verdicts that were
  reached and not yet delivered, and the answers. A verdict takes its requests out of the waiting
  ones; an answer is a delivered verdict.
\<close>

record 'j rpc =
  rpc_waiting :: "u32 \<rightharpoonup> promise"
  rpc_verdicts :: "(promise \<times> 'j Result) set"
  rpc_answers :: "promise \<rightharpoonup> 'j Result"

definition rpc_init :: "'j rpc" where
  "rpc_init = \<lparr>rpc_waiting = Map.empty, rpc_verdicts = {}, rpc_answers = Map.empty\<rparr>"

inductive rpc_step :: "'j rpc \<Rightarrow> 'j rpc \<Rightarrow> bool" where
  ask: "rpc_waiting a i = None \<Longrightarrow> p \<notin> ran (rpc_waiting a) \<Longrightarrow> p \<notin> fst ` rpc_verdicts a \<Longrightarrow> rpc_answers a p = None \<Longrightarrow>
    rpc_step a (a\<lparr>rpc_waiting := (rpc_waiting a)(i \<mapsto> p)\<rparr>)"
| settle: "rpc_step a (a\<lparr>rpc_waiting := rpc_waiting a |` (- S),
      rpc_verdicts := rpc_verdicts a \<union> {(p, r) | p. \<exists>i \<in> S. rpc_waiting a i = Some p}\<rparr>)"
| answer: "(p, r) \<in> rpc_verdicts a \<Longrightarrow> rpc_answers a p = None \<Longrightarrow> p \<notin> ran (rpc_waiting a) \<Longrightarrow>
    rpc_step a (a\<lparr>rpc_verdicts := rpc_verdicts a - {(p, r)}, rpc_answers := (rpc_answers a)(p \<mapsto> r)\<rparr>)"

fun verdicts :: "'j pc \<Rightarrow> (promise \<times> 'j Result) list" where
  "verdicts (Fulfilling xs) = map (\<lambda>(x, r). (caller_promise x, r)) xs"
| "verdicts _ = []"

definition rpc_of :: "'j csys \<Rightarrow> 'j rpc" where
  "rpc_of s = \<lparr>rpc_waiting = (\<lambda>i. map_option caller_promise (om_lookup (client_queue (sys_client s)) i)),
     rpc_verdicts = (\<Union>t. set (verdicts (sys_pc s t))),
     rpc_answers = client_promises (sys_client s)\<rparr>"

lemma rpc_of_init: "rpc_of csys_init = rpc_init"
  by (simp add: rpc_of_def rpc_init_def csys_init_def Client_init_def om_lookup_def)

lemma held_verdicts: "held p = map fst (verdicts p)"
  by (cases p) (simp_all add: case_prod_unfold)

text \<open>What a thread's new position changes about the verdicts of all.\<close>

lemma verdicts_at:
  assumes "verdicts (sys_pc s t) = []"
  shows "(\<Union>u. set (verdicts (((sys_pc s)(t := p)) u))) = (\<Union>u. set (verdicts (sys_pc s u))) \<union> set (verdicts p)"
  using assms by (auto split: if_splits) (metis empty_iff empty_set fun_upd_other)

lemma verdict_unique:
  assumes "own_inv c (\<lambda>t. held (sys_pc s t))" and "(p, r) \<in> set (verdicts (sys_pc s t))" and "(p, r') \<in> set (verdicts (sys_pc s u))"
  shows "t = u"
proof -
  have "p \<in> set (held (sys_pc s t))" "p \<in> set (held (sys_pc s u))"
    using assms(2,3) by (force simp: held_verdicts)+
  with assms(1) show ?thesis unfolding own_inv_def by blast
qed

text \<open>What is in the table is not also in a thread's hands, nor answered.\<close>

lemma waiting_pending: "p \<in> ran (rpc_waiting (rpc_of s)) \<Longrightarrow> p \<in> pending (sys_client s)"
  by (force simp: rpc_of_def ran_def om_lookup_def pending_def dest: map_of_SomeD)

lemma verdict_loose:
  assumes "csys_inv s" and "(p, r) \<in> set (verdicts (sys_pc s t))"
  shows "loose (sys_client s) p"
proof -
  have "p \<in> set (held (sys_pc s t))" using assms(2) by (force simp: held_verdicts)
  with assms(1) show ?thesis by (simp add: csys_inv_def own_inv_def)
qed

text \<open>Queueing a caller under a fresh id asks.\<close>

lemma rpc_enqueue:
  assumes inv: "csys_inv s" and t: "sys_pc s t = Issued i" and e: "request_enqueue i m now (sys_client s) = (x, c)"
  shows "rpc_step (rpc_of s) (rpc_of (at_pc (s\<lparr>sys_client := c\<rparr>) t (Sending i x)))" (is "rpc_step _ (rpc_of ?s)")
proof -
  let ?p = "client_next (sys_client s)"
  have wf: "client_wf (sys_client s)" and ids: "ids_inv s" using inv by (simp_all add: csys_inv_def own_inv_def)
  have "i \<notin> fst ` set (client_queue (sys_client s))" using ids_issued[OF ids t] by auto
  then have none: "om_lookup (client_queue (sys_client s)) i = None" by (rule om_lookup_notin)
  have "?p \<notin> pending (sys_client s)" using wf by (auto simp: client_wf_def pending_def)
  then have w: "?p \<notin> ran (rpc_waiting (rpc_of s))" using waiting_pending by blast
  have v: "?p \<notin> fst ` rpc_verdicts (rpc_of s)"
    using verdict_loose[OF inv] by (force simp: rpc_of_def loose_def)
  have c: "c = (sys_client s)\<lparr>client_queue := om_update i x (client_queue (sys_client s)), client_next := Suc ?p\<rparr>"
    "caller_promise x = ?p"
    using e by (auto simp: request_enqueue_def Let_def)
  have "rpc_of ?s = (rpc_of s)\<lparr>rpc_waiting := (rpc_waiting (rpc_of s))(i \<mapsto> ?p)\<rparr>"
    using verdicts_at[of s t "Sending i x"] t by (simp add: rpc_of_def c om_lookup_update fun_eq_iff)
  moreover have "client_promises (sys_client s) ?p = None" using wf by (simp add: client_wf_def)
  ultimately show ?thesis using ask[of "rpc_of s" i ?p] none w v by (simp add: rpc_of_def)
qed

text \<open>Taking entries out of the queue into the hands of a thread settles them.\<close>

lemma rpc_take:
  assumes wf: "client_wf (sys_client s)" and t: "verdicts (sys_pc s t) = []"
    and c: "c = (sys_client s)\<lparr>client_queue := filter (\<lambda>it. \<not> P it) (client_queue (sys_client s))\<rparr>"
    and p: "verdicts p = map (\<lambda>x. (caller_promise x, r)) (map snd (filter P (client_queue (sys_client s))))"
  shows "rpc_step (rpc_of s) (rpc_of (at_pc (s\<lparr>sys_client := c\<rparr>) t p))"
proof -
  let ?q = "client_queue (sys_client s)" and ?S = "fst ` set (filter P (client_queue (sys_client s)))"
  have q: "om_wf ?q" using wf by (rule client_wf_queue)
  have key: "i \<in> ?S \<longleftrightarrow> P (i, x)" if "om_lookup ?q i = Some x" for i x
  proof
    assume "i \<in> ?S"
    then obtain y where "(i, y) \<in> set ?q" "P (i, y)" by auto
    then have "om_lookup ?q i = Some y" by (simp add: om_lookup_Some[OF q])
    with that \<open>P (i, y)\<close> show "P (i, x)" by simp
  next
    assume "P (i, x)"
    moreover have "(i, x) \<in> set ?q" using that by (simp add: om_lookup_Some[OF q])
    ultimately show "i \<in> ?S" by force
  qed
  have w: "om_lookup (filter (\<lambda>it. \<not> P it) ?q) i = (if i \<in> ?S then None else om_lookup ?q i)" for i
  proof (cases "om_lookup ?q i")
    case None
    then show ?thesis by (simp add: lookup_filter[OF q])
  next
    case (Some x)
    with key[OF Some] show ?thesis by (simp add: lookup_filter[OF q])
  qed
  have wait: "(\<lambda>i. map_option caller_promise (om_lookup (client_queue c) i)) = rpc_waiting (rpc_of s) |` (- ?S)"
    by (simp add: rpc_of_def c w restrict_map_def fun_eq_iff)
  have verd: "set (verdicts p) = {(p, r) | p. \<exists>i \<in> ?S. rpc_waiting (rpc_of s) i = Some p}"
  proof (rule set_eqI, rule iffI)
    fix y assume "y \<in> set (verdicts p)"
    then obtain i x where "(i, x) \<in> set ?q" "P (i, x)" "y = (caller_promise x, r)" by (auto simp: p)
    moreover from this have "rpc_waiting (rpc_of s) i = Some (caller_promise x)"
      using om_lookup_Some[OF q, of i x] by (simp add: rpc_of_def)
    ultimately show "y \<in> {(p, r) | p. \<exists>i \<in> ?S. rpc_waiting (rpc_of s) i = Some p}" by force
  next
    fix y assume "y \<in> {(p, r) | p. \<exists>i \<in> ?S. rpc_waiting (rpc_of s) i = Some p}"
    then obtain i k where i: "i \<in> ?S" "rpc_waiting (rpc_of s) i = Some k" "y = (k, r)" by blast
    then obtain x where x: "om_lookup ?q i = Some x" "i \<in> ?S" "y = (caller_promise x, r)" by (auto simp only: rpc_of_def rpc.simps map_option_eq_Some)
    then have "(i, x) \<in> set ?q" "P (i, x)" using key[OF x(1)] by (simp_all add: om_lookup_Some[OF q])
    then show "y \<in> set (verdicts p)" using x(3) by (force simp: p)
  qed
  have "rpc_of (at_pc (s\<lparr>sys_client := c\<rparr>) t p) = (rpc_of s)\<lparr>rpc_waiting := rpc_waiting (rpc_of s) |` (- ?S),
      rpc_verdicts := rpc_verdicts (rpc_of s) \<union> {(p, r) | p. \<exists>i \<in> ?S. rpc_waiting (rpc_of s) i = Some p}\<rparr>"
    using verdicts_at[OF t, of p] unfolding wait[symmetric] verd[symmetric] by (simp add: rpc_of_def c)
  then show ?thesis by (simp only: settle)
qed

text \<open>A value set on a promise is the delivery of the verdict the thread holds.\<close>

lemma rpc_set:
  assumes inv: "csys_inv s" and t: "sys_pc s t = Fulfilling ((x, r) # xs)"
    and c: "promise_set (caller_promise x) r (sys_client s) = (None, c)"
  shows "rpc_step (rpc_of s) (rpc_of (at_pc (s\<lparr>sys_client := c\<rparr>) t (Fulfilling xs)))" (is "rpc_step _ (rpc_of ?s)")
proof -
  let ?p = "caller_promise x"
  have own: "own_inv (sys_client s) (\<lambda>t. held (sys_pc s t))" using inv by (simp add: csys_inv_def)
  have mem: "(?p, r) \<in> set (verdicts (sys_pc s t))" using t by simp
  then have loose: "loose (sys_client s) ?p" by (rule verdict_loose[OF inv])
  have "distinct (held (sys_pc s t))" using own by (simp add: own_inv_def)
  then have "(?p, r) \<notin> set (verdicts (Fulfilling xs))" using t by (force simp: held_verdicts)
  moreover have "u = t" if "(?p, r) \<in> set (verdicts (sys_pc s u))" for u
    using verdict_unique[OF own mem that] by simp
  moreover have "set (verdicts (sys_pc s t)) = insert (?p, r) (set (verdicts (Fulfilling xs)))" using t by simp
  moreover have "set (verdicts (sys_pc ?s u)) = (if u = t then set (verdicts (Fulfilling xs)) else set (verdicts (sys_pc s u)))" for u
    by simp
  ultimately have "set (verdicts (sys_pc ?s u)) = set (verdicts (sys_pc s u)) - {(?p, r)}" for u
    by (cases "u = t") (simp_all, blast)
  then have "(\<Union>u. set (verdicts (sys_pc ?s u))) = (\<Union>u. set (verdicts (sys_pc s u))) - {(?p, r)}" by blast
  moreover have "c = (sys_client s)\<lparr>client_promises := (client_promises (sys_client s))(?p \<mapsto> r)\<rparr>"
    using c by (auto simp: promise_set_def split: if_splits)
  ultimately have "rpc_of ?s = (rpc_of s)\<lparr>rpc_verdicts := rpc_verdicts (rpc_of s) - {(?p, r)},
      rpc_answers := (rpc_answers (rpc_of s))(?p \<mapsto> r)\<rparr>"
    by (simp add: rpc_of_def)
  moreover have "?p \<notin> ran (rpc_waiting (rpc_of s))" using waiting_pending loose by (auto simp: loose_def)
  moreover have "(?p, r) \<in> rpc_verdicts (rpc_of s)" using mem by (auto simp: rpc_of_def)
  moreover have "rpc_answers (rpc_of s) ?p = None" using loose by (simp add: rpc_of_def loose_def)
  ultimately show ?thesis using answer[of ?p r "rpc_of s"] by simp
qed

lemma rpc_of_move: "verdicts p = verdicts (sys_pc s t) \<Longrightarrow> rpc_of (at_pc s t p) = rpc_of s"
  by (auto simp: rpc_of_def split: if_splits)

lemma rpc_of_skip [simp]:
  "rpc_of (s\<lparr>sys_status := st\<rparr>) = rpc_of s" "rpc_of (s\<lparr>sys_counter := i, sys_issued := n\<rparr>) = rpc_of s"
  by (simp_all add: rpc_of_def)

text \<open>One section of one thread is one step of the specification, or invisible to it.\<close>

lemma cstep_refines:
  assumes inv: "csys_inv s" and st: "cstep s s'"
  shows "rpc_of s' = rpc_of s \<or> rpc_step (rpc_of s) (rpc_of s')"
proof -
  have wf: "client_wf (sys_client s)" using inv by (simp add: csys_inv_def own_inv_def)
  have mine: "y = x" if "sys_pc s t = Erasing i x e" "(i, y) \<in> set (client_queue (sys_client s))" for t i x y e
    using ids_entry[of s t i x y] inv that by (simp add: csys_inv_def)
  from st show ?thesis
  proof cases
    case (enqueue t i m now x c)
    then show ?thesis using rpc_enqueue[OF inv enqueue(2,3)] by simp
  next
    case (erase_owned t i x e c)
    note tk = erase_taken[OF wf erase_owned(3) mine[OF erase_owned(2)]]
    show ?thesis unfolding erase_owned(1)
      using rpc_take[OF wf _ tk(1), of t "Fulfilling [(x, Result_error e)]"] tk(2) erase_owned(2) by simp
  next
    case (erase_lost t i x e c)
    then have "om_lookup (client_queue (sys_client s)) i = None" by (auto simp: request_erase_def)
    then have "rpc_of (s\<lparr>sys_client := c\<rparr>) = rpc_of s"
      using erase_lost(3) by (auto simp: rpc_of_def request_erase_def om_lookup_delete)
    with erase_lost rpc_of_move[of Idle "s\<lparr>sys_client := c\<rparr>" t] show ?thesis by simp
  next
    case (watchdog t now wait xs c)
    note tk = taken_eqs(1)[OF wf watchdog(3)]
    show ?thesis unfolding watchdog(1)
      using rpc_take[OF wf _ conjunct1[OF tk], of t _ "Result_error Err_Timedout"] watchdog(2) tk by simp
  next
    case (reply t i x c r)
    note tk = taken_eqs(3)[OF wf reply(3)]
    show ?thesis unfolding reply(1)
      using rpc_take[OF wf _ conjunct1[OF tk], of t "Fulfilling [(x, r)]" r] reply(2) conjunct2[OF tk, symmetric] by simp
  next
    case (cancel t xs c)
    note tk = taken_eqs(2)[OF wf cancel(3)]
    show ?thesis unfolding cancel(1)
      using rpc_take[OF wf _ conjunct1[OF tk], of t _ "Result_error Err_NotConnected"] cancel(2) tk by simp
  next
    case (fulfil t x r xs c)
    then show ?thesis using rpc_set[OF inv fulfil(2,3)] by simp
  next
    case (fulfil_throws t x r xs e c)
    then have "csys_inv s \<longrightarrow> client_promises (sys_client s) (caller_promise x) \<noteq> None"
      by (auto simp: promise_set_def split: if_splits)
    then show ?thesis using inv verdict_loose[OF inv, of "caller_promise x" r t] fulfil_throws(2) by (simp add: loose_def)
  qed (auto intro!: rpc_of_move rpc_of_move[THEN trans, OF _ rpc_of_skip(1)] rpc_of_move[THEN trans, OF _ rpc_of_skip(2)])
qed

section \<open>Properties\<close>

text \<open>
  C8. The request table refines its specification: a watchdog pass answers the overdue requests
  with \<open>Timedout\<close>, \<open>cancelAll\<close> every request with \<open>NotConnected\<close>, a readable reply the request
  with its id, and \<open>request\<close> under an id that is not pending adds one request, or answers it at
  once with the error of the send; each does exactly that and nothing else to the table.
\<close>

theorem client_refines_table:
  assumes "client_wf c"
  shows "table_of (snd (Client_checkPromises now wait c))
      = tb_settle (\<lambda>_ ts. duration_ms (now - ts) > uint wait) (Result_error Err_Timedout) (table_of c)
    \<and> table_of (snd (Client_cancelAll c)) = tb_settle (\<lambda>_ _. True) (Result_error Err_NotConnected) (table_of c)
    \<and> (response_id J message = Inr i \<and> response_result J message = Inr r \<longrightarrow>
        table_of (snd (Client_response J message c)) = tb_settle (\<lambda>k _. k = i) r (table_of c))
    \<and> (tb_pending (table_of c) j = None \<and> fst (send m p j t) = Inr err \<longrightarrow>
        table_of (fst (snd (Client_request next_id send m p (Some j) now c t)))
          = (if err = Err_None then tb_ask j now (table_of c) else tb_refuse (Result_error err) (table_of c)))"
  using table_checkPromises[OF assms] table_cancelAll[OF assms] table_response[OF assms, of J message i r]
    table_request[OF assms, of j send m p t err "snd (send m p j t)" next_id now]
  by (auto simp: prod_eq_iff)

theorem client_refines_table_witness:
  "tb_answers (table_of (snd (Client_response (ref_json []) (ex_reply 2) ex_client))) 1 = Some (Result_value (JStr ''abc''))
   \<and> tb_pending (table_of (snd (Client_response (ref_json []) (ex_reply 2) ex_client))) 2 = None"
proof -
  have i: "response_id (ref_json []) (ex_reply 2) = Inr 2 \<and> response_result (ref_json []) (ex_reply 2) = Inr (Result_value (JStr ''abc''))"
    by (simp add: response_id_def response_result_def ref_json_def ex_reply_def om_lookup_def jval_num_def)
  have eq: "table_of (snd (Client_response (ref_json []) (ex_reply 2) ex_client))
      = tb_settle (\<lambda>k _. k = 2) (Result_value (JStr ''abc'')) (table_of ex_client)"
    by (rule client_refines_table [OF ex_client_wf, THEN conjunct2, THEN conjunct2, THEN conjunct1, THEN mp, OF i])
  show ?thesis unfolding eq by (simp add: tb_settle_def table_of_def ex_client_def ex_caller_def om_lookup_def)
qed

text \<open>
  C3. Every interleaving of the threads refines a table that asks, settles and answers: starting
  from the empty table and as long as fewer than 2^32 ids were handed out, each critical section of
  each thread is invisible to the table, or it puts one new promise under an id that is free, or it
  takes requests out of the table with one verdict for them, or it delivers a verdict to a promise
  that has no answer and is no longer in the table.
\<close>

theorem threads_refine_ask_answer:
  assumes "cstep\<^sup>*\<^sup>* csys_init s" and "sys_issued s < 2 ^ 32" and "cstep s s'"
  shows "rpc_of csys_init = rpc_init \<and> (rpc_of s' = rpc_of s \<or> rpc_step (rpc_of s) (rpc_of s'))"
  using cstep_refines[OF creachable_inv[OF csteps_reachable[OF assms(1) cr_start] assms(2)] assms(3)] rpc_of_init
  by blast

theorem threads_refine_ask_answer_witness:
  "rpc_of ex_erasing = \<lparr>rpc_waiting = [1 \<mapsto> 0], rpc_verdicts = {}, rpc_answers = Map.empty\<rparr>
   \<and> rpc_of ex_owned = \<lparr>rpc_waiting = Map.empty, rpc_verdicts = {(0, Result_error Err_NotConnected)}, rpc_answers = Map.empty\<rparr>
   \<and> rpc_step (rpc_of ex_erasing) (rpc_of ex_owned)"
proof -
  have e: "rpc_of ex_erasing = \<lparr>rpc_waiting = [1 \<mapsto> 0], rpc_verdicts = {}, rpc_answers = Map.empty\<rparr>"
    by (auto simp: rpc_of_def ex_erasing_def ex_at_def Client_init_def ex_caller_def om_lookup_def fun_eq_iff split: if_splits)
  have o: "rpc_of ex_owned = \<lparr>rpc_waiting = Map.empty, rpc_verdicts = {(0, Result_error Err_NotConnected)}, rpc_answers = Map.empty\<rparr>"
    by (auto simp: rpc_of_def ex_owned_def ex_at_def Client_init_def ex_caller_def om_lookup_def split: if_splits)
  have "sys_issued ex_erasing < 2 ^ 32" by (simp add: ex_erasing_def ex_at_def)
  from threads_refine_ask_answer [OF ex_erasing_run this ex_owned_step]
  have "rpc_of ex_owned = rpc_of ex_erasing \<or> rpc_step (rpc_of ex_erasing) (rpc_of ex_owned)" by blast
  moreover have "rpc_of ex_owned \<noteq> rpc_of ex_erasing" unfolding e o by simp
  ultimately have "rpc_step (rpc_of ex_erasing) (rpc_of ex_owned)" by blast
  with e o show ?thesis by blast
qed

end
