(* ===== verification/Fb_Server.thy ===== *)
theory Fb_Server
  imports Fb_Json Fb_Worker
begin

text \<open>
  \<open>class Server\<close> of \<open>src/gateway.cpp\<close>: the list of event subscribers, the queue of
  notifications and the worker thread that runs the callbacks. A subscriber's \<open>EventCallback\<close>
  is a value of an unknown type \<open>'k\<close>; what calling it does is the argument \<open>call\<close> of the
  definitions that call it. The locale \<open>event_registry\<close> is what the gateway relies on.
\<close>

section \<open>State\<close>

record 'k CallbackDataEvent =
  ev_name :: string
  ev_lambda :: 'k
  ev_usercb :: ptr

record ('k, 'j) QueuedNotification =
  qn_callbacks :: "'k CallbackDataEvent list"
  qn_params :: 'j

record ('k, 'j) Server =
  sv_eventList :: "'k CallbackDataEvent list"
  sv_queue :: "('k, 'j) QueuedNotification list"
  sv_worker :: bool \<comment> \<open>\<open>notificationWorkerThread_\<close> is joinable\<close>
  sv_stop :: bool \<comment> \<open>\<open>stopNotificationWorker_\<close>\<close>

definition Server_init :: "('k, 'j) Server" where
  "Server_init = \<lparr>sv_eventList = [], sv_queue = [], sv_worker = False, sv_stop = False\<rparr>"

section \<open>The notification worker\<close>

definition ensureNotificationWorkerStarted :: "('k, 'j) Server \<Rightarrow> ('k, 'j) Server" where
  "ensureNotificationWorkerStarted s =
     (if \<not> sv_worker s then s\<lparr>sv_stop := False, sv_worker := True\<rparr> else s)"

definition processQueuedNotifications_pass ::
    "('k, 'j) Server \<Rightarrow> ('k, 'j) QueuedNotification pass \<times> ('k, 'j) Server" where
  "processQueuedNotifications_pass s =
     (case sv_queue s of
        [] \<Rightarrow> if sv_stop s then (Exited, s) else (Blocked, s)
      | notification # q \<Rightarrow> (Took notification, s\<lparr>sv_queue := q\<rparr>))"

text \<open>
  The loop over the callbacks of a notification. Every exception is caught and logged, so the
  loop goes on; the list says which calls threw.
\<close>

fun dispatch_callbacks ::
    "('k \<Rightarrow> ptr \<Rightarrow> 'j \<Rightarrow> 'a \<Rightarrow> exn option \<times> 'a) \<Rightarrow> 'k CallbackDataEvent list \<Rightarrow> 'j \<Rightarrow> 'a \<Rightarrow>
     (string \<times> exn) list \<times> 'a" where
  "dispatch_callbacks call [] params a = ([], a)"
| "dispatch_callbacks call (callback # callbacks) params a =
     (case call (ev_lambda callback) (ev_usercb callback) params a of
        (None, a) \<Rightarrow> dispatch_callbacks call callbacks params a
      | (Some e, a) \<Rightarrow>
          (let (errors, a) = dispatch_callbacks call callbacks params a in ((ev_name callback, e) # errors, a)))"

text \<open>
  Set the flag and join: the worker takes what is queued, then exits; one more pass than the
  queue is long is enough. The notifications it dispatches meanwhile are returned.
\<close>

definition Server_stopNotificationWorker ::
    "('k, 'j) Server \<Rightarrow> ('k, 'j) QueuedNotification list \<times> ('k, 'j) Server" where
  "Server_stopNotificationWorker s =
     (let s = s\<lparr>sv_stop := True\<rparr> in
      if sv_worker s then
        (let (ns, _, s) = worker_run processQueuedNotifications_pass (Suc (length (sv_queue s))) s
         in (ns, s\<lparr>sv_worker := False\<rparr>))
      else ([], s))"

definition Server_destroy :: "('k, 'j) Server \<Rightarrow> ('k, 'j) QueuedNotification list \<times> ('k, 'j) Server" where
  "Server_destroy s = (let (ns, s) = Server_stopNotificationWorker s in (ns, s\<lparr>sv_eventList := []\<rparr>))"

section \<open>Subscribers\<close>

definition is_subscriber :: "string \<Rightarrow> ptr \<Rightarrow> 'k CallbackDataEvent \<Rightarrow> bool" where
  "is_subscriber event usercb e \<longleftrightarrow> ev_name e = event \<and> ev_usercb e = usercb"

definition Server_subscribe :: "string \<Rightarrow> 'k \<Rightarrow> ptr \<Rightarrow> ('k, 'j) Server \<Rightarrow> Error \<times> ('k, 'j) Server" where
  "Server_subscribe event callback usercb s =
     (let s = ensureNotificationWorkerStarted s;
          callbackData = \<lparr>ev_name = event, ev_lambda = callback, ev_usercb = usercb\<rparr>
      in case find_idx (is_subscriber event usercb) (sv_eventList s) of
           Some _ \<Rightarrow> (Err_General, s)
         | None \<Rightarrow> (Err_None, s\<lparr>sv_eventList := sv_eventList s @ [callbackData]\<rparr>))"

definition Server_unsubscribe :: "string \<Rightarrow> ptr \<Rightarrow> ('k, 'j) Server \<Rightarrow> Error \<times> ('k, 'j) Server" where
  "Server_unsubscribe event usercb s =
     (case find_idx (is_subscriber event usercb) (sv_eventList s) of
        None \<Rightarrow> (Err_General, s)
      | Some i \<Rightarrow> (Err_None, s\<lparr>sv_eventList := take i (sv_eventList s) @ drop (Suc i) (sv_eventList s)\<rparr>))"

section \<open>Notifications\<close>

text \<open>\<open>{"value": v}\<close> with a \<open>v\<close> that is no object is handed over as \<open>v\<close>.\<close>

definition notify_params :: "'j json_api \<Rightarrow> 'j \<Rightarrow> 'j" where
  "notify_params J parameters =
     (if js_size J parameters = 1 \<and> js_contains J parameters ''value'' then
        (let firstValue = js_front J parameters in
         if \<not> js_is_object J firstValue then firstValue else parameters)
      else parameters)"

definition Server_notify :: "'j json_api \<Rightarrow> string \<Rightarrow> 'j \<Rightarrow> ('k, 'j) Server \<Rightarrow> ('k, 'j) Server" where
  "Server_notify J method parameters s =
     (if sv_stop s then s
      else
        let params = notify_params J parameters;
            callbacks = filter (\<lambda>callback. ev_name callback = method) (sv_eventList s)
        in if callbacks = [] then s
           else s\<lparr>sv_queue := sv_queue s @ [\<lparr>qn_callbacks = callbacks, qn_params = params\<rparr>]\<rparr>)"

text \<open>The part of the name before the first dot is lower-cased before it is compared.\<close>

definition subscriber_key :: "string \<Rightarrow> string" where
  "subscriber_key method =
     (case str_find_char CHR ''.'' method 0 of
        None \<Rightarrow> method
      | Some dotPos \<Rightarrow> map tolower (take dotPos method) @ drop dotPos method)"

definition Server_isAnySubscriber :: "string \<Rightarrow> ('k, 'j) Server \<Rightarrow> bool" where
  "Server_isAnySubscriber method s =
     list_ex (\<lambda>callback. ev_name callback = subscriber_key method) (sv_eventList s)"

section \<open>The worker contract\<close>

interpretation nw: queue_worker sv_queue sv_stop "\<lambda>q s. s\<lparr>sv_queue := q\<rparr>" processQueuedNotifications_pass
  by unfold_locales (auto simp: processQueuedNotifications_pass_def)

lemma stopNotificationWorker_eq:
  "Server_stopNotificationWorker s =
     (if sv_worker s then (sv_queue s, s\<lparr>sv_stop := True, sv_queue := [], sv_worker := False\<rparr>)
      else ([], s\<lparr>sv_stop := True\<rparr>))"
  by (simp add: Server_stopNotificationWorker_def nw.run_drains Let_def del: worker_run.simps)

section \<open>Invariant\<close>

text \<open>
  One entry per event and user pointer; a running worker is not asked to stop; without a worker
  nothing is queued, and nothing can be (the flag is up, or nobody ever subscribed).
\<close>

definition server_inv :: "('k, 'j) Server \<Rightarrow> bool" where
  "server_inv s \<longleftrightarrow>
     distinct (map (\<lambda>e. (ev_name e, ev_usercb e)) (sv_eventList s))
     \<and> (if sv_worker s then \<not> sv_stop s else sv_queue s = [] \<and> (sv_stop s \<or> sv_eventList s = []))"

definition subscribed :: "string \<Rightarrow> ptr \<Rightarrow> 'k CallbackDataEvent list \<Rightarrow> bool" where
  "subscribed event usercb es \<longleftrightarrow> (\<exists>e \<in> set es. is_subscriber event usercb e)"

lemma find_subscribed: "find_idx (is_subscriber event usercb) es = None \<longleftrightarrow> \<not> subscribed event usercb es"
  by (auto simp: find_idx_None subscribed_def)

lemma erase_eq_filter:
  assumes "distinct (map (\<lambda>e. (ev_name e, ev_usercb e)) es)" and "find_idx (is_subscriber event usercb) es = Some i"
  shows "take i es @ drop (Suc i) es = filter (\<lambda>e. \<not> is_subscriber event usercb e) es"
  using assms
proof (induction es arbitrary: i)
  case (Cons e es)
  show ?case
  proof (cases "is_subscriber event usercb e")
    case True
    then have "\<forall>x \<in> set es. \<not> is_subscriber event usercb x"
      using Cons.prems(1) by (auto simp: is_subscriber_def image_iff)
    with True Cons.prems(2) show ?thesis by (simp add: filter_id_conv)
  next
    case False
    then obtain j where "i = Suc j" "find_idx (is_subscriber event usercb) es = Some j"
      using Cons.prems(2) by auto
    with Cons False show ?thesis by simp
  qed
qed simp

lemma server_inv_init: "server_inv Server_init"
  by (simp add: server_inv_def Server_init_def)

lemma subscribe_eq:
  "Server_subscribe event k usercb s =
     (let s' = ensureNotificationWorkerStarted s in
      if subscribed event usercb (sv_eventList s) then (Err_General, s')
      else (Err_None, s'\<lparr>sv_eventList := sv_eventList s @ [\<lparr>ev_name = event, ev_lambda = k, ev_usercb = usercb\<rparr>]\<rparr>))"
proof -
  have "sv_eventList (ensureNotificationWorkerStarted s) = sv_eventList s"
    by (simp add: ensureNotificationWorkerStarted_def)
  then show ?thesis
    using find_subscribed[of event usercb "sv_eventList s"]
    by (auto simp: Server_subscribe_def Let_def split: option.splits)
qed

lemma unsubscribe_eq:
  assumes "server_inv s"
  shows "Server_unsubscribe event usercb s =
     (if subscribed event usercb (sv_eventList s)
      then (Err_None, s\<lparr>sv_eventList := filter (\<lambda>e. \<not> is_subscriber event usercb e) (sv_eventList s)\<rparr>)
      else (Err_General, s))"
proof (cases "find_idx (is_subscriber event usercb) (sv_eventList s)")
  case None
  then show ?thesis by (simp add: Server_unsubscribe_def flip: find_subscribed)
next
  case (Some i)
  then have "subscribed event usercb (sv_eventList s)" by (metis find_subscribed option.distinct(1))
  with Some show ?thesis
    using assms by (simp add: Server_unsubscribe_def server_inv_def erase_eq_filter)
qed

lemma server_inv_subscribe [fb_inv]:
  "server_inv s \<Longrightarrow> server_inv (snd (Server_subscribe event k usercb s))"
  by (auto simp: subscribe_eq server_inv_def ensureNotificationWorkerStarted_def Let_def subscribed_def is_subscriber_def)

lemma server_inv_unsubscribe [fb_inv]:
  "server_inv s \<Longrightarrow> server_inv (snd (Server_unsubscribe event usercb s))"
  by (auto simp: unsubscribe_eq server_inv_def distinct_map_filter)

lemma server_inv_notify [fb_inv]: "server_inv s \<Longrightarrow> server_inv (Server_notify J method params s)"
  by (auto simp: Server_notify_def server_inv_def Let_def split: if_splits)

lemma server_inv_pass [fb_inv]: "server_inv s \<Longrightarrow> server_inv (snd (processQueuedNotifications_pass s))"
  by (auto simp: processQueuedNotifications_pass_def server_inv_def split: list.splits)

lemma server_inv_stop [fb_inv]: "server_inv s \<Longrightarrow> server_inv (snd (Server_stopNotificationWorker s))"
  by (auto simp: stopNotificationWorker_eq server_inv_def)

section \<open>The contract of the subscriber list\<close>

locale event_registry =
  fixes subs :: "'s \<Rightarrow> 'k CallbackDataEvent list"
    and ok :: "'s \<Rightarrow> bool"
    and subscribe :: "string \<Rightarrow> 'k \<Rightarrow> ptr \<Rightarrow> 's \<Rightarrow> Error \<times> 's"
    and unsubscribe :: "string \<Rightarrow> ptr \<Rightarrow> 's \<Rightarrow> Error \<times> 's"
  assumes subscribe_ok: "ok s \<Longrightarrow> ok (snd (subscribe event k u s))"
    and unsubscribe_ok: "ok s \<Longrightarrow> ok (snd (unsubscribe event u s))"
    and subscribe_result: "ok s \<Longrightarrow> fst (subscribe event k u s) = (if subscribed event u (subs s) then Err_General else Err_None)"
    and subscribe_subs: "ok s \<Longrightarrow> subs (snd (subscribe event k u s)) =
      (if subscribed event u (subs s) then subs s else subs s @ [\<lparr>ev_name = event, ev_lambda = k, ev_usercb = u\<rparr>])"
    and unsubscribe_result: "ok s \<Longrightarrow> fst (unsubscribe event u s) = (if subscribed event u (subs s) then Err_None else Err_General)"
    and unsubscribe_subs: "ok s \<Longrightarrow> subs (snd (unsubscribe event u s)) = filter (\<lambda>e. \<not> is_subscriber event u e) (subs s)"
begin

lemma unsubscribed: "ok s \<Longrightarrow> \<not> subscribed event u (subs (snd (unsubscribe event u s)))"
  by (simp add: unsubscribe_subs subscribed_def)

lemma not_subscribed_filter: "\<not> subscribed event u es \<Longrightarrow> filter (\<lambda>e. \<not> is_subscriber event u e) es = es"
  by (auto simp: subscribed_def filter_id_conv)

lemma subscribe_unsubscribe:
  assumes "ok s" and "\<not> subscribed event u (subs s)"
  shows "fst (unsubscribe event u (snd (subscribe event k u s))) = Err_None"
    and "subs (snd (unsubscribe event u (snd (subscribe event k u s)))) = subs s"
  using assms subscribe_ok[OF assms(1)]
  by (simp_all add: unsubscribe_result unsubscribe_subs subscribe_subs not_subscribed_filter subscribed_def is_subscriber_def)

lemma subscribe_keeps_others:
  assumes "ok s" and "e \<in> set (subs s)"
  shows "e \<in> set (subs (snd (subscribe event k u s)))"
  using assms by (simp add: subscribe_subs)

end

interpretation es: event_registry sv_eventList server_inv Server_subscribe Server_unsubscribe
proof unfold_locales
  fix s :: "('a, 'b) Server" and event :: string and k :: 'a and u :: ptr
  assume inv: "server_inv s"
  show "server_inv (snd (Server_subscribe event k u s))" "server_inv (snd (Server_unsubscribe event u s))"
    using inv by (rule server_inv_subscribe, rule server_inv_unsubscribe)
  show "fst (Server_subscribe event k u s) = (if subscribed event u (sv_eventList s) then Err_General else Err_None)"
    by (simp add: subscribe_eq Let_def)
  show "sv_eventList (snd (Server_subscribe event k u s)) =
      (if subscribed event u (sv_eventList s) then sv_eventList s
       else sv_eventList s @ [\<lparr>ev_name = event, ev_lambda = k, ev_usercb = u\<rparr>])"
    by (simp add: subscribe_eq Let_def ensureNotificationWorkerStarted_def)
  show "fst (Server_unsubscribe event u s) = (if subscribed event u (sv_eventList s) then Err_None else Err_General)"
    using inv by (simp add: unsubscribe_eq)
  show "sv_eventList (snd (Server_unsubscribe event u s)) = filter (\<lambda>e. \<not> is_subscriber event u e) (sv_eventList s)"
    using inv by (auto simp: unsubscribe_eq subscribed_def filter_id_conv)
qed

section \<open>Reachable states\<close>

inductive server_step :: "'j json_api \<Rightarrow> ('k, 'j) Server \<Rightarrow> ('k, 'j) Server \<Rightarrow> bool" for J where
  ss_subscribe: "server_step J s (snd (Server_subscribe event k usercb s))"
| ss_unsubscribe: "server_step J s (snd (Server_unsubscribe event usercb s))"
| ss_notify: "server_step J s (Server_notify J method params s)"
| ss_pass: "sv_worker s \<Longrightarrow> server_step J s (snd (processQueuedNotifications_pass s))"
| ss_stop: "server_step J s (snd (Server_stopNotificationWorker s))"

inductive server_reachable :: "'j json_api \<Rightarrow> ('k, 'j) Server \<Rightarrow> bool" for J where
  sr_start: "server_reachable J Server_init"
| sr_step: "server_reachable J s \<Longrightarrow> server_step J s s' \<Longrightarrow> server_reachable J s'"

lemma server_reachable_inv: "server_reachable J s \<Longrightarrow> server_inv s"
proof (induction rule: server_reachable.induct)
  case sr_start
  show ?case by (rule server_inv_init)
next
  case (sr_step s s')
  from sr_step(2) sr_step(3) show ?case
    by (induction rule: server_step.induct)
      (simp_all add: server_inv_subscribe server_inv_unsubscribe server_inv_notify server_inv_pass server_inv_stop)
qed

lemma dispatch_state:
  "snd (dispatch_callbacks call cbs params a) =
     fold (\<lambda>cb a. snd (call (ev_lambda cb) (ev_usercb cb) params a)) cbs a"
  by (induction call cbs params a rule: dispatch_callbacks.induct) (auto split: prod.splits option.splits)

section \<open>Properties\<close>

text \<open>A server with two subscribers of one event and one of another.\<close>

definition ex_server :: "(nat, jval) Server" where
  "ex_server = snd (Server_subscribe ''tts.stop'' 12 3 (snd (Server_subscribe ''device.name'' 11 2
     (snd (Server_subscribe ''device.name'' 10 1 Server_init)))))"

lemma ex_server_reachable: "server_reachable J ex_server"
  unfolding ex_server_def by (intro sr_step[OF _ ss_subscribe] sr_start)

lemma ex_server_eq:
  "ex_server = \<lparr>sv_eventList = [\<lparr>ev_name = ''device.name'', ev_lambda = 10, ev_usercb = 1\<rparr>,
       \<lparr>ev_name = ''device.name'', ev_lambda = 11, ev_usercb = 2\<rparr>, \<lparr>ev_name = ''tts.stop'', ev_lambda = 12, ev_usercb = 3\<rparr>],
     sv_queue = [], sv_worker = True, sv_stop = False\<rparr>"
  by (simp add: ex_server_def Server_init_def Server_subscribe_def ensureNotificationWorkerStarted_def
      is_subscriber_def Let_def)

text \<open>
  In every state the server can reach, no event has two entries with the same user pointer,
  and a notification is in the queue only while the worker runs and is not asked to stop: none
  is ever stranded.
\<close>

lemma notifications_never_stranded:
  assumes "server_reachable J s"
  shows "distinct (map (\<lambda>e. (ev_name e, ev_usercb e)) (sv_eventList s))
    \<and> (sv_queue s \<noteq> [] \<longrightarrow> sv_worker s \<and> \<not> sv_stop s)
    \<and> (sv_eventList s \<noteq> [] \<and> \<not> sv_stop s \<longrightarrow> sv_worker s)"
  using server_reachable_inv[OF assms] by (auto simp: server_inv_def split: if_splits)

lemma notifications_never_stranded_witness: "sv_eventList ex_server \<noteq> [] \<and> sv_worker ex_server"
  using notifications_never_stranded [OF ex_server_reachable [of "ref_json []"]] by (auto simp: ex_server_eq)

text \<open>
  C25. A notification reaches exactly the subscribers of its event: stopping the worker after
  \<open>notify\<close> hands over what was queued before, in order, and then one notification for the
  subscribers whose name is the event's, in order of subscription, with the unwrapped
  parameters; a notification that arrives while the worker is stopping is dropped.
\<close>

theorem notify_reaches_exactly_subscribers:
  assumes "server_reachable J s"
  shows "fst (Server_stopNotificationWorker (Server_notify J method params s)) =
    (if sv_stop s \<or> (\<forall>e \<in> set (sv_eventList s). ev_name e \<noteq> method) then sv_queue s
     else sv_queue s @ [\<lparr>qn_callbacks = filter (\<lambda>e. ev_name e = method) (sv_eventList s),
                         qn_params = notify_params J params\<rparr>])"
proof -
  have inv: "server_inv s" by (rule server_reachable_inv[OF assms])
  have none: "filter (\<lambda>e. ev_name e = method) (sv_eventList s) = [] \<longleftrightarrow> (\<forall>e \<in> set (sv_eventList s). ev_name e \<noteq> method)"
    by (simp add: filter_empty_conv)
  show ?thesis
  proof (cases "sv_worker s")
    case True
    then show ?thesis using none by (simp add: stopNotificationWorker_eq Server_notify_def Let_def)
  next
    case False
    then have "sv_queue s = []" "sv_stop s \<or> sv_eventList s = []" using inv by (simp_all add: server_inv_def)
    with False show ?thesis by (auto simp: stopNotificationWorker_eq Server_notify_def Let_def)
  qed
qed

theorem notify_reaches_exactly_subscribers_witness:
  "map (map ev_usercb \<circ> qn_callbacks) (fst (Server_stopNotificationWorker
      (Server_notify (ref_json []) ''device.name'' (JObj [(''value'', JStr ''x'')]) ex_server))) = [[1, 2]]"
  using notify_reaches_exactly_subscribers [OF ex_server_reachable, of "ref_json []" "''device.name''" "JObj [(''value'', JStr ''x'')]"]
  by (simp add: ex_server_eq)

text \<open>
  A callback that throws does not disturb the others: dispatching a notification calls each of
  its callbacks once, in order, on the state the previous one left, whether or not they throw.
\<close>

lemma throwing_callback_contained:
  "snd (dispatch_callbacks call callbacks params a) =
     fold (\<lambda>cb a. snd (call (ev_lambda cb) (ev_usercb cb) params a)) callbacks a
   \<and> snd (dispatch_callbacks (\<lambda>k u p a. (Some e, snd (call k u p a))) callbacks params a) =
     snd (dispatch_callbacks (\<lambda>k u p a. (None, snd (call k u p a))) callbacks params a)"
  by (simp add: dispatch_state)

text \<open>
  The subscriber list: a second subscription of the same event and pointer is refused and
  changes nothing; a new one is added at the end, and unsubscribing it restores the list;
  unsubscribing twice is refused; and after an unsubscription no later notification goes to
  that subscriber.
\<close>

lemma subscription_lifecycle:
  assumes "server_reachable J s"
  shows "(\<forall>e \<in> set (sv_eventList (snd (Server_unsubscribe event u s))). \<not> is_subscriber event u e)
   \<and> (if subscribed event u (sv_eventList s)
    then fst (Server_subscribe event k u s) = Err_General \<and> sv_eventList (snd (Server_subscribe event k u s)) = sv_eventList s
    else fst (Server_subscribe event k u s) = Err_None
      \<and> fst (Server_unsubscribe event u (snd (Server_subscribe event k u s))) = Err_None
      \<and> sv_eventList (snd (Server_unsubscribe event u (snd (Server_subscribe event k u s)))) = sv_eventList s
      \<and> Server_unsubscribe event u s = (Err_General, s))"
  using server_reachable_inv[OF assms]
  by (simp add: es.subscribe_result es.subscribe_subs es.subscribe_unsubscribe es.unsubscribe_subs unsubscribe_eq) (simp add: subscribed_def)

lemma subscription_lifecycle_witness:
  "fst (Server_subscribe ''device.name'' 99 2 ex_server) = Err_General
   \<and> fst (Server_subscribe ''device.name'' 99 7 ex_server) = Err_None"
  using subscription_lifecycle [OF ex_server_reachable [of "ref_json []"], of "''device.name''" 2 99]
    subscription_lifecycle [OF ex_server_reachable [of "ref_json []"], of "''device.name''" 7 99]
  by (simp add: ex_server_eq subscribed_def is_subscriber_def)

end
