(* ===== verification/Fb_Logger.thy ===== *)
theory Fb_Logger
  imports Fb_Types
begin

text \<open>
  \<open>class Logger\<close>: \<open>include/firebolt/logger.h\<close> and \<open>src/logger.cpp\<close>. The level and format
  settings, their resolution from the environment, the validation of the log file path, and
  the line assembled in a fixed buffer. The environment and the file system are a parameter,
  the record \<open>os_api\<close>; a write or read outside a buffer is the value \<open>None\<close>.
\<close>

section \<open>State\<close>

record Logger =
  lg_logLevel :: LogLevel
  lg_loggingEnabled :: bool
  lg_addTs :: bool
  lg_addThreadId :: bool
  lg_addLocation :: bool
  lg_addFunction :: bool

definition Logger_init :: Logger where
  "Logger_init = \<lparr>lg_logLevel = Lvl_Error, lg_loggingEnabled = True, lg_addTs = True,
     lg_addThreadId = True, lg_addLocation = False, lg_addFunction = True\<rparr>"

text \<open>The two \<open>thread_local\<close> strings of \<open>resolveLogFilePathFromEnvironment\<close>.\<close>

record PathCache =
  cachedEnvValue :: string
  cachedCanonicalPath :: string

record os_api =
  os_getenv :: "string \<Rightarrow> string option"
  os_realpath :: "string \<Rightarrow> string option"
  os_open_dir :: "string \<Rightarrow> int" \<comment> \<open>\<open>open(dir, O_RDONLY | O_DIRECTORY | O_CLOEXEC)\<close>\<close>
  os_openat :: "int \<Rightarrow> string \<Rightarrow> int" \<comment> \<open>\<open>openat(dirfd, name, \<dots> | O_NOFOLLOW, 0644)\<close>\<close>
  os_write :: "nat \<Rightarrow> int \<Rightarrow> string \<Rightarrow> int" \<comment> \<open>result of the n-th \<open>write\<close> of a call\<close>
  os_eintr :: bool \<comment> \<open>whether a failed first \<open>write\<close> was interrupted\<close>
  os_stack :: "nat \<Rightarrow> char" \<comment> \<open>what an array of the stack holds before it is written\<close>

section \<open>Environment\<close>

definition toLowerCopy :: "string \<Rightarrow> string" where
  "toLowerCopy value = map tolower value"

definition parseEnvLogLevel :: "(string \<Rightarrow> string option) \<Rightarrow> string \<Rightarrow> LogLevel option" where
  "parseEnvLogLevel getenv name =
     (case getenv name of
        None \<Rightarrow> None
      | Some raw \<Rightarrow>
          if raw = [] then None
          else if length raw \<ge> 256 then None
          else let value = toLowerCopy raw in
            if value = ''error'' \<or> value = ''0'' then Some Lvl_Error
            else if value = ''warning'' \<or> value = ''warn'' \<or> value = ''1'' then Some Lvl_Warning
            else if value = ''notice'' \<or> value = ''2'' then Some Lvl_Notice
            else if value = ''info'' \<or> value = ''3'' then Some Lvl_Info
            else if value = ''debug'' \<or> value = ''4'' then Some Lvl_Debug
            else None)"

definition isEnvLogDisabled :: "(string \<Rightarrow> string option) \<Rightarrow> string \<Rightarrow> bool" where
  "isEnvLogDisabled getenv name =
     (case getenv name of
        None \<Rightarrow> False
      | Some raw \<Rightarrow>
          if raw = [] then False
          else if length raw \<ge> 256 then False
          else let value = toLowerCopy raw in
            value = ''off'' \<or> value = ''none'' \<or> value = ''disable'' \<or> value = ''disabled'')"

definition setLogLevel :: "LogLevel \<Rightarrow> Logger \<Rightarrow> Logger" where
  "setLogLevel logLevel l =
     (if logLevel < Lvl_MaxLevel then l\<lparr>lg_logLevel := logLevel\<rparr>
      else if logLevel = Lvl_MaxLevel then l\<lparr>lg_logLevel := Lvl_Debug\<rparr>
      else l)"

definition env_level_name :: string where
  "env_level_name = ''FIREBOLT_TRANSPORT_LOG_LEVEL''"

definition resolveLogLevelFromEnvironment :: "(string \<Rightarrow> string option) \<Rightarrow> LogLevel \<Rightarrow> Logger \<Rightarrow> LogLevel \<times> Logger" where
  "resolveLogLevelFromEnvironment getenv defaultLevel l =
     (if isEnvLogDisabled getenv env_level_name then (defaultLevel, l\<lparr>lg_loggingEnabled := False\<rparr>)
      else
        let l = l\<lparr>lg_loggingEnabled := True\<rparr> in
        case parseEnvLogLevel getenv env_level_name of
          Some level \<Rightarrow> (level, l)
        | None \<Rightarrow> (defaultLevel, l))"

definition setFormat :: "bool \<Rightarrow> bool \<Rightarrow> bool \<Rightarrow> bool \<Rightarrow> Logger \<Rightarrow> Logger" where
  "setFormat addTs addLocation addFunction addThreadId l =
     l\<lparr>lg_addTs := addTs, lg_addLocation := addLocation, lg_addFunction := addFunction,
       lg_addThreadId := addThreadId\<rparr>"

definition isLogLevelEnabled :: "LogLevel \<Rightarrow> Logger \<Rightarrow> bool" where
  "isLogLevelEnabled logLevel l \<longleftrightarrow> lg_loggingEnabled l \<and> logLevel \<le> lg_logLevel l"

section \<open>The log file path\<close>

definition PATH_MAX :: nat where "PATH_MAX = 4096"

definition path_separator :: char where "path_separator = CHR ''/''"

text \<open>The position of the last separator of a path that has one (\<open>npos + 1\<close> wraps to 0 otherwise).\<close>

definition last_slash :: "string \<Rightarrow> nat" where
  "last_slash path = (case str_rfind_char path_separator path of Some i \<Rightarrow> i | None \<Rightarrow> 0)"

definition resolveLogFilePathFromEnvironment :: "os_api \<Rightarrow> PathCache \<Rightarrow> string \<times> PathCache" where
  "resolveLogFilePathFromEnvironment OS c =
     (case os_getenv OS ''FIREBOLT_TRANSPORT_LOG_FILE'' of
        None \<Rightarrow> ([], c\<lparr>cachedEnvValue := [], cachedCanonicalPath := []\<rparr>)
      | Some path \<Rightarrow>
          if path = [] then ([], c\<lparr>cachedEnvValue := [], cachedCanonicalPath := []\<rparr>)
          else if length path \<ge> PATH_MAX then ([], c)
          else if cachedEnvValue c = path then (cachedCanonicalPath c, c)
          else if hd path \<noteq> path_separator \<or> str_find ''../'' path \<noteq> None then ([], c)
          else
            let lastSlash = last_slash path;
                parentDir = (if lastSlash = 0 then ''/'' else take lastSlash path);
                filename = drop (lastSlash + 1) path
            in if filename = [] \<or> filename = ''.'' \<or> filename = ''..''
                  \<or> str_find_char path_separator filename 0 \<noteq> None then ([], c)
               else case os_realpath OS parentDir of
                      None \<Rightarrow> ([], c)
                    | Some canonicalParent \<Rightarrow>
                        let canonicalPath = (if last canonicalParent \<noteq> path_separator
                                             then canonicalParent @ [path_separator] else canonicalParent)
                                            @ filename
                        in if length canonicalPath \<ge> PATH_MAX then ([], c)
                           else (canonicalPath, c\<lparr>cachedEnvValue := path, cachedCanonicalPath := canonicalPath\<rparr>))"

text \<open>
  \<open>tryWriteToConfiguredLogFile\<close>: the result and the \<open>write\<close> calls it makes, each as the
  directory opened, the name given to \<open>openat\<close> and the data.
\<close>

definition tryWriteToConfiguredLogFile ::
    "os_api \<Rightarrow> string \<Rightarrow> PathCache \<Rightarrow> bool \<times> (string \<times> string \<times> string) list \<times> PathCache" where
  "tryWriteToConfiguredLogFile OS message c =
     (let (logFilePath, c) = resolveLogFilePathFromEnvironment OS c in
      if logFilePath = [] then (False, [], c)
      else case str_rfind_char path_separator logFilePath of
        None \<Rightarrow> (False, [], c)
      | Some lastSlash \<Rightarrow>
          if lastSlash = length logFilePath - 1 then (False, [], c)
          else
            let canonicalParent = (if lastSlash = 0 then ''/'' else take lastSlash logFilePath);
                filename = drop (lastSlash + 1) logFilePath;
                dirfd = os_open_dir OS canonicalParent
            in if dirfd < 0 then (False, [], c)
               else let fd = os_openat OS dirfd filename in
                 if fd < 0 then (False, [], c)
                 else
                   let line = message @ [CHR 0x0A];
                       ret = os_write OS 0 fd line
                   in if ret < 0 \<and> os_eintr OS
                      then (os_write OS 1 fd line = int (length line),
                            [(canonicalParent, filename, line), (canonicalParent, filename, line)], c)
                      else (ret = int (length line), [(canonicalParent, filename, line)], c))"

section \<open>The log line\<close>

definition MaxBufSize :: nat where "MaxBufSize = 1024"

text \<open>What \<open>%s\<close> reads of a character array: up to the first zero byte.\<close>

definition c_str :: "string \<Rightarrow> string" where
  "c_str s = takeWhile (\<lambda>c. c \<noteq> CHR 0x00) s"

text \<open>\<open>%d\<close>, \<open>%u\<close> and \<open>%0nd\<close> of a number that is not negative.\<close>

fun digits :: "nat \<Rightarrow> string" where
  "digits n = (if n < 10 then [char_of (48 + n)] else digits (n div 10) @ [char_of (48 + n mod 10)])"

declare digits.simps [simp del]

definition zero_pad :: "nat \<Rightarrow> nat \<Rightarrow> string" where
  "zero_pad w n = replicate (w - length (digits n)) CHR ''0'' @ digits n"

text \<open>
  \<open>snprintf(buf + off, sz, \<dots>)\<close> where the format yields \<open>text\<close> (of at most \<open>INT_MAX\<close> bytes): of the
  text as much as the size argument allows and a zero byte are stored, and the length of the whole
  \<open>text\<close> is returned. \<open>off\<close> and \<open>sz\<close> are \<open>size_t\<close>, so a difference that is computed for them wraps;
  a pointer or a store past the end of the array is \<open>None\<close>.
\<close>

definition snprintf_at :: "string \<Rightarrow> u64 \<Rightarrow> u64 \<Rightarrow> string \<Rightarrow> (int \<times> string) option" where
  "snprintf_at buf off sz text =
     (let w = (if sz = 0 then [] else take (unat sz - 1) text @ [CHR 0x00]) in
      if unat off + length w \<le> length buf
        then Some (int (length text), take (unat off) buf @ w @ drop (unat off + length w) buf)
      else None)"

text \<open>
  \<open>buf[i]\<close> as a store and as a load, and what \<open>%s\<close> reads of an array: up to the first zero byte,
  and past the end of the array when it has none.
\<close>

definition store_at :: "string \<Rightarrow> u64 \<Rightarrow> char \<Rightarrow> string option" where
  "store_at buf i c = (if unat i < length buf then Some (buf[unat i := c]) else None)"

definition load_at :: "string \<Rightarrow> u64 \<Rightarrow> char option" where
  "load_at buf i = (if unat i < length buf then Some (buf ! unat i) else None)"

definition read_array :: "string \<Rightarrow> string option" where
  "read_array buf = (if CHR 0x00 \<in> set buf then Some (c_str buf) else None)"

text \<open>\<open>sizeof(formattedMsg)\<close>, and the lambda \<open>snAppend\<close>, over \<open>len\<close>.\<close>

definition sizeof_msg :: u64 where "sizeof_msg = of_nat MaxBufSize"

definition snAppend :: "u64 \<Rightarrow> int \<Rightarrow> u64" where
  "snAppend len ret =
     (if ret > 0 \<and> len < sizeof_msg - 1 then len + min (of_int ret) (sizeof_msg - len - 1) else len)"

text \<open>The sequence of \<open>snAppend(snprintf(formattedMsg + len, sizeof(formattedMsg) - len, \<dots>))\<close>.\<close>

fun format_pieces :: "string list \<Rightarrow> u64 \<Rightarrow> string \<Rightarrow> (u64 \<times> string) option" where
  "format_pieces [] len buf = Some (len, buf)"
| "format_pieces (text # texts) len buf =
     (case snprintf_at buf len (sizeof_msg - len) text of
        None \<Rightarrow> None
      | Some (ret, buf) \<Rightarrow> format_pieces texts (snAppend len ret) buf)"

text \<open>An array of the stack that is not initialised: \<open>stack\<close> says what is there.\<close>

definition stack_array :: "(nat \<Rightarrow> char) \<Rightarrow> nat \<Rightarrow> string" where
  "stack_array stack n = map stack [0..<n]"

text \<open>
  \<open>vsnprintf\<close> into \<open>msg\<close>, the zero byte at the clamped position and the cut of a final newline, then
  what \<open>%s\<close> reads of \<open>msg\<close>. \<open>formatted\<close> is what the format and its arguments expand to, or \<open>None\<close>
  for an encoding error (\<open>length < 0\<close>), where nothing is known of the array. The result is \<open>None\<close>
  when a byte outside \<open>msg\<close> is touched.
\<close>

definition user_message :: "(nat \<Rightarrow> char) \<Rightarrow> string option \<Rightarrow> string option" where
  "user_message stack formatted =
     Option.bind (case formatted of
         None \<Rightarrow> Some (- 1, stack_array stack MaxBufSize)
       | Some text \<Rightarrow> snprintf_at (stack_array stack MaxBufSize) 0 (of_nat MaxBufSize) text)
     (\<lambda>(len, msg).
       let position = (if len > 0
             then (if (of_int len :: u64) \<ge> of_nat MaxBufSize then of_nat MaxBufSize - 1 else of_int len) else 0)
       in Option.bind (store_at msg position CHR 0x00) (\<lambda>msg.
            Option.bind (if position > 0
                then Option.bind (load_at msg (position - 1)) (\<lambda>c.
                       if c = CHR 0x0A then store_at msg (position - 1) CHR 0x00 else Some msg)
                else Some msg) read_array))"

text \<open>\<open>snprintf\<close> of the time of day into \<open>timeBuf[16]\<close>, and the string made of it.\<close>

definition time_text :: "(nat \<Rightarrow> char) \<Rightarrow> nat \<Rightarrow> nat \<Rightarrow> nat \<Rightarrow> nat \<Rightarrow> string option" where
  "time_text stack hour minute sec ms =
     Option.bind (snprintf_at (stack_array stack 16) 0 16
         (zero_pad 2 hour @ '':'' @ zero_pad 2 minute @ '':'' @ zero_pad 2 sec @ ''.'' @ zero_pad 3 ms))
       (\<lambda>(_, timeBuf). read_array timeBuf)"

fun level_name :: "LogLevel \<Rightarrow> string" where
  "level_name Lvl_Error = ''Error''"
| "level_name Lvl_Warning = ''Warning''"
| "level_name Lvl_Notice = ''Notice''"
| "level_name Lvl_Info = ''Info''"
| "level_name Lvl_Debug = ''Debug''"
| "level_name _ = ''Unknown''"

fun syslog_level :: "LogLevel \<Rightarrow> nat" where
  "syslog_level Lvl_Warning = 4"
| "syslog_level Lvl_Notice = 5"
| "syslog_level Lvl_Info = 6"
| "syslog_level Lvl_Debug = 7"
| "syslog_level _ = 3"

text \<open>\<open>std::filesystem::path(file).filename()\<close>.\<close>

definition path_filename :: "string \<Rightarrow> string" where
  "path_filename file = (case str_rfind_char path_separator file of Some i \<Rightarrow> drop (i + 1) file | None \<Rightarrow> file)"

definition log_pieces ::
    "Logger \<Rightarrow> LogLevel \<Rightarrow> string \<Rightarrow> string \<Rightarrow> string \<Rightarrow> nat \<Rightarrow> string \<Rightarrow> nat \<Rightarrow> string \<Rightarrow> string list" where
  "log_pieces l logLevel module file function line time tid msg =
     (if lg_addTs l then [time @ '': ''] else [])
     @ [''[FireboltNative|'' @ c_str module @ ''|'' @ level_name logLevel @ '']'']
     @ (if lg_addLocation l \<or> lg_addFunction l then
          (if lg_addLocation l \<and> lg_addFunction l
           then [''['' @ c_str (path_filename file) @ '':'' @ digits line @ '','' @ c_str function @ '']'']
           else if lg_addLocation l then [''['' @ c_str (path_filename file) @ '':'' @ digits line @ '']'']
           else [''['' @ c_str function @ ''()]''])
        else [])
     @ (if lg_addThreadId l then [''<tid:'' @ digits tid @ ''>''] else [])
     @ ['': '' @ msg]"

datatype log_sink = Discarded | ToFile | ToStderr string | ToSyslog nat string

text \<open>
  \<open>Logger::log\<close>; \<open>enable_syslog\<close> is the build option, \<open>formatted\<close> what the caller's format and
  arguments expand to, \<open>(hour, minute, sec, ms)\<close> the local time. \<open>None\<close> when a byte outside one of
  the arrays \<open>msg\<close>, \<open>timeBuf\<close> and \<open>formattedMsg\<close> is touched.
\<close>

definition Logger_log ::
    "os_api \<Rightarrow> bool \<Rightarrow> nat \<times> nat \<times> nat \<times> nat \<Rightarrow> nat \<Rightarrow> LogLevel \<Rightarrow> string \<Rightarrow> string \<Rightarrow> string \<Rightarrow> nat \<Rightarrow>
     string option \<Rightarrow> Logger \<Rightarrow> PathCache \<Rightarrow> (log_sink \<times> (string \<times> string \<times> string) list \<times> PathCache) option" where
  "Logger_log OS enable_syslog now tid logLevel module file function line formatted l c =
     (if \<not> lg_loggingEnabled l \<or> logLevel > lg_logLevel l then Some (Discarded, [], c)
      else
        Option.bind (user_message (os_stack OS) formatted) (\<lambda>msg.
        Option.bind (case now of (hour, minute, sec, ms) \<Rightarrow>
            if lg_addTs l then time_text (os_stack OS) hour minute sec ms else Some []) (\<lambda>time.
        Option.bind (format_pieces (log_pieces l logLevel module file function line time tid msg) 0
            (replicate MaxBufSize CHR 0x00)) (\<lambda>(len, buf).
        Option.bind (read_array buf) (\<lambda>formattedMsg.
          let (written, writes, c) = tryWriteToConfiguredLogFile OS formattedMsg c
          in if written then Some (ToFile, writes, c)
             else if enable_syslog then Some (ToSyslog (syslog_level logLevel) formattedMsg, writes, c)
             else Some (ToStderr formattedMsg, writes, c))))))"

text \<open>
  The macro every component logs with: the format arguments (\<open>args\<close>, which may throw) are evaluated
  only when the level is enabled.
\<close>

definition FIREBOLT_LOG ::
    "os_api \<Rightarrow> bool \<Rightarrow> nat \<times> nat \<times> nat \<times> nat \<Rightarrow> nat \<Rightarrow> LogLevel \<Rightarrow> string \<Rightarrow> string \<Rightarrow> string \<Rightarrow> nat \<Rightarrow>
     exn + string option \<Rightarrow> Logger \<Rightarrow> PathCache \<Rightarrow> exn + (log_sink \<times> (string \<times> string \<times> string) list \<times> PathCache) option" where
  "FIREBOLT_LOG OS enable_syslog now tid level module file function line args l c =
     (if isLogLevelEnabled level l
      then exn_bind args (\<lambda>formatted. Inr (Logger_log OS enable_syslog now tid level module file function line formatted l c))
      else Inr (Some (Discarded, [], c)))"

definition FIREBOLT_LOG_ERROR ::
    "os_api \<Rightarrow> bool \<Rightarrow> nat \<times> nat \<times> nat \<times> nat \<Rightarrow> nat \<Rightarrow> string \<Rightarrow> string \<Rightarrow> string \<Rightarrow> nat \<Rightarrow>
     exn + string option \<Rightarrow> Logger \<Rightarrow> PathCache \<Rightarrow> exn + (log_sink \<times> (string \<times> string \<times> string) list \<times> PathCache) option" where
  "FIREBOLT_LOG_ERROR OS enable_syslog now tid = FIREBOLT_LOG OS enable_syslog now tid Lvl_Error"

definition FIREBOLT_LOG_WARNING ::
    "os_api \<Rightarrow> bool \<Rightarrow> nat \<times> nat \<times> nat \<times> nat \<Rightarrow> nat \<Rightarrow> string \<Rightarrow> string \<Rightarrow> string \<Rightarrow> nat \<Rightarrow>
     exn + string option \<Rightarrow> Logger \<Rightarrow> PathCache \<Rightarrow> exn + (log_sink \<times> (string \<times> string \<times> string) list \<times> PathCache) option" where
  "FIREBOLT_LOG_WARNING OS enable_syslog now tid = FIREBOLT_LOG OS enable_syslog now tid Lvl_Warning"

definition FIREBOLT_LOG_NOTICE ::
    "os_api \<Rightarrow> bool \<Rightarrow> nat \<times> nat \<times> nat \<times> nat \<Rightarrow> nat \<Rightarrow> string \<Rightarrow> string \<Rightarrow> string \<Rightarrow> nat \<Rightarrow>
     exn + string option \<Rightarrow> Logger \<Rightarrow> PathCache \<Rightarrow> exn + (log_sink \<times> (string \<times> string \<times> string) list \<times> PathCache) option" where
  "FIREBOLT_LOG_NOTICE OS enable_syslog now tid = FIREBOLT_LOG OS enable_syslog now tid Lvl_Notice"

definition FIREBOLT_LOG_INFO ::
    "os_api \<Rightarrow> bool \<Rightarrow> nat \<times> nat \<times> nat \<times> nat \<Rightarrow> nat \<Rightarrow> string \<Rightarrow> string \<Rightarrow> string \<Rightarrow> nat \<Rightarrow>
     exn + string option \<Rightarrow> Logger \<Rightarrow> PathCache \<Rightarrow> exn + (log_sink \<times> (string \<times> string \<times> string) list \<times> PathCache) option" where
  "FIREBOLT_LOG_INFO OS enable_syslog now tid = FIREBOLT_LOG OS enable_syslog now tid Lvl_Info"

definition FIREBOLT_LOG_DEBUG ::
    "os_api \<Rightarrow> bool \<Rightarrow> nat \<times> nat \<times> nat \<times> nat \<Rightarrow> nat \<Rightarrow> string \<Rightarrow> string \<Rightarrow> string \<Rightarrow> nat \<Rightarrow>
     exn + string option \<Rightarrow> Logger \<Rightarrow> PathCache \<Rightarrow> exn + (log_sink \<times> (string \<times> string \<times> string) list \<times> PathCache) option" where
  "FIREBOLT_LOG_DEBUG OS enable_syslog now tid = FIREBOLT_LOG OS enable_syslog now tid Lvl_Debug"

section \<open>The buffers are never overrun\<close>

definition INT_MAX :: nat where "INT_MAX = 2 ^ 31 - 1"

text \<open>What the two smaller arrays are meant to hold.\<close>

definition intended_message :: "string option \<Rightarrow> string" where
  "intended_message formatted =
     (case formatted of
        None \<Rightarrow> []
      | Some text \<Rightarrow>
          let msg = take (MaxBufSize - 1) text
          in c_str (if msg \<noteq> [] \<and> last msg = CHR 0x0A then butlast msg else msg))"

definition intended_time :: "nat \<Rightarrow> nat \<Rightarrow> nat \<Rightarrow> nat \<Rightarrow> string" where
  "intended_time hour minute sec ms =
     take 15 (zero_pad 2 hour @ '':'' @ zero_pad 2 minute @ '':'' @ zero_pad 2 sec @ ''.'' @ zero_pad 3 ms)"

text \<open>The state of the line's buffer after some pieces: \<open>len\<close> bytes of text, a zero byte, the array's size kept.\<close>

definition buffer_ok :: "string \<Rightarrow> u64 \<Rightarrow> string \<Rightarrow> bool" where
  "buffer_ok text len buf \<longleftrightarrow> length buf = MaxBufSize
     \<and> unat len = min (length text) (MaxBufSize - 1) \<and> take (unat len) buf = take (unat len) text \<and> buf ! unat len = CHR 0x00"

lemma unat_of_length: "n \<le> INT_MAX \<Longrightarrow> unat (of_nat n :: u64) = n"
  by (simp add: unat_of_nat INT_MAX_def)

lemma unat_sizeof [simp]: "unat sizeof_msg = 1024"
  by (simp add: sizeof_msg_def MaxBufSize_def)

text \<open>The difference \<open>sizeof(formattedMsg) - len\<close> does not wrap while \<open>len\<close> is inside the buffer.\<close>

lemma unat_room:
  assumes "unat (len :: u64) \<le> 1023"
  shows "unat (sizeof_msg - len) = 1024 - unat len" "unat (sizeof_msg - len - 1) = 1023 - unat len"
proof -
  have "len \<le> sizeof_msg" using assms by (simp add: word_le_nat_alt)
  then show r: "unat (sizeof_msg - len) = 1024 - unat len" by (simp add: unat_sub)
  then have "1 \<le> sizeof_msg - len" using assms by (simp add: word_le_nat_alt)
  with r show "unat (sizeof_msg - len - 1) = 1023 - unat len" by (simp add: unat_sub)
qed

lemma unat_snAppend:
  assumes len: "unat (len :: u64) \<le> 1023" and n: "n \<le> INT_MAX"
  shows "unat (snAppend len (int n)) = min (unat len + n) 1023"
proof (cases "n > 0 \<and> unat len < 1023")
  case True
  let ?d = "min (of_nat n) (sizeof_msg - len - 1) :: u64"
  have d: "unat ?d = min n (1023 - unat len)"
    using unat_room(2)[OF len] unat_of_length[OF n] by (simp add: min_def word_le_nat_alt)
  then have "unat (len + ?d) = unat len + min n (1023 - unat len)"
    using len by (subst unat_add_lem[THEN iffD1]) simp_all
  moreover have "len < sizeof_msg - 1" using True unat_room(2)[of 0] by (simp add: word_less_nat_alt)
  ultimately show ?thesis using True by (simp add: snAppend_def) arith
next
  case False
  have "\<not> len < sizeof_msg - 1" if "unat len = 1023"
    using that unat_room(2)[of 0] by (simp add: word_less_nat_alt)
  with False len show ?thesis by (cases "n = 0") (auto simp: snAppend_def)
qed

lemma snprintf_fits:
  assumes "unat off + unat sz \<le> length buf" and "sz \<noteq> 0"
  shows "snprintf_at buf off sz text = Some (int (length text),
    take (unat off) buf @ take (unat sz - 1) text @ CHR 0x00 # drop (unat off + length (take (unat sz - 1) text) + 1) buf)"
proof -
  have "unat sz > 0" using assms(2) by (simp add: unat_gt_0)
  with assms show ?thesis by (simp add: snprintf_at_def Let_def)
qed

lemma format_step:
  assumes "buffer_ok text len buf" and n: "length piece \<le> INT_MAX"
  shows "\<exists>buf'. snprintf_at buf len (sizeof_msg - len) piece = Some (int (length piece), buf')
    \<and> buffer_ok (text @ piece) (snAppend len (int (length piece))) buf'"
proof -
  let ?n = "unat len" and ?l = "unat (snAppend len (int (length piece)))"
  have b: "length buf = 1024" "?n = min (length text) 1023" "take ?n buf = take ?n text"
    using assms(1) by (auto simp: buffer_ok_def MaxBufSize_def)
  have len: "?n \<le> 1023" using b(2) by simp
  let ?w = "take (1023 - ?n) piece"
  let ?buf = "take ?n buf @ ?w @ CHR 0x00 # drop (?n + length ?w + 1) buf"
  have room: "unat (sizeof_msg - len) = 1024 - ?n" "sizeof_msg - len \<noteq> 0"
    using unat_room(1)[OF len] len unat_gt_0[of "sizeof_msg - len"] by simp_all
  have l: "?l = min (length (text @ piece)) 1023" "?l = ?n + length ?w"
    unfolding unat_snAppend[OF len n] using b(2) by auto
  have "take ?l ?buf = take ?n text @ ?w"
    using b len by (simp add: l(2) min_absorb2) (simp add: min_def)
  also have "\<dots> = take ?l (text @ piece)"
    using b(2) l by (cases "length text \<le> 1023") (auto simp: min_def)
  finally have "take ?l ?buf = take ?l (text @ piece)" .
  moreover have "?buf ! ?l = CHR 0x00" using b(1) len by (simp add: l(2) nth_append)
  moreover have "length ?buf = 1024" using b(1) len by simp
  moreover have "snprintf_at buf len (sizeof_msg - len) piece = Some (int (length piece), ?buf)"
    using snprintf_fits[of len "sizeof_msg - len" buf piece] b(1) len room by simp
  ultimately show ?thesis
    using l(1) by (simp add: buffer_ok_def MaxBufSize_def)
qed

lemma format_pieces_ok:
  "buffer_ok acc len buf \<Longrightarrow> \<forall>p \<in> set pieces. length p \<le> INT_MAX \<Longrightarrow>
     \<exists>len' buf'. format_pieces pieces len buf = Some (len', buf') \<and> buffer_ok (acc @ concat pieces) len' buf'"
proof (induction pieces arbitrary: acc len buf)
  case Nil
  then show ?case by simp
next
  case (Cons p ps)
  from format_step[OF Cons.prems(1), of p] Cons.IH[of "acc @ p"] Cons.prems(2) show ?case by auto
qed

lemma c_str_no_nul: "CHR 0x00 \<notin> set s \<Longrightarrow> c_str s = s"
  by (auto simp: c_str_def takeWhile_eq_all_conv)

lemma c_str_nul: "CHR 0x00 \<notin> set (c_str s)"
  by (auto simp: c_str_def dest: set_takeWhileD)

lemma c_str_take: "i < length s \<Longrightarrow> s ! i = CHR 0x00 \<Longrightarrow> CHR 0x00 \<notin> set (take i s) \<Longrightarrow> c_str s = take i s"
proof -
  assume i: "i < length s" "s ! i = CHR 0x00" "CHR 0x00 \<notin> set (take i s)"
  have "c_str (take i s @ CHR 0x00 # drop (Suc i) s) = take i s"
    using i(3) by (subst c_str_def, subst takeWhile_append2) auto
  then show ?thesis using id_take_nth_drop[OF i(1)] i(2) by simp
qed

lemma buffer_ok_read:
  assumes "buffer_ok text len buf" and "CHR 0x00 \<notin> set text"
  shows "read_array buf = Some (take (MaxBufSize - 1) text)"
proof -
  let ?n = "unat len"
  have b: "?n < length buf" "buf ! ?n = CHR 0x00" "take ?n buf = take ?n text" "?n = min (length text) (MaxBufSize - 1)"
    using assms(1) by (auto simp: buffer_ok_def MaxBufSize_def)
  have "CHR 0x00 \<notin> set (take ?n text)" using assms(2) by (meson in_set_takeD)
  then have "c_str buf = take ?n text" using c_str_take[OF b(1,2)] b(3) by simp
  moreover have "CHR 0x00 \<in> set buf" using nth_mem[OF b(1)] b(2) by simp
  ultimately show ?thesis using b(4) by (simp add: read_array_def min_def)
qed

section \<open>Where a line may be written\<close>

lemma rfind_split:
  "str_rfind_char c s = Some i \<longleftrightarrow> (\<exists>a b. s = a @ c # b \<and> c \<notin> set b \<and> i = length a)"
proof
  assume "str_rfind_char c s = Some i"
  then obtain k where k: "find_idx (\<lambda>x. x = c) (rev s) = Some k" and i: "i = length s - 1 - k"
    by (auto simp: str_rfind_char_def)
  then have k': "k < length s" "rev s ! k = c" by (auto simp: find_idx_Some)
  have "rev s = take k (rev s) @ c # drop (Suc k) (rev s)"
    using id_take_nth_drop[of k "rev s"] k' by simp
  then have "s = rev (drop (Suc k) (rev s)) @ c # rev (take k (rev s))"
    by (metis append.assoc append_Cons append_Nil rev.simps(2) rev_append rev_rev_ident)
  moreover have "c \<notin> set (rev (take k (rev s)))"
    using find_idx_take[OF k] by auto
  moreover have "i = length (rev (drop (Suc k) (rev s)))" using i by simp
  ultimately show "\<exists>a b. s = a @ c # b \<and> c \<notin> set b \<and> i = length a" by blast
next
  assume "\<exists>a b. s = a @ c # b \<and> c \<notin> set b \<and> i = length a"
  then obtain a b where "s = a @ c # b" "c \<notin> set b" "i = length a" by blast
  moreover from this have "find_idx (\<lambda>x. x = c) (rev b) = None" by (auto simp: find_idx_None)
  ultimately show "str_rfind_char c s = Some i" by (simp add: str_rfind_char_def find_idx_append)
qed

text \<open>
  The specification: the directory and the name that a value of the environment variable
  designates, or nothing when the value is refused.
\<close>

definition split_path :: "string \<Rightarrow> string \<times> string" where
  "split_path path = (if last_slash path = 0 then ''/'' else take (last_slash path) path, drop (last_slash path + 1) path)"

definition log_target :: "os_api \<Rightarrow> string \<Rightarrow> (string \<times> string) option" where
  "log_target OS path =
     (if path = [] \<or> hd path \<noteq> path_separator \<or> str_find ''../'' path \<noteq> None then None
      else if snd (split_path path) \<in> {[], ''.'', ''..''} then None
      else map_option (\<lambda>d. (d, snd (split_path path))) (os_realpath OS (fst (split_path path))))"

definition join_path :: "string \<Rightarrow> string \<Rightarrow> string" where
  "join_path d n = (if last d \<noteq> path_separator then d @ [path_separator] else d) @ n"

text \<open>What POSIX says of \<open>realpath\<close>: an absolute path, with no final separator unless it is the root.\<close>

definition realpath_documented :: "os_api \<Rightarrow> bool" where
  "realpath_documented OS \<longleftrightarrow> (\<forall>d r. os_realpath OS d = Some r \<longrightarrow>
     r = ''/'' \<or> r \<noteq> [] \<and> hd r = path_separator \<and> last r \<noteq> path_separator)"

text \<open>The cache holds the resolution of the value it was made for, or nothing.\<close>

definition cache_ok :: "os_api \<Rightarrow> PathCache \<Rightarrow> bool" where
  "cache_ok OS c \<longleftrightarrow> cachedEnvValue c = []
     \<or> (\<exists>d n. log_target OS (cachedEnvValue c) = Some (d, n) \<and> cachedCanonicalPath c = join_path d n)"

lemma split_name:
  assumes "path \<noteq> []" and "hd path = path_separator"
  shows "path_separator \<notin> set (snd (split_path path))"
proof -
  obtain i where i: "str_rfind_char path_separator path = Some i"
  proof (cases "str_rfind_char path_separator path")
    case None
    then have "path_separator \<notin> set path" by (auto simp: str_rfind_char_def find_idx_None)
    with assms show ?thesis by (metis hd_in_set)
  qed (use that in blast)
  from i obtain a b where "path = a @ path_separator # b" "path_separator \<notin> set b" "i = length a"
    unfolding rfind_split by blast
  with i show ?thesis by (simp add: split_path_def last_slash_def)
qed

lemma log_target_name:
  assumes "log_target OS path = Some (d, n)"
  shows "path_separator \<notin> set n" "n \<noteq> []" "n \<noteq> ''.''" "n \<noteq> ''..''"
  using assms split_name[of path] by (auto simp: log_target_def split: if_splits)

lemma join_split:
  assumes "d = ''/'' \<or> d \<noteq> [] \<and> last d \<noteq> path_separator" and "path_separator \<notin> set n" and "n \<noteq> []"
  shows "str_rfind_char path_separator (join_path d n) = Some (if d = ''/'' then 0 else length d)"
    and "(if (if d = ''/'' then 0 else length d) = 0 then ''/'' else take (if d = ''/'' then 0 else length d) (join_path d n)) = d"
    and "drop (Suc (if d = ''/'' then 0 else length d)) (join_path d n) = n"
proof -
  have "join_path d n = (if d = ''/'' then [] else d) @ path_separator # n"
    using assms(1) by (auto simp: join_path_def path_separator_def)
  with assms show "str_rfind_char path_separator (join_path d n) = Some (if d = ''/'' then 0 else length d)"
    "(if (if d = ''/'' then 0 else length d) = 0 then ''/'' else take (if d = ''/'' then 0 else length d) (join_path d n)) = d"
    "drop (Suc (if d = ''/'' then 0 else length d)) (join_path d n) = n"
    by (auto simp: rfind_split)
qed

lemma resolve_fresh:
  assumes g: "os_getenv OS ''FIREBOLT_TRANSPORT_LOG_FILE'' = Some path"
    and path: "path \<noteq> []" "cachedEnvValue c \<noteq> path" "length path < PATH_MAX"
  shows "resolveLogFilePathFromEnvironment OS c =
    (case log_target OS path of
       None \<Rightarrow> ([], c)
     | Some (d, n) \<Rightarrow>
         if length (join_path d n) \<ge> PATH_MAX then ([], c)
         else (join_path d n, c\<lparr>cachedEnvValue := path, cachedCanonicalPath := join_path d n\<rparr>))"
proof (cases "hd path = path_separator \<and> str_find ''../'' path = None")
  case True
  let ?n = "snd (split_path path)" and ?p = "fst (split_path path)"
  have "str_find_char path_separator ?n 0 = None"
    using split_name[OF path(1)] True by (simp add: str_find_char_None)
  moreover have "?n = drop (last_slash path + 1) path" "?p = (if last_slash path = 0 then ''/'' else take (last_slash path) path)"
    by (simp_all add: split_path_def)
  ultimately show ?thesis
    using g path True unfolding resolveLogFilePathFromEnvironment_def log_target_def join_path_def Let_def
    by (cases "os_realpath OS ?p") simp_all
qed (use g path in \<open>auto simp: resolveLogFilePathFromEnvironment_def log_target_def\<close>)

lemma resolve_spec:
  assumes "cache_ok OS c" and "resolveLogFilePathFromEnvironment OS c = (p, c')"
  shows "cache_ok OS c'"
    and "p \<noteq> [] \<Longrightarrow> \<exists>path d n. os_getenv OS ''FIREBOLT_TRANSPORT_LOG_FILE'' = Some path
      \<and> log_target OS path = Some (d, n) \<and> p = join_path d n"
proof -
  let ?g = "os_getenv OS ''FIREBOLT_TRANSPORT_LOG_FILE''"
  have "cache_ok OS c' \<and> (p \<noteq> [] \<longrightarrow> (\<exists>path d n. ?g = Some path \<and> log_target OS path = Some (d, n) \<and> p = join_path d n))"
  proof (cases ?g)
    case None
    with assms show ?thesis by (auto simp: resolveLogFilePathFromEnvironment_def cache_ok_def)
  next
    case (Some path)
    consider "path = []" | "path \<noteq> []" "cachedEnvValue c = path \<or> length path \<ge> PATH_MAX"
      | "path \<noteq> []" "cachedEnvValue c \<noteq> path" "length path < PATH_MAX" by force
    then show ?thesis
    proof cases
      case 1
      with assms Some show ?thesis by (auto simp: resolveLogFilePathFromEnvironment_def cache_ok_def)
    next
      case 2
      with assms Some show ?thesis by (auto simp: resolveLogFilePathFromEnvironment_def cache_ok_def split: if_splits)
    next
      case 3
      with assms Some show ?thesis
        by (auto simp: resolve_fresh cache_ok_def split: option.splits if_splits)
    qed
  qed
  then show "cache_ok OS c'" and "p \<noteq> [] \<Longrightarrow> \<exists>path d n. ?g = Some path
      \<and> log_target OS path = Some (d, n) \<and> p = join_path d n" by blast+
qed

section \<open>Properties\<close>

text \<open>A system with a writable \<open>/tmp\<close> whose environment asks for \<open>/tmp/fb.log\<close> and the level \<open>WARN\<close>.\<close>

definition ex_os :: os_api where
  "ex_os = \<lparr>os_getenv = (\<lambda>n. if n = ''FIREBOLT_TRANSPORT_LOG_FILE'' then Some ''/tmp/fb.log''
                            else if n = env_level_name then Some ''WARN'' else None),
     os_realpath = (\<lambda>d. if d = ''/tmp'' then Some ''/private/tmp'' else None),
     os_open_dir = (\<lambda>_. 3), os_openat = (\<lambda>_ _. 4), os_write = (\<lambda>_ _ s. int (length s)), os_eintr = False,
     os_stack = (\<lambda>_. CHR ''?'')\<rparr>"

definition cache_empty :: PathCache where
  "cache_empty = \<lparr>cachedEnvValue = [], cachedCanonicalPath = []\<rparr>"

text \<open>
  C27. The file a log line goes to: with \<open>realpath\<close> as POSIX documents it, every \<open>write\<close> is to a
  name in the canonical form of the directory that the environment variable names, and the name
  is the last component of its value: not empty, not a dot entry, without separator. So no
  value of the variable makes the logger write outside that directory. The per-thread cache
  keeps this.
\<close>

theorem log_file_confined:
  assumes "realpath_documented OS" and "cache_ok OS c"
    and "tryWriteToConfiguredLogFile OS message c = (ok, writes, c')" and "(d, n, data) \<in> set writes"
  shows "cache_ok OS c' \<and> data = message @ [CHR 0x0A]
    \<and> n \<noteq> [] \<and> n \<noteq> ''.'' \<and> n \<noteq> ''..'' \<and> path_separator \<notin> set n
    \<and> (\<exists>path. os_getenv OS ''FIREBOLT_TRANSPORT_LOG_FILE'' = Some path \<and> hd path = path_separator
         \<and> os_realpath OS (fst (split_path path)) = Some d \<and> n = snd (split_path path))"
proof -
  obtain p c2 where r: "resolveLogFilePathFromEnvironment OS c = (p, c2)" by fastforce
  then have "p \<noteq> []" and c': "c' = c2"
    using assms(3,4) by (auto simp: tryWriteToConfiguredLogFile_def Let_def split: if_splits option.splits)
  then obtain path d' n' where t: "os_getenv OS ''FIREBOLT_TRANSPORT_LOG_FILE'' = Some path"
      "log_target OS path = Some (d', n')" "p = join_path d' n'"
    using resolve_spec(2)[OF assms(2) r] by blast
  then have rp: "os_realpath OS (fst (split_path path)) = Some d'" "n' = snd (split_path path)" "hd path = path_separator"
    by (auto simp: log_target_def split: if_splits)
  then have "d' = ''/'' \<or> d' \<noteq> [] \<and> last d' \<noteq> path_separator"
    using assms(1) unfolding realpath_documented_def by blast
  note j = join_split[OF this log_target_name(1,2)[OF t(2)]]
  have "d = d'" "n = n'" "data = message @ [CHR 0x0A]"
    using assms(3,4) j unfolding tryWriteToConfiguredLogFile_def r t(3)
    by (auto simp: Let_def split: if_splits)
  then show ?thesis
    using resolve_spec(1)[OF assms(2) r] c' log_target_name[OF t(2)] t(1) rp by auto
qed

theorem log_file_confined_witness:
  "\<exists>c'. tryWriteToConfiguredLogFile ex_os ''hello'' cache_empty
          = (True, [(''/private/tmp'', ''fb.log'', ''hello'' @ [CHR 0x0A])], c') \<and> cache_ok ex_os c'"
proof -
  have rp: "realpath_documented ex_os"
    by (auto simp: realpath_documented_def ex_os_def path_separator_def split: if_splits)
  have c: "cache_ok ex_os cache_empty" by (simp add: cache_ok_def cache_empty_def)
  obtain c' where r: "tryWriteToConfiguredLogFile ex_os ''hello'' cache_empty
      = (True, [(''/private/tmp'', ''fb.log'', ''hello'' @ [CHR 0x0A])], c')"
    by (simp add: tryWriteToConfiguredLogFile_def resolveLogFilePathFromEnvironment_def ex_os_def cache_empty_def
        PATH_MAX_def path_separator_def last_slash_def str_rfind_char_def str_find_char_def Let_def env_level_name_def)
  show ?thesis
    using log_file_confined [OF rp c r, of "''/private/tmp''" "''fb.log''" "''hello'' @ [CHR 0x0A]"] r by auto
qed

lemma digits_no_nul: "CHR 0x00 \<notin> set (digits n)"
proof (induction n rule: digits.induct)
  case (1 n)
  have "char_of (48 + k) \<noteq> CHR 0x00" if "k < 10" for k :: nat
  proof
    assume "char_of (48 + k) = CHR 0x00"
    then have "(of_char (char_of (48 + k)) :: nat) = of_char CHR 0x00" by simp
    with that show False by simp
  qed
  then have c: "n < 10 \<Longrightarrow> CHR 0x00 \<noteq> char_of (48 + n)" "CHR 0x00 \<noteq> char_of (48 + n mod 10)"
    by (metis, metis mod_less_divisor zero_less_numeral)
  show ?case
  proof (cases "n < 10")
    case True
    then show ?thesis using c(1) by (subst digits.simps) simp
  next
    case False
    then show ?thesis using 1 c(2) by (subst digits.simps) simp
  qed
qed

lemma time_no_nul: "CHR 0x00 \<notin> set (intended_time a b d e)"
  using digits_no_nul by (auto simp: intended_time_def zero_pad_def dest!: in_set_takeD)

lemma read_array_prefix: "read_array (a @ CHR 0x00 # b) = Some (c_str a)"
proof (cases "CHR 0x00 \<in> set a")
  case True
  then show ?thesis by (simp add: read_array_def c_str_def takeWhile_append1[OF True])
next
  case False
  then have "takeWhile (\<lambda>c. c \<noteq> CHR 0x00) (a @ CHR 0x00 # b) = a" by (subst takeWhile_append2) auto
  with False show ?thesis by (simp add: read_array_def c_str_def c_str_no_nul[unfolded c_str_def])
qed

lemma length_stack [simp]: "length (stack_array stack n) = n"
  by (simp add: stack_array_def)

lemma snprintf_read:
  assumes "unat sz = n" and "n > 0"
  shows "Option.bind (snprintf_at (stack_array stack n) 0 sz text) (\<lambda>(_, buf). read_array buf) = Some (c_str (take (n - 1) text))"
proof -
  have "sz \<noteq> 0" using assms by auto
  then show ?thesis using assms snprintf_fits[of 0 sz "stack_array stack n" "text"] by (simp add: read_array_prefix)
qed

lemma time_text_ok: "time_text stack h mi s ms = Some (intended_time h mi s ms)"
  using c_str_no_nul[OF time_no_nul, of h mi s ms]
  unfolding time_text_def intended_time_def by (subst snprintf_read) simp_all

lemma user_message_error: "user_message stack None = Some []"
proof -
  obtain x xs where "stack_array stack MaxBufSize = x # xs"
    by (metis length_stack list.exhaust MaxBufSize_def list.size(3) zero_neq_numeral)
  then show ?thesis
    using read_array_prefix[of "[]" xs] by (simp add: user_message_def store_at_def c_str_def)
qed

text \<open>The zero byte lands behind the text, and a newline there is overwritten.\<close>

lemma user_message_text:
  assumes n: "length text \<le> INT_MAX"
  shows "user_message stack (Some text) = Some (intended_message (Some text))"
proof -
  let ?w = "take 1023 text" and ?msg = "stack_array stack MaxBufSize"
  define rest where "rest = drop (length ?w + 1) ?msg"
  define pos :: u64 where "pos = (if int (length text) > 0
      then (if (of_int (int (length text)) :: u64) \<ge> of_nat MaxBufSize then of_nat MaxBufSize - 1 else of_int (int (length text))) else 0)"
  have sp: "snprintf_at ?msg 0 (of_nat MaxBufSize) text = Some (int (length text), ?w @ CHR 0x00 # rest)"
    by (simp add: snprintf_fits MaxBufSize_def rest_def)
  have pos: "unat pos = length ?w"
    using unat_of_length[OF n] by (auto simp: pos_def MaxBufSize_def word_le_nat_alt)
  then have st: "store_at (?w @ CHR 0x00 # rest) pos CHR 0x00 = Some (?w @ CHR 0x00 # rest)"
    by (simp add: store_at_def del: length_take)
  have "user_message stack (Some text) = Option.bind (if pos > 0
      then Option.bind (load_at (?w @ CHR 0x00 # rest) (pos - 1)) (\<lambda>c.
             if c = CHR 0x0A then store_at (?w @ CHR 0x00 # rest) (pos - 1) CHR 0x00 else Some (?w @ CHR 0x00 # rest))
      else Some (?w @ CHR 0x00 # rest)) read_array"
    unfolding user_message_def option.case sp bind.bind_lunit case_prod_conv pos_def[symmetric] Let_def st by simp
  also have "\<dots> = Some (intended_message (Some text))"
  proof (cases "?w = []")
    case True
    then have "\<not> pos > 0" using pos by (simp add: word_gt_0 unat_eq_zero)
    with True show ?thesis using read_array_prefix[of "[]" rest] by (simp add: intended_message_def MaxBufSize_def)
  next
    case False
    then obtain v c where w: "?w = v @ [c]" by (metis rev_exhaust)
    have gt: "pos > 0" using pos False by (simp add: word_gt_0 unat_eq_zero[symmetric] del: length_take)
    then have p1: "unat (pos - 1) = length v" using pos w unat_minus_one[of pos] by (simp add: word_gt_0)
    have "load_at (?w @ CHR 0x00 # rest) (pos - 1) = Some c"
      "store_at (?w @ CHR 0x00 # rest) (pos - 1) CHR 0x00 = Some (v @ CHR 0x00 # CHR 0x00 # rest)"
      unfolding w by (simp_all add: load_at_def store_at_def p1)
    with gt show ?thesis
      using read_array_prefix[of v "CHR 0x00 # rest"] read_array_prefix[of "v @ [c]" rest]
      by (cases "c = CHR 0x0A") (simp_all add: intended_message_def MaxBufSize_def w)
  qed
  finally show ?thesis .
qed

lemma user_message_ok:
  assumes "case formatted of Some text \<Rightarrow> length text \<le> INT_MAX | None \<Rightarrow> True"
  shows "user_message stack formatted = Some (intended_message formatted)"
  using assms user_message_text user_message_error
  by (cases formatted) (simp_all add: intended_message_def)

lemma level_name_no_nul: "CHR 0x00 \<notin> set (level_name v)"
  by (cases v) auto

lemma intended_message_no_nul: "CHR 0x00 \<notin> set (intended_message m)"
  by (cases m) (auto simp: intended_message_def c_str_nul Let_def)

lemma pieces_no_nul:
  assumes "CHR 0x00 \<notin> set time" and "CHR 0x00 \<notin> set msg"
  shows "CHR 0x00 \<notin> set (concat (log_pieces l v m f fn n time tid msg))"
  using assms by (auto simp: log_pieces_def c_str_nul digits_no_nul level_name_no_nul)

lemma log_disabled:
  "\<not> isLogLevelEnabled v l \<Longrightarrow> Logger_log OS sys now tid v m f fn line formatted l c = Some (Discarded, [], c)"
  by (auto simp: Logger_log_def isLogLevelEnabled_def not_le)

text \<open>
  The test of the level in the macro only saves work: when evaluating the arguments does not
  throw, logging through the macro is \<open>Logger::log\<close> itself; at a level that is not enabled the
  arguments are not even evaluated, so they cannot throw there.
\<close>

lemma macro_equals_log:
  "FIREBOLT_LOG OS sys now tid v m f fn line (Inr formatted) l c = Inr (Logger_log OS sys now tid v m f fn line formatted l c)
   \<and> ((\<exists>e. FIREBOLT_LOG OS sys now tid v m f fn line args l c = Inl e) \<longleftrightarrow> isLogLevelEnabled v l \<and> (\<exists>e. args = Inl e))"
  by (cases args) (auto simp: FIREBOLT_LOG_def log_disabled)

lemmas log_macro_defs = FIREBOLT_LOG_ERROR_def FIREBOLT_LOG_WARNING_def FIREBOLT_LOG_NOTICE_def FIREBOLT_LOG_INFO_def FIREBOLT_LOG_DEBUG_def

text \<open>
  The macros are ordered by severity: where a less severe one evaluates its arguments, every more
  severe one does.
\<close>

lemma log_macros_cascade:
  assumes "FIREBOLT_LOG_DEBUG OS sys now tid m f fn line (Inl e) l c = Inl e"
  shows "FIREBOLT_LOG_INFO OS sys now tid m f fn line (Inl e) l c = Inl e"
    and "FIREBOLT_LOG_NOTICE OS sys now tid m f fn line (Inl e) l c = Inl e"
    and "FIREBOLT_LOG_WARNING OS sys now tid m f fn line (Inl e) l c = Inl e"
    and "FIREBOLT_LOG_ERROR OS sys now tid m f fn line (Inl e) l c = Inl e"
  using assms
  by (auto simp: log_macro_defs FIREBOLT_LOG_def isLogLevelEnabled_def less_eq_LogLevel_def split: if_splits)

text \<open>
  C26. Formatting a line touches no byte outside the arrays \<open>msg\<close>, \<open>timeBuf\<close> and \<open>formattedMsg\<close>,
  with the sizes computed in \<open>size_t\<close> as the code computes them and whatever the uninitialised
  arrays held before: as long as what each conversion yields can be counted in an \<open>int\<close>, \<open>log\<close>
  returns, drops the message exactly when its level is not enabled, and otherwise emits the first
  1023 bytes of the intended line (the message cut to 1023 bytes and without a final newline).
\<close>

theorem log_line_in_bounds:
  fixes time :: string
  assumes "time = (if lg_addTs l then intended_time h mi s ms else [])"
    and "case formatted of Some text \<Rightarrow> length text \<le> INT_MAX | None \<Rightarrow> True"
    and "\<forall>p \<in> set (log_pieces l v m f fn line time tid (intended_message formatted)). length p \<le> INT_MAX"
  shows "\<exists>sink writes c'. Logger_log OS sys (h, mi, s, ms) tid v m f fn line formatted l c = Some (sink, writes, c')
    \<and> (sink = Discarded \<longleftrightarrow> \<not> isLogLevelEnabled v l)
    \<and> (\<forall>t k. sink = ToStderr t \<or> sink = ToSyslog k t \<longrightarrow>
         t = take 1023 (concat (log_pieces l v m f fn line time tid (intended_message formatted))))"
proof (cases "isLogLevelEnabled v l")
  case False
  then show ?thesis by (simp add: log_disabled)
next
  case True
  let ?pieces = "log_pieces l v m f fn line time tid (intended_message formatted)"
  have "buffer_ok [] 0 (replicate MaxBufSize CHR 0x00)"
    by (simp add: buffer_ok_def MaxBufSize_def)
  from format_pieces_ok[OF this assms(3)]
  obtain len buf where b: "format_pieces ?pieces 0 (replicate MaxBufSize CHR 0x00) = Some (len, buf)"
      "buffer_ok (concat ?pieces) len buf" by auto
  have "CHR 0x00 \<notin> set time" using assms(1) time_no_nul by simp
  then have r: "read_array buf = Some (take 1023 (concat ?pieces))"
    using buffer_ok_read[OF b(2) pieces_no_nul[OF _ intended_message_no_nul]] by (simp add: MaxBufSize_def)
  have t: "(if lg_addTs l then time_text (os_stack OS) h mi s ms else Some []) = Some time"
    using assms(1) by (simp add: time_text_ok)
  have en: "\<not> (\<not> lg_loggingEnabled l \<or> v > lg_logLevel l)" using True by (auto simp: isLogLevelEnabled_def)
  have "Logger_log OS sys (h, mi, s, ms) tid v m f fn line formatted l c =
      (let (written, writes, c) = tryWriteToConfiguredLogFile OS (take 1023 (concat ?pieces)) c
       in if written then Some (ToFile, writes, c)
          else if sys then Some (ToSyslog (syslog_level v) (take 1023 (concat ?pieces)), writes, c)
          else Some (ToStderr (take 1023 (concat ?pieces)), writes, c))"
    unfolding Logger_log_def if_not_P[OF en] user_message_ok[OF assms(2)] bind.bind_lunit case_prod_conv t b(1) r by simp
  then show ?thesis using True by (auto split: prod.splits)
qed

theorem log_line_in_bounds_witness:
  "\<exists>writes c'. Logger_log (ex_os\<lparr>os_open_dir := (\<lambda>_. - 1)\<rparr>) False (7, 5, 9, 42) 11 Lvl_Error ''Gateway'' ''gateway.cpp'' ''connect'' 12
       (Some (''hi'' @ [CHR 0x0A])) Logger_init cache_empty
     = Some (ToStderr ''07:05:09.042: [FireboltNative|Gateway|Error][connect()]<tid:11>: hi'', writes, c')"
proof -
  let ?os = "ex_os\<lparr>os_open_dir := (\<lambda>_. - 1)\<rparr>" and ?f = "Some (''hi'' @ [CHR 0x0A])"
  let ?p = "log_pieces Logger_init Lvl_Error ''Gateway'' ''gateway.cpp'' ''connect'' 12 (intended_time 7 5 9 42) 11 (intended_message ?f)"
  have t: "intended_time 7 5 9 42 = (if lg_addTs Logger_init then intended_time 7 5 9 42 else [])"
    by (simp add: Logger_init_def)
  have p: "?p = [''07:05:09.042: '', ''[FireboltNative|Gateway|Error]'', ''[connect()]'', ''<tid:11>'', '': hi'']"
    by code_simp
  have f: "case ?f of Some text \<Rightarrow> length text \<le> INT_MAX | None \<Rightarrow> True" by (simp add: INT_MAX_def)
  have i: "\<forall>x \<in> set ?p. length x \<le> INT_MAX" unfolding p by (simp add: INT_MAX_def)
  obtain sink writes c' where r: "Logger_log ?os False (7, 5, 9, 42) 11 Lvl_Error ''Gateway'' ''gateway.cpp'' ''connect'' 12
       ?f Logger_init cache_empty = Some (sink, writes, c')"
      "sink = Discarded \<longleftrightarrow> \<not> isLogLevelEnabled Lvl_Error Logger_init"
      "\<forall>t k. sink = ToStderr t \<or> sink = ToSyslog k t \<longrightarrow> t = take 1023 (concat ?p)"
    using log_line_in_bounds [OF t f i, of ?os False cache_empty] by blast
  have "sink \<noteq> Discarded" using r(2) by (simp add: isLogLevelEnabled_def Logger_init_def)
  moreover have "fst (tryWriteToConfiguredLogFile ?os x cache_empty) = False" for x
    by (simp add: tryWriteToConfiguredLogFile_def case_prod_beta Let_def split: option.splits)
  ultimately have "\<exists>x. sink = ToStderr x"
    using r(1) by (auto simp: Logger_log_def Let_def case_prod_beta bind_eq_Some_conv split: if_splits)
  with r p show ?thesis by auto
qed

lemma parse_level_valid: "parseEnvLogLevel getenv n = Some v \<Longrightarrow> v < Lvl_MaxLevel"
  by (auto simp: parseEnvLogLevel_def Let_def less_LogLevel_def split: option.splits if_splits)

text \<open>
  How \<open>connect\<close> sets the level: a value off, none, disable or disabled of the environment variable
  silences every level; a level name or number in it (in any case) overrides the configured
  level; otherwise the configured level applies. The level kept is always a real one, so an
  enumerator past \<open>MaxLevel\<close> changes nothing.
\<close>

lemma environment_controls_logging:
  assumes "resolveLogLevelFromEnvironment getenv dflt l = (v, l1)" and "l2 = setLogLevel v l1"
    and "lg_logLevel l < Lvl_MaxLevel"
  shows "lg_logLevel l2 < Lvl_MaxLevel
    \<and> (isEnvLogDisabled getenv env_level_name \<longrightarrow> \<not> isLogLevelEnabled x l2)
    \<and> (\<not> isEnvLogDisabled getenv env_level_name \<longrightarrow>
         (isLogLevelEnabled x l2 \<longleftrightarrow>
            (case parseEnvLogLevel getenv env_level_name of
               Some w \<Rightarrow> x \<le> w
             | None \<Rightarrow> if dflt < Lvl_MaxLevel then x \<le> dflt
                       else if dflt = Lvl_MaxLevel then x \<le> Lvl_Debug else x \<le> lg_logLevel l)))"
proof -
  have d: "Lvl_Debug < Lvl_MaxLevel" by (simp add: less_LogLevel_def)
  show ?thesis
    using assms d parse_level_valid[of getenv env_level_name]
    by (auto simp: resolveLogLevelFromEnvironment_def setLogLevel_def isLogLevelEnabled_def Let_def
        split: if_splits option.splits)
qed

lemma environment_controls_logging_witness:
  "isLogLevelEnabled Lvl_Warning (setLogLevel Lvl_Warning Logger_init)
   \<and> \<not> isLogLevelEnabled Lvl_Info (setLogLevel Lvl_Warning Logger_init)"
proof -
  have p: "parseEnvLogLevel (os_getenv ex_os) env_level_name = Some Lvl_Warning"
    and d: "\<not> isEnvLogDisabled (os_getenv ex_os) env_level_name"
    by (simp_all add: parseEnvLogLevel_def isEnvLogDisabled_def ex_os_def env_level_name_def toLowerCopy_def
        tolower_def Let_def char_of_def bit_0)
  have r: "resolveLogLevelFromEnvironment (os_getenv ex_os) Lvl_Debug Logger_init = (Lvl_Warning, Logger_init)"
    using p d by (simp add: resolveLogLevelFromEnvironment_def Logger_init_def)
  have v: "lg_logLevel Logger_init < Lvl_MaxLevel" by (simp add: Logger_init_def less_LogLevel_def)
  show ?thesis
    using environment_controls_logging [OF r refl v, of Lvl_Warning] environment_controls_logging [OF r refl v, of Lvl_Info] p d
    by (simp add: less_eq_LogLevel_def)
qed

end
