(* ===== verification/Fb_Gateway.thy ===== *)
theory Fb_Gateway
  imports Fb_Client_Spec Fb_Server Fb_Logger
begin

text \<open>
  \<open>class GatewayImpl\<close> of \<open>src/gateway.cpp\<close>, composed of the transport, the client, the
  server and the logger settings. What the library's own threads do (websocket events, the
  message worker, the notification worker, the watchdog) is the datatype \<open>gw_event\<close>; a call
  that waits takes the list of events that happen during the wait. Calls out of the library
  are returned in order as \<open>app_call\<close>.
\<close>

section \<open>State\<close>

record ('k, 'j) Gateway =
  gw_listener :: "fn_ref option" \<comment> \<open>\<open>connectionChangeListener\<close>\<close>
  gw_transport :: Transport
  gw_client :: "'j Client"
  gw_server :: "('k, 'j) Server"
  gw_watchdogThread :: bool \<comment> \<open>joinable\<close>
  gw_watchdogRunning :: bool
  gw_legacyRPCv1 :: bool
  gw_rpcv1_eventMap :: "(u32, string) omap"
  gw_hasLastConnectionLog :: bool
  gw_lastConnectionState :: bool
  gw_connectionStarted :: bool
  gw_lastConnectionError :: Error
  gw_lastConnectionLogTs :: timestamp
  gw_suppressed :: u64 \<comment> \<open>\<open>suppressedConnectionNoticeCount\<close>\<close>
  gw_waitTime_ms :: u32 \<comment> \<open>the file's static \<open>runtime_waitTime_ms\<close>\<close>
  gw_watchdog_interval_ms :: u32
  gw_logger :: Logger

definition runtime_waitTime_ms :: u32 where
  "runtime_waitTime_ms = 3000"

definition watchdog_interval_ms :: u32 where
  "watchdog_interval_ms = 500"

definition Gateway_init :: "('k, 'j) Gateway" where
  "Gateway_init = \<lparr>gw_listener = None, gw_transport = Transport_init, gw_client = Client_init,
     gw_server = Server_init, gw_watchdogThread = False, gw_watchdogRunning = False,
     gw_legacyRPCv1 = False, gw_rpcv1_eventMap = [], gw_hasLastConnectionLog = False,
     gw_lastConnectionState = False, gw_connectionStarted = False, gw_lastConnectionError = Err_None,
     gw_lastConnectionLogTs = 0, gw_suppressed = 0, gw_waitTime_ms = runtime_waitTime_ms,
     gw_watchdog_interval_ms = watchdog_interval_ms, gw_logger = Logger_init\<rparr>"

text \<open>
  \<open>Uncaught\<close>: an exception leaves a thread's function or a destructor, which terminates the
  process, as \<open>StdTerminate\<close> does.
\<close>

datatype ('k, 'j) app_call = CallListener fn_ref bool Error
  | RunNotification "('k, 'j) QueuedNotification" | Uncaught exn | StdTerminate

section \<open>Connection state\<close>

text \<open>The exception that leaves the call, the notifications dispatched while the worker is joined, the state.\<close>

definition Gateway_cleanupInternalState ::
    "('k, 'j) Gateway \<Rightarrow> exn option \<times> ('k, 'j) app_call list \<times> ('k, 'j) Gateway" where
  "Gateway_cleanupInternalState g =
     (let g = (if gw_watchdogRunning g then g\<lparr>gw_watchdogRunning := False, gw_watchdogThread := False\<rparr> else g) in
      case Client_cancelAll (gw_client g) of
        (Some e, c) \<Rightarrow> (Some e, [], g\<lparr>gw_client := c\<rparr>)
      | (None, c) \<Rightarrow>
          (let (ns, s) = Server_stopNotificationWorker (gw_server g)
           in (None, map RunNotification ns,
               g\<lparr>gw_client := c, gw_server := s, gw_connectionStarted := False\<rparr>)))"

text \<open>The rate limit on the connection notice: whether it is emitted, and the fields it keeps.\<close>

definition connection_notice :: "bool \<Rightarrow> Error \<Rightarrow> timestamp \<Rightarrow> ('k, 'j) Gateway \<Rightarrow> bool \<times> ('k, 'j) Gateway" where
  "connection_notice connected error now g =
     (let sameState = gw_hasLastConnectionLog g \<and> connected = gw_lastConnectionState g
                      \<and> error = gw_lastConnectionError g;
          windowElapsed = gw_hasLastConnectionLog g \<and> now - gw_lastConnectionLogTs g \<ge> 5000000000;
          emitNotice = (\<not> sameState \<or> \<not> gw_hasLastConnectionLog g \<or> windowElapsed)
      in if emitNotice
         then (True, g\<lparr>gw_suppressed := 0, gw_hasLastConnectionLog := True, gw_lastConnectionState := connected,
                       gw_lastConnectionError := error, gw_lastConnectionLogTs := now\<rparr>)
         else (False, g\<lparr>gw_suppressed := gw_suppressed g + 1\<rparr>))"

definition Gateway_onConnectionChange ::
    "bool \<Rightarrow> Error \<Rightarrow> timestamp \<Rightarrow> ('k, 'j) Gateway \<Rightarrow> ('k, 'j) app_call list \<times> ('k, 'j) Gateway" where
  "Gateway_onConnectionChange connected error now g =
     (let (_, g) = connection_notice connected error now g;
          (threw, outs, g) = (if \<not> connected then Gateway_cleanupInternalState g else (None, [], g))
      in case threw of
           Some e \<Rightarrow> (outs @ [Uncaught e], g)
         | None \<Rightarrow>
             (case gw_listener g of
                Some listener \<Rightarrow> (outs @ [CallListener listener connected error], g)
              | None \<Rightarrow> (outs, g)))"

section \<open>Incoming messages\<close>

text \<open>The text of the id for the log: only what it may throw matters.\<close>

definition response_id_log :: "'j json_api \<Rightarrow> 'j \<Rightarrow> exn + unit" where
  "response_id_log J message =
     exn_bind (js_at J message ''id'') (\<lambda>v.
       if js_is_number_unsigned J v then exn_bind (js_get_u32 J v) (\<lambda>_. Inr ())
       else if js_is_number_integer J v then exn_bind (js_get_ll J v) (\<lambda>_. Inr ())
       else exn_bind (js_dump J v) (\<lambda>_. Inr ()))"

definition legacy_message_id :: "'j json_api \<Rightarrow> 'j \<Rightarrow> exn + u32 option" where
  "legacy_message_id J message =
     exn_bind (js_at J message ''id'') (\<lambda>v.
       if js_is_number_unsigned J v then exn_bind (js_get_u32 J v) (\<lambda>i. Inr (Some i))
       else if js_is_number_integer J v then
         exn_bind (js_get_ll J v) (\<lambda>i. Inr (if sint i \<ge> 0 then Some (ucast i) else None))
       else Inr None)"

text \<open>The event a legacy reply stands for; the empty string when it stands for none.\<close>

definition legacy_event :: "'j json_api \<Rightarrow> 'j \<Rightarrow> ('k, 'j) Gateway \<Rightarrow> exn + string" where
  "legacy_event J message g =
     (if \<not> gw_legacyRPCv1 g \<or> \<not> js_contains J message ''result'' then Inr []
      else exn_bind (js_at J message ''result'') (\<lambda>result.
        if \<not> js_empty J result \<and> (\<not> js_is_object J result \<or> \<not> js_contains J result ''listening'') then
          exn_bind (legacy_message_id J message) (\<lambda>i.
            Inr (case i of
                   None \<Rightarrow> []
                 | Some i \<Rightarrow> (case om_lookup (gw_rpcv1_eventMap g) i of Some eventName \<Rightarrow> eventName | None \<Rightarrow> [])))
        else Inr []))"

text \<open>\<open>message.dump()\<close> as an argument of an error log: evaluated only when that level is enabled.\<close>

definition dump_for_log :: "'j json_api \<Rightarrow> 'j \<Rightarrow> ('k, 'j) Gateway \<Rightarrow> exn option" where
  "dump_for_log J message g =
     (if isLogLevelEnabled Lvl_Error (gw_logger g)
      then (case js_dump J message of Inl e \<Rightarrow> Some e | Inr _ \<Rightarrow> None) else None)"

definition Gateway_onMessage :: "'j json_api \<Rightarrow> 'j \<Rightarrow> ('k, 'j) Gateway \<Rightarrow> exn option \<times> ('k, 'j) Gateway" where
  "Gateway_onMessage J message g =
     (if js_contains J message ''id'' \<and> (js_contains J message ''result'' \<or> js_contains J message ''error'') then
        (case exn_bind (response_id_log J message) (\<lambda>_. legacy_event J message g) of
           Inl e \<Rightarrow> (Some e, g)
         | Inr eventName \<Rightarrow>
             if eventName \<noteq> [] then
               (case js_at J message ''result'' of
                  Inl e \<Rightarrow> (Some e, g)
                | Inr result \<Rightarrow> (None, g\<lparr>gw_server := Server_notify J eventName result (gw_server g)\<rparr>))
             else
               (let (threw, c) = Client_response J message (gw_client g) in (threw, g\<lparr>gw_client := c\<rparr>)))
      else if js_contains J message ''method'' then
        (if js_contains J message ''id'' then (dump_for_log J message g, g)
         else if \<not> js_contains J message ''params'' then (dump_for_log J message g, g)
         else
           (case exn_bind (js_at J message ''method'') (js_get_string J) of
              Inl e \<Rightarrow> (Some e, g)
            | Inr method \<Rightarrow>
                (case js_at J message ''params'' of
                   Inl e \<Rightarrow> (Some e, g)
                 | Inr params \<Rightarrow> (None, g\<lparr>gw_server := Server_notify J method params (gw_server g)\<rparr>))))
      else (dump_for_log J message g, g))"

text \<open>
  The message worker on one payload: parse, log the text at debug level, call \<open>onMessage\<close>; a
  \<open>std::exception\<close> is caught there, anything else is not.
\<close>

definition Gateway_deliver :: "'j json_api \<Rightarrow> string \<Rightarrow> ('k, 'j) Gateway \<Rightarrow> ('k, 'j) app_call list \<times> ('k, 'j) Gateway" where
  "Gateway_deliver J payload g =
     (let (threw, g) =
        (case js_parse J payload of
           Inl e \<Rightarrow> (Some e, g)
         | Inr jsonMsg \<Rightarrow>
             (case (if tr_debugEnabled (gw_transport g) \<and> isLogLevelEnabled Lvl_Debug (gw_logger g)
                    then js_dump J jsonMsg else Inr []) of
                Inl e \<Rightarrow> (Some e, g)
              | Inr _ \<Rightarrow> Gateway_onMessage J jsonMsg g))
      in case threw of
           Some e \<Rightarrow> if is_std_exception e then ([], g) else ([Uncaught e], g)
         | None \<Rightarrow> ([], g))"

section \<open>The library's threads\<close>

datatype gw_event = EvIo io_event timestamp | EvMessage | EvNotification | EvWatchdog timestamp

fun Gateway_upcall ::
    "'j json_api \<Rightarrow> timestamp \<Rightarrow> upcall \<Rightarrow> ('k, 'j) Gateway \<Rightarrow> ('k, 'j) app_call list \<times> ('k, 'j) Gateway" where
  "Gateway_upcall J now (UpMessage payload) g = Gateway_deliver J payload g"
| "Gateway_upcall J now (UpConnection connected error) g = Gateway_onConnectionChange connected error now g"

fun Gateway_upcalls ::
    "'j json_api \<Rightarrow> timestamp \<Rightarrow> upcall list \<Rightarrow> ('k, 'j) Gateway \<Rightarrow> ('k, 'j) app_call list \<times> ('k, 'j) Gateway" where
  "Gateway_upcalls J now [] g = ([], g)"
| "Gateway_upcalls J now (u # us) g =
     (let (outs, g) = Gateway_upcall J now u g; (outs', g) = Gateway_upcalls J now us g in (outs @ outs', g))"

text \<open>One step of one thread; a thread that does not run does nothing.\<close>

fun Gateway_event ::
    "'j json_api \<Rightarrow> ws_api \<Rightarrow> gw_event \<Rightarrow> ('k, 'j) Gateway \<Rightarrow> ('k, 'j) app_call list \<times> ('k, 'j) Gateway" where
  "Gateway_event J W (EvIo ev now) g =
     (if tr_connectionThread (gw_transport g) then
        (let (us, t) = Transport_io W ev (gw_transport g)
         in Gateway_upcalls J now us (g\<lparr>gw_transport := t\<rparr>))
      else ([], g))"
| "Gateway_event J W EvMessage g =
     (if tr_messageWorker (gw_transport g) then
        (case processQueuedMessages_pass (gw_transport g) of
           (Took payload, t) \<Rightarrow> Gateway_deliver J payload (g\<lparr>gw_transport := t\<rparr>)
         | (_, t) \<Rightarrow> ([], g\<lparr>gw_transport := t\<rparr>))
      else ([], g))"
| "Gateway_event J W EvNotification g =
     (if sv_worker (gw_server g) then
        (case processQueuedNotifications_pass (gw_server g) of
           (Took n, s) \<Rightarrow> ([RunNotification n], g\<lparr>gw_server := s\<rparr>)
         | (_, s) \<Rightarrow> ([], g\<lparr>gw_server := s\<rparr>))
      else ([], g))"
| "Gateway_event J W (EvWatchdog now) g =
     (if gw_watchdogRunning g
      then ([], g\<lparr>gw_client := snd (Client_checkPromises now (gw_waitTime_ms g) (gw_client g))\<rparr>)
      else ([], g))"

fun Gateway_run ::
    "'j json_api \<Rightarrow> ws_api \<Rightarrow> gw_event list \<Rightarrow> ('k, 'j) Gateway \<Rightarrow> ('k, 'j) app_call list \<times> ('k, 'j) Gateway" where
  "Gateway_run J W [] g = ([], g)"
| "Gateway_run J W (ev # evs) g =
     (let (outs, g) = Gateway_event J W ev g; (outs', g) = Gateway_run J W evs g in (outs @ outs', g))"

section \<open>The public operations\<close>

text \<open>
  \<open>connect\<close>. The two receivers given to the transport are the lambdas that call \<open>onMessage\<close> and
  \<open>onConnectionChange\<close> of this object. \<open>evs\<close> is what the websocket thread does before the last
  critical section.
\<close>

definition Gateway_connect ::
    "'j json_api \<Rightarrow> ws_api \<Rightarrow> (string \<Rightarrow> string option) \<Rightarrow> Config \<Rightarrow> fn_ref \<Rightarrow> gw_event list \<Rightarrow>
     ('k, 'j) Gateway \<Rightarrow> Error \<times> ('k, 'j) app_call list \<times> ('k, 'j) Gateway" where
  "Gateway_connect J W getenv cfg onConnectionChange evs g =
     (let (logLevel, l) = resolveLogLevelFromEnvironment getenv (log_level (cfg_log cfg)) (gw_logger g);
          l = setLogLevel logLevel l;
          fmt = log_format (cfg_log cfg);
          l = setFormat (fmt_ts fmt) (fmt_location fmt) (fmt_function fmt) (fmt_thread fmt) l;
          previousListener = gw_listener g;
          g = g\<lparr>gw_logger := l, gw_listener := Some onConnectionChange, gw_waitTime_ms := cfg_waitTime_ms cfg,
                gw_legacyRPCv1 := cfg_legacyRPCv1 cfg, gw_watchdog_interval_ms := cfg_watchdogCycle_ms cfg\<rparr>;
          url = buildGatewayUrl (cfg_wsUrl cfg) (gw_legacyRPCv1 g);
          (status, t) = Transport_connect W (isLogLevelEnabled Lvl_Debug l) url 0 1
            (log_transportInclude (cfg_log cfg)) (log_transportExclude (cfg_log cfg)) (cfg_headers cfg) (gw_transport g);
          (outs, g) = Gateway_run J W evs (g\<lparr>gw_transport := t\<rparr>)
      in if status \<noteq> Err_None then (status, outs, g\<lparr>gw_listener := previousListener\<rparr>)
         else
           let g = g\<lparr>gw_connectionStarted := True\<rparr> in
           if \<not> gw_watchdogRunning g
           then (status, outs, g\<lparr>gw_watchdogRunning := True, gw_watchdogThread := True\<rparr>)
           else (status, outs, g))"

text \<open>
  \<open>disconnect\<close>. The handlers of the websocket thread and the deliveries of the message worker that
  happen during \<open>Transport::disconnect\<close> come in the order \<open>evs\<close> gives them. They read nothing of the
  transport that \<open>disconnect\<close> changes, so they are applied to its final state. An exception of
  \<open>cleanupInternalState\<close> leaves the call.
\<close>

definition Gateway_disconnect ::
    "'j json_api \<Rightarrow> ws_api \<Rightarrow> io_event list \<Rightarrow> timestamp \<Rightarrow> ('k, 'j) Gateway \<Rightarrow>
     (exn + Error) \<times> ('k, 'j) app_call list \<times> ('k, 'j) Gateway" where
  "Gateway_disconnect J W evs now g =
     (let (status, us, t) = Transport_disconnect W evs (gw_transport g);
          (outs, g) = Gateway_upcalls J now us (g\<lparr>gw_transport := t\<rparr>)
      in case status of
           Inl e \<Rightarrow> (Inl e, outs, g)
         | Inr status \<Rightarrow>
             if status \<noteq> Err_None then (Inr status, outs, g)
             else case Gateway_cleanupInternalState g of
                    (Some e, outs', g) \<Rightarrow> (Inl e, outs @ outs', g)
                  | (None, outs', g) \<Rightarrow> (Inr Err_None, outs @ outs', g))"

text \<open>
  The members in reverse order of declaration: the watchdog's \<open>std::thread\<close> (joinable: terminate),
  the server, the client, and last the transport. What the transport's threads still call then is
  returned as the upcalls: they run into a client and a server that are gone.
\<close>

definition Gateway_destroy_members ::
    "ws_api \<Rightarrow> io_event list \<Rightarrow> ('k, 'j) Gateway \<Rightarrow> ('k, 'j) app_call list \<times> upcall list \<times> ('k, 'j) Gateway" where
  "Gateway_destroy_members W evs g =
     (if gw_watchdogThread g then ([StdTerminate], [], g)
      else
        let (ns, s) = Server_destroy (gw_server g);
            (threw, us, t) = Transport_destroy W evs (gw_transport g)
        in (map RunNotification ns @ (case threw of Some e \<Rightarrow> [Uncaught e] | None \<Rightarrow> []), us,
            g\<lparr>gw_server := s, gw_transport := t\<rparr>))"

text \<open>\<open>evs\<close> happens during the destructor's \<open>disconnect\<close>, \<open>evs'\<close> during the transport's.\<close>

definition Gateway_destroy ::
    "'j json_api \<Rightarrow> ws_api \<Rightarrow> io_event list \<Rightarrow> timestamp \<Rightarrow> io_event list \<Rightarrow> ('k, 'j) Gateway \<Rightarrow>
     ('k, 'j) app_call list \<times> upcall list \<times> ('k, 'j) Gateway" where
  "Gateway_destroy J W evs now evs' g =
     (if gw_connectionStarted g
      then (case Gateway_disconnect J W evs now g of
              (Inl e, outs, g) \<Rightarrow> (outs @ [Uncaught e], [], g)
            | (Inr _, outs, g) \<Rightarrow>
                (let (outs', us, g) = Gateway_destroy_members W evs' g in (outs @ outs', us, g)))
      else Gateway_destroy_members W evs' g)"

definition Gateway_request ::
    "'j json_api \<Rightarrow> ws_api \<Rightarrow> string \<Rightarrow> 'j \<Rightarrow> u32 option \<Rightarrow> timestamp \<Rightarrow> ('k, 'j) Gateway \<Rightarrow>
     (exn + promise) \<times> ('k, 'j) Gateway" where
  "Gateway_request J W method params idOpt now g =
     (let (r, c, t) = Client_request Transport_getNextMessageID (Transport_send J W) method params idOpt now
                        (gw_client g) (gw_transport g)
      in (r, g\<lparr>gw_client := c, gw_transport := t\<rparr>))"

definition listen_params :: "'j json_api \<Rightarrow> bool \<Rightarrow> 'j" where
  "listen_params J b = js_set J (js_null J) ''listen'' (js_bool J b)"

text \<open>
  \<open>subscribe\<close>; \<open>evs\<close> happen while it waits for the acknowledgement. The future is ready when its
  promise has a value.
\<close>

definition Gateway_subscribe ::
    "'j json_api \<Rightarrow> ws_api \<Rightarrow> string \<Rightarrow> 'k \<Rightarrow> ptr \<Rightarrow> timestamp \<Rightarrow> gw_event list \<Rightarrow> ('k, 'j) Gateway \<Rightarrow>
     (exn + Error) \<times> ('k, 'j) app_call list \<times> ('k, 'j) Gateway" where
  "Gateway_subscribe J W event callback usercb now evs g =
     (let alreadySubscribed = Server_isAnySubscriber event (gw_server g);
          (status, s) = Server_subscribe event callback usercb (gw_server g);
          g = g\<lparr>gw_server := s\<rparr>
      in if status \<noteq> Err_None then (Inr status, [], g)
         else if alreadySubscribed then (Inr Err_None, [], g)
         else
           let (i, t) = Transport_getNextMessageID (gw_transport g);
               g = g\<lparr>gw_transport := t\<rparr>;
               g = (if gw_legacyRPCv1 g then g\<lparr>gw_rpcv1_eventMap := om_update i event (gw_rpcv1_eventMap g)\<rparr> else g)
           in case Gateway_request J W event (listen_params J True) (Some i) now g of
                (Inl e, g) \<Rightarrow> (Inl e, [], g)
              | (Inr future_sub, g) \<Rightarrow>
                  let (outs, g) = Gateway_run J W evs g;
                      status = (case client_promises (gw_client g) future_sub of
                                  None \<Rightarrow> Err_Timedout
                                | Some result \<Rightarrow> if has_value result then Err_None else result_error result)
                  in if status \<noteq> Err_None then
                       let (_, s) = Server_unsubscribe event usercb (gw_server g);
                           g = g\<lparr>gw_server := s\<rparr>;
                           g = (if gw_legacyRPCv1 g then g\<lparr>gw_rpcv1_eventMap := om_delete i (gw_rpcv1_eventMap g)\<rparr> else g)
                       in (Inr status, outs, g)
                     else (Inr status, outs, g))"

text \<open>The first entry of the map with that event is erased.\<close>

fun erase_event :: "string \<Rightarrow> (u32, string) omap \<Rightarrow> (u32, string) omap" where
  "erase_event event [] = []"
| "erase_event event (it # m) = (if snd it = event then m else it # erase_event event m)"

definition Gateway_unsubscribe ::
    "'j json_api \<Rightarrow> ws_api \<Rightarrow> string \<Rightarrow> ptr \<Rightarrow> timestamp \<Rightarrow> gw_event list \<Rightarrow> ('k, 'j) Gateway \<Rightarrow>
     (exn + Error) \<times> ('k, 'j) app_call list \<times> ('k, 'j) Gateway" where
  "Gateway_unsubscribe J W event usercb now evs g =
     (let (status, s) = Server_unsubscribe event usercb (gw_server g);
          g = g\<lparr>gw_server := s\<rparr>
      in if status \<noteq> Err_None then (Inr status, [], g)
         else if Server_isAnySubscriber event (gw_server g) then (Inr Err_None, [], g)
         else
           let g = (if gw_legacyRPCv1 g then g\<lparr>gw_rpcv1_eventMap := erase_event event (gw_rpcv1_eventMap g)\<rparr> else g)
           in case Gateway_request J W event (listen_params J False) None now g of
                (Inl e, g) \<Rightarrow> (Inl e, [], g)
              | (Inr future_unsub, g) \<Rightarrow>
                  let (outs, g) = Gateway_run J W evs g;
                      status = (case client_promises (gw_client g) future_unsub of
                                  None \<Rightarrow> status
                                | Some result \<Rightarrow> if has_value result then status else result_error result)
                  in (Inr status, outs, g))"

definition Gateway_getResponseHeader :: "string \<Rightarrow> ('k, 'j) Gateway \<Rightarrow> string option" where
  "Gateway_getResponseHeader headerName g = Transport_getResponseHeader headerName (gw_transport g)"

section \<open>The gateway as the client's transport\<close>

text \<open>\<open>GatewayImpl\<close> is the \<open>IClientTransport\<close> its client was given; it passes the calls on.\<close>

definition Gateway_getNextMessageID :: "('k, 'j) Gateway \<Rightarrow> u32 \<times> ('k, 'j) Gateway" where
  "Gateway_getNextMessageID g =
     (let (i, t) = Transport_getNextMessageID (gw_transport g) in (i, g\<lparr>gw_transport := t\<rparr>))"

definition Gateway_send ::
    "'j json_api \<Rightarrow> ws_api \<Rightarrow> string \<Rightarrow> 'j \<Rightarrow> u32 \<Rightarrow> ('k, 'j) Gateway \<Rightarrow> (exn + Error) \<times> ('k, 'j) Gateway" where
  "Gateway_send J W method params i g =
     (let (r, t) = Transport_send J W method params i (gw_transport g) in (r, g\<lparr>gw_transport := t\<rparr>))"

interpretation gt: client_transport Gateway_getNextMessageID "Gateway_send J W"
  "\<lambda>g. ids_used (gw_transport g)" "\<lambda>g. ids_left (gw_transport g)"
proof unfold_locales
  fix g g' :: "('a, 'b) Gateway" and i
  assume "ids_left (gw_transport g)" "Gateway_getNextMessageID g = (i, g')"
  then show "i \<notin> ids_used (gw_transport g) \<and> ids_used (gw_transport g') = insert i (ids_used (gw_transport g))"
    using ct.next_id_fresh [of "gw_transport g" i "gw_transport g'"]
    by (cases "Transport_getNextMessageID (gw_transport g)") (force simp: Gateway_getNextMessageID_def)
next
  fix m p i r and g g' :: "('a, 'b) Gateway"
  assume "Gateway_send J W m p i g = (r, g')"
  then show "ids_used (gw_transport g') = ids_used (gw_transport g)"
    using ct.send_used [of J W m p i "gw_transport g" r "gw_transport g'"]
    by (cases "Transport_send J W m p i (gw_transport g)") (force simp: Gateway_send_def)
qed

text \<open>So a request through the gateway's own interface is the request on the transport.\<close>

lemma request_through_gateway:
  "Client_request Gateway_getNextMessageID (Gateway_send J W) m p idOpt now (gw_client g) g =
     (let (r, g') = Gateway_request J W m p idOpt now g in (r, gw_client g', g'\<lparr>gw_client := gw_client g\<rparr>))"
  by (cases idOpt)
    (simp_all add: Gateway_request_def Client_request_def Gateway_getNextMessageID_def Gateway_send_def Let_def case_prod_beta
      split: sum.split option.split)

section \<open>Frames\<close>

lemma connection_notice_frame [fb_frame, simp]:
  fixes g :: "('k, 'j) Gateway"
  shows "gw_listener (snd (connection_notice b e now g)) = gw_listener g"
    "gw_transport (snd (connection_notice b e now g)) = gw_transport g"
    "gw_client (snd (connection_notice b e now g)) = gw_client g"
    "gw_server (snd (connection_notice b e now g)) = gw_server g"
    "gw_watchdogThread (snd (connection_notice b e now g)) = gw_watchdogThread g"
    "gw_watchdogRunning (snd (connection_notice b e now g)) = gw_watchdogRunning g"
    "gw_legacyRPCv1 (snd (connection_notice b e now g)) = gw_legacyRPCv1 g"
    "gw_rpcv1_eventMap (snd (connection_notice b e now g)) = gw_rpcv1_eventMap g"
    "gw_connectionStarted (snd (connection_notice b e now g)) = gw_connectionStarted g"
    "gw_waitTime_ms (snd (connection_notice b e now g)) = gw_waitTime_ms g"
    "gw_logger (snd (connection_notice b e now g)) = gw_logger g"
  by (simp_all add: connection_notice_def Let_def)

lemma io_id_counter [fb_frame, simp]: "tr_id_counter (snd (Transport_io W ev t)) = tr_id_counter t"
  by (cases ev) (simp_all add: Transport_onOpen_def Transport_onClose_def Transport_onFail_def Transport_onMessage_def
      processQueuedMessages_pass_def)

lemma io_all_id_counter [fb_frame, simp]: "tr_id_counter (snd (Transport_io_all W evs t)) = tr_id_counter t"
  by (induction evs arbitrary: t) (simp_all add: case_prod_beta Let_def)

lemma connect_id_counter [fb_frame, simp]:
  "tr_id_counter (snd (Transport_connect W d url m k inc exc hs t)) = tr_id_counter t"
  by (simp add: Transport_connect_def Transport_start_def Transport_startMessageWorker_def
      Transport_setLogging_def Let_def case_prod_beta split: option.splits)

lemma disconnect_id_counter [fb_frame, simp]:
  "tr_id_counter (snd (snd (Transport_disconnect W evs t))) = tr_id_counter t"
  by (simp add: Transport_disconnect_def stopMessageWorker_eq Let_def case_prod_beta split: option.splits)

lemma pass_id_counter [fb_frame, simp]: "tr_id_counter (snd (processQueuedMessages_pass t)) = tr_id_counter t"
  by (simp add: processQueuedMessages_pass_def)

lemma response_keys: "fst ` set (client_queue (snd (Client_response J m c))) \<subseteq> fst ` set (client_queue c)"
  by (auto simp: Client_response_def response_take_def promise_set_def om_delete_def split: sum.splits option.splits)

section \<open>Requests with a fresh id\<close>

lemma request_fresh_eq:
  assumes "client_wf c" and "i \<notin> fst ` set (client_queue c)"
  shows "Client_request next_id send m p (Some i) now c t =
    (case send m p i t of
       (Inl e, t') \<Rightarrow> (Inl e, snd (request_enqueue i m now c), t')
     | (Inr err, t') \<Rightarrow>
         (Inr (client_next c),
          if err = Err_None then snd (request_enqueue i m now c)
          else c\<lparr>client_next := Suc (client_next c),
                 client_promises := (client_promises c)(client_next c := Some (Result_error err))\<rparr>, t'))"
proof -
  have "client_promises c (client_next c) = None" using assms(1) by (simp add: client_wf_def)
  then show ?thesis
    using assms(2)
    by (simp add: Client_request_def request_enqueue_def request_erase_def promise_set_def Let_def
        om_delete_update om_lookup_update split: sum.splits prod.splits)
qed

lemma request_none_eq:
  "Client_request next_id send m p None now c t =
     (case next_id t of (i, t') \<Rightarrow> Client_request next_id send m p (Some i) now c t')"
  by (cases "next_id t") (simp add: Client_request_def)

lemma refused_wf:
  assumes "client_wf c"
  shows "client_wf (c\<lparr>client_next := Suc (client_next c),
    client_promises := (client_promises c)(client_next c := Some r)\<rparr>)"
  using assms by (force simp: client_wf_def)

lemma request_fresh_wf:
  assumes "client_wf c" and "i \<notin> fst ` set (client_queue c)"
    and r: "Client_request next_id send m p (Some i) now c t = (r, c', t')"
  shows "client_wf c'" and "fst ` set (client_queue c') \<subseteq> insert i (fst ` set (client_queue c))"
    and "t' = snd (send m p i t)"
proof -
  obtain x c1 where e: "request_enqueue i m now c = (x, c1)" by fastforce
  have wf: "client_wf c1" "set (client_queue c1) = insert (i, x) (set (client_queue c))"
    using enqueue_wf[OF e assms(2,1)] enqueue_pending(1)[OF e assms(2,1)] by auto
  show "client_wf c'"
    using r wf(1) refused_wf[OF assms(1)] by (auto simp: request_fresh_eq[OF assms(1,2)] e split: sum.splits prod.splits if_splits)
  show "fst ` set (client_queue c') \<subseteq> insert i (fst ` set (client_queue c))"
    using r wf(2) by (auto simp: request_fresh_eq[OF assms(1,2)] e split: sum.splits prod.splits if_splits)
  show "t' = snd (send m p i t)"
    using r by (auto simp: request_fresh_eq[OF assms(1,2)] split: sum.splits prod.splits)
qed

section \<open>Invariant\<close>

text \<open>
  The invariants of the parts; the watchdog thread exists exactly while it is meant to run,
  which is exactly while a connection was started; the pending ids are ids handed out.
\<close>

definition gateway_inv :: "('k, 'j) Gateway \<Rightarrow> bool" where
  "gateway_inv g \<longleftrightarrow> transport_inv (gw_transport g) \<and> client_wf (gw_client g) \<and> server_inv (gw_server g)
     \<and> gw_watchdogThread g = gw_watchdogRunning g \<and> gw_connectionStarted g = gw_watchdogRunning g
     \<and> fst ` set (client_queue (gw_client g)) \<subseteq> ids_used (gw_transport g)
     \<and> om_wf (gw_rpcv1_eventMap g) \<and> fst ` set (gw_rpcv1_eventMap g) \<subseteq> ids_used (gw_transport g)
     \<and> lg_logLevel (gw_logger g) < Lvl_MaxLevel"

lemma gateway_inv_init: "gateway_inv Gateway_init"
  by (simp add: gateway_inv_def Gateway_init_def transport_inv_init client_wf_init server_inv_init Logger_init_def
      less_LogLevel_def) (simp add: Client_init_def)

lemma cleanup_eq:
  assumes "client_wf (gw_client g)" and "gw_watchdogThread g = gw_watchdogRunning g"
  shows "Gateway_cleanupInternalState g =
    (None, map RunNotification (fst (Server_stopNotificationWorker (gw_server g))),
     g\<lparr>gw_watchdogRunning := False, gw_watchdogThread := False, gw_client := snd (Client_cancelAll (gw_client g)),
       gw_server := snd (Server_stopNotificationWorker (gw_server g)), gw_connectionStarted := False\<rparr>)"
proof -
  obtain c where c: "Client_cancelAll (gw_client g) = (None, c)" using cancelAll_eq[OF assms(1)] by blast
  obtain ns s where s: "Server_stopNotificationWorker (gw_server g) = (ns, s)" by fastforce
  show ?thesis
  proof (cases "gw_watchdogRunning g")
    case True
    then show ?thesis by (simp add: Gateway_cleanupInternalState_def Let_def c s)
  next
    case False
    then have "g\<lparr>gw_watchdogRunning := False, gw_watchdogThread := False\<rparr> = g" using assms(2) by simp
    with False c s show ?thesis unfolding Gateway_cleanupInternalState_def Let_def by (cases g) simp
  qed
qed

lemma gateway_inv_cleanup [fb_inv]:
  "gateway_inv g \<Longrightarrow> gateway_inv (snd (snd (Gateway_cleanupInternalState g)))"
  using cancelAll_wf[of "gw_client g"]
  by (simp add: gateway_inv_def cleanup_eq server_inv_stop) (simp add: cancelAll_eq)

lemma gateway_inv_connection_change [fb_inv]:
  assumes "gateway_inv g"
  shows "gateway_inv (snd (Gateway_onConnectionChange b e now g))"
proof -
  let ?g = "snd (connection_notice b e now g)"
  have inv: "gateway_inv ?g" using assms by (simp add: gateway_inv_def)
  have "fst (Gateway_cleanupInternalState ?g) = None"
    using inv by (simp add: gateway_inv_def cleanup_eq)
  then show ?thesis
    using inv gateway_inv_cleanup[OF inv]
    by (auto simp: Gateway_onConnectionChange_def case_prod_beta Let_def split: option.splits)
qed

lemma gateway_inv_message [fb_inv]:
  "gateway_inv g \<Longrightarrow> gateway_inv (snd (Gateway_onMessage J message g))"
  using response_wf[of "gw_client g" J message] response_keys[of J message "gw_client g"]
  by (auto simp: Gateway_onMessage_def gateway_inv_def case_prod_beta server_inv_notify Let_def
      split: sum.splits dest: subsetD)

lemma gateway_inv_deliver [fb_inv]:
  "gateway_inv g \<Longrightarrow> gateway_inv (snd (Gateway_deliver J payload g))"
  using gateway_inv_message[of g J]
  by (auto simp: Gateway_deliver_def case_prod_beta Let_def split: sum.splits option.splits)

lemma gateway_inv_upcalls [fb_inv]:
  "gateway_inv g \<Longrightarrow> gateway_inv (snd (Gateway_upcalls J now us g))"
proof (induction us arbitrary: g)
  case (Cons u us)
  then have "gateway_inv (snd (Gateway_upcall J now u g))"
    by (cases u) (simp_all add: gateway_inv_deliver gateway_inv_connection_change)
  with Cons.IH show ?case by (simp add: case_prod_beta Let_def)
qed simp

lemma gateway_inv_transport:
  "gateway_inv g \<Longrightarrow> transport_inv t \<Longrightarrow> tr_id_counter t = tr_id_counter (gw_transport g) \<Longrightarrow>
     gateway_inv (g\<lparr>gw_transport := t\<rparr>)"
  by (simp add: gateway_inv_def ids_used_def)

lemma gateway_inv_event [fb_inv]:
  assumes "gateway_inv g"
  shows "gateway_inv (snd (Gateway_event J W ev g))"
proof (cases ev)
  case (EvIo e now)
  have "gateway_inv (g\<lparr>gw_transport := snd (Transport_io W e (gw_transport g))\<rparr>)" if "tr_connectionThread (gw_transport g)"
    using assms that by (intro gateway_inv_transport transport_inv_io) (simp_all add: gateway_inv_def)
  with assms EvIo show ?thesis by (simp add: case_prod_beta Let_def gateway_inv_upcalls)
next
  case EvMessage
  have t: "gateway_inv (g\<lparr>gw_transport := snd (processQueuedMessages_pass (gw_transport g))\<rparr>)" if "tr_messageWorker (gw_transport g)"
    using assms that transport_inv_step[OF ts_pass[OF that, of "undefined :: unit json_api"]]
    by (intro gateway_inv_transport) (simp_all add: gateway_inv_def)
  show ?thesis
    using assms t EvMessage gateway_inv_deliver
    by (auto simp: case_prod_beta split: pass.splits)
next
  case EvNotification
  have "gateway_inv (g\<lparr>gw_server := snd (processQueuedNotifications_pass (gw_server g))\<rparr>)"
    using assms by (simp add: gateway_inv_def server_inv_pass)
  with assms EvNotification show ?thesis by (auto simp: case_prod_beta split: pass.splits)
next
  case (EvWatchdog now)
  have "client_wf (gw_client g)" using assms by (simp add: gateway_inv_def)
  then have "client_wf (snd (Client_checkPromises now (gw_waitTime_ms g) (gw_client g)))"
      "fst ` set (client_queue (snd (Client_checkPromises now (gw_waitTime_ms g) (gw_client g))))
        \<subseteq> fst ` set (client_queue (gw_client g))"
    by (rule checkPromises_wf) (auto simp: checkPromises_eq[OF \<open>client_wf (gw_client g)\<close>])
  with assms EvWatchdog show ?thesis by (auto simp: gateway_inv_def)
qed

lemma gateway_inv_run [fb_inv]: "gateway_inv g \<Longrightarrow> gateway_inv (snd (Gateway_run J W evs g))"
  by (induction evs arbitrary: g) (simp_all add: case_prod_beta Let_def gateway_inv_event)

text \<open>\<open>connect\<close> up to the return of \<open>Transport::connect\<close>.\<close>

definition connect_attempt ::
    "ws_api \<Rightarrow> (string \<Rightarrow> string option) \<Rightarrow> Config \<Rightarrow> fn_ref \<Rightarrow> ('k, 'j) Gateway \<Rightarrow> Error \<times> ('k, 'j) Gateway" where
  "connect_attempt W getenv cfg k g =
     (let (logLevel, l) = resolveLogLevelFromEnvironment getenv (log_level (cfg_log cfg)) (gw_logger g);
          fmt = log_format (cfg_log cfg);
          l = setFormat (fmt_ts fmt) (fmt_location fmt) (fmt_function fmt) (fmt_thread fmt) (setLogLevel logLevel l);
          (status, t) = Transport_connect W (isLogLevelEnabled Lvl_Debug l) (buildGatewayUrl (cfg_wsUrl cfg) (cfg_legacyRPCv1 cfg)) 0 1
            (log_transportInclude (cfg_log cfg)) (log_transportExclude (cfg_log cfg)) (cfg_headers cfg) (gw_transport g)
      in (status, g\<lparr>gw_logger := l, gw_listener := Some k, gw_waitTime_ms := cfg_waitTime_ms cfg,
            gw_legacyRPCv1 := cfg_legacyRPCv1 cfg, gw_watchdog_interval_ms := cfg_watchdogCycle_ms cfg, gw_transport := t\<rparr>))"

lemma connect_cases:
  "Gateway_connect J W getenv cfg k evs g =
     (case connect_attempt W getenv cfg k g of (status, g1) \<Rightarrow>
        case Gateway_run J W evs g1 of (outs, g2) \<Rightarrow>
          if status \<noteq> Err_None then (status, outs, g2\<lparr>gw_listener := gw_listener g\<rparr>)
          else (Err_None, outs, if gw_watchdogRunning g2 then g2\<lparr>gw_connectionStarted := True\<rparr>
                 else g2\<lparr>gw_connectionStarted := True, gw_watchdogRunning := True, gw_watchdogThread := True\<rparr>))"
  by (simp add: Gateway_connect_def connect_attempt_def Let_def case_prod_beta)

lemma connect_attempt_frame:
  "gw_client (snd (connect_attempt W getenv cfg k g)) = gw_client g"
  "gw_server (snd (connect_attempt W getenv cfg k g)) = gw_server g"
  "gw_watchdogRunning (snd (connect_attempt W getenv cfg k g)) = gw_watchdogRunning g"
  "gw_connectionStarted (snd (connect_attempt W getenv cfg k g)) = gw_connectionStarted g"
  "gw_rpcv1_eventMap (snd (connect_attempt W getenv cfg k g)) = gw_rpcv1_eventMap g"
  by (simp_all add: connect_attempt_def Let_def case_prod_beta)

lemma gateway_inv_connect_attempt [fb_inv]:
  assumes "gateway_inv g"
  shows "gateway_inv (snd (connect_attempt W getenv cfg k g))"
proof -
  obtain v l1 where l1: "resolveLogLevelFromEnvironment getenv (log_level (cfg_log cfg)) (gw_logger g) = (v, l1)" by fastforce
  have "lg_logLevel l1 = lg_logLevel (gw_logger g)"
    using l1 by (auto simp: resolveLogLevelFromEnvironment_def Let_def split: if_splits option.splits)
  then have "lg_logLevel (setLogLevel v l1) < Lvl_MaxLevel"
    using assms by (simp add: setLogLevel_def gateway_inv_def less_LogLevel_def)
  then show ?thesis
    using assms transport_inv_connect[of "gw_transport g"]
    by (simp add: connect_attempt_def l1 Let_def case_prod_beta gateway_inv_def setFormat_def ids_used_def)
qed

lemma gateway_inv_connect [fb_inv]:
  assumes "gateway_inv g"
  shows "gateway_inv (snd (snd (Gateway_connect J W getenv cfg k evs g)))"
proof -
  have "gateway_inv (snd (Gateway_run J W evs (snd (connect_attempt W getenv cfg k g))))"
    by (intro gateway_inv_run gateway_inv_connect_attempt assms)
  then show ?thesis by (simp add: connect_cases case_prod_beta gateway_inv_def)
qed

lemma gateway_inv_disconnect [fb_inv]:
  assumes "gateway_inv g"
  shows "gateway_inv (snd (snd (Gateway_disconnect J W evs now g)))"
proof -
  let ?t = "snd (snd (Transport_disconnect W evs (gw_transport g)))"
  have "gateway_inv (g\<lparr>gw_transport := ?t\<rparr>)"
    using assms by (intro gateway_inv_transport transport_inv_disconnect) (simp_all add: gateway_inv_def)
  then have "gateway_inv (snd (Gateway_upcalls J now us (g\<lparr>gw_transport := ?t\<rparr>)))" for us
    by (rule gateway_inv_upcalls)
  then show ?thesis
    using gateway_inv_cleanup by (auto simp: Gateway_disconnect_def Let_def case_prod_beta split: option.splits sum.splits)
qed

lemma gateway_inv_next_id:
  assumes "gateway_inv g" and "ids_left (gw_transport g)" and "Transport_getNextMessageID (gw_transport g) = (i, t)"
  shows "gateway_inv (g\<lparr>gw_transport := t\<rparr>)" and "i \<notin> fst ` set (client_queue (gw_client g))" and "i \<in> ids_used t"
proof -
  have i: "i \<notin> ids_used (gw_transport g)" "ids_used t = insert i (ids_used (gw_transport g))"
    using ct.next_id_fresh[OF assms(2,3)] by auto
  have "transport_inv t"
    using assms(1,3) by (auto simp: gateway_inv_def Transport_getNextMessageID_def transport_inv_def)
  with assms(1) i(2) show "gateway_inv (g\<lparr>gw_transport := t\<rparr>)" by (auto simp: gateway_inv_def)
  show "i \<notin> fst ` set (client_queue (gw_client g))" "i \<in> ids_used t"
    using assms(1) i by (auto simp: gateway_inv_def)
qed

lemma gateway_inv_request_id:
  assumes "gateway_inv g" and "i \<notin> fst ` set (client_queue (gw_client g))" and "i \<in> ids_used (gw_transport g)"
  shows "gateway_inv (snd (Gateway_request J W m p (Some i) now g))"
proof -
  obtain r c t where r: "Client_request Transport_getNextMessageID (Transport_send J W) m p (Some i) now
      (gw_client g) (gw_transport g) = (r, c, t)" using prod_cases3 by blast
  have wf: "client_wf (gw_client g)" using assms(1) by (simp add: gateway_inv_def)
  note c = request_fresh_wf[OF wf assms(2) r]
  have "transport_inv t"
    unfolding c(3) using assms(1) by (intro transport_inv_step[OF ts_send]) (simp add: gateway_inv_def)
  moreover have "ids_used t = ids_used (gw_transport g)" by (simp add: c(3) ids_used_def)
  moreover have "fst ` set (client_queue (gw_client g)) \<subseteq> ids_used (gw_transport g)"
    using assms(1) by (simp add: gateway_inv_def)
  with assms(3) have "fst ` set (client_queue c) \<subseteq> ids_used (gw_transport g)"
    using c(2) by blast
  ultimately show ?thesis
    using assms(1) c(1) by (simp add: Gateway_request_def r gateway_inv_def)
qed

lemma request_none_id:
  assumes "Transport_getNextMessageID (gw_transport g) = (i, t)"
  shows "Gateway_request J W m p None now g = Gateway_request J W m p (Some i) now (g\<lparr>gw_transport := t\<rparr>)"
  using assms by (simp add: Gateway_request_def request_none_eq)

lemma gateway_inv_request [fb_inv]:
  assumes "gateway_inv g" and "ids_left (gw_transport g)"
  shows "gateway_inv (snd (Gateway_request J W m p None now g))"
proof -
  obtain i t where i: "Transport_getNextMessageID (gw_transport g) = (i, t)" by fastforce
  show ?thesis
    using gateway_inv_next_id[OF assms i] gateway_inv_request_id[of "g\<lparr>gw_transport := t\<rparr>" i]
    by (simp add: request_none_id[OF i])
qed

lemma gateway_inv_server:
  "gateway_inv g \<Longrightarrow> server_inv s \<Longrightarrow> gateway_inv (g\<lparr>gw_server := s\<rparr>)"
  by (simp add: gateway_inv_def)

lemma gateway_inv_event_map:
  "gateway_inv g \<Longrightarrow> om_wf m \<Longrightarrow> fst ` set m \<subseteq> ids_used (gw_transport g) \<Longrightarrow>
     gateway_inv (g\<lparr>gw_rpcv1_eventMap := m\<rparr>)"
  by (simp add: gateway_inv_def)

lemma erase_event_set: "set (erase_event event m) \<subseteq> set m"
  by (induction m) auto

lemma erase_event_wf: "om_wf m \<Longrightarrow> om_wf (erase_event event m)"
proof (induction m)
  case (Cons it m)
  with erase_event_set[of event m] show ?case by (auto simp: om_wf_Cons)
qed simp

text \<open>The state in which \<open>subscribe\<close> sends its request, and the one after the wait.\<close>

definition subscribe_ready :: "string \<Rightarrow> 'k \<Rightarrow> ptr \<Rightarrow> ('k, 'j) Gateway \<Rightarrow> u32 \<times> ('k, 'j) Gateway" where
  "subscribe_ready event k u g =
     (let (i, t) = Transport_getNextMessageID (gw_transport g);
          g = g\<lparr>gw_server := snd (Server_subscribe event k u (gw_server g)), gw_transport := t\<rparr>
      in (i, if gw_legacyRPCv1 g then g\<lparr>gw_rpcv1_eventMap := om_update i event (gw_rpcv1_eventMap g)\<rparr> else g))"

definition subscribe_undo :: "string \<Rightarrow> ptr \<Rightarrow> u32 \<Rightarrow> ('k, 'j) Gateway \<Rightarrow> ('k, 'j) Gateway" where
  "subscribe_undo event u i g =
     (let g = g\<lparr>gw_server := snd (Server_unsubscribe event u (gw_server g))\<rparr>
      in if gw_legacyRPCv1 g then g\<lparr>gw_rpcv1_eventMap := om_delete i (gw_rpcv1_eventMap g)\<rparr> else g)"

definition ack_status :: "promise \<Rightarrow> ('k, 'j) Gateway \<Rightarrow> Error" where
  "ack_status p g = (case client_promises (gw_client g) p of
       None \<Rightarrow> Err_Timedout
     | Some result \<Rightarrow> if has_value result then Err_None else result_error result)"

lemma subscribe_cases:
  "Gateway_subscribe J W event k u now evs g =
     (if fst (Server_subscribe event k u (gw_server g)) \<noteq> Err_None
      then (Inr (fst (Server_subscribe event k u (gw_server g))), [], g\<lparr>gw_server := snd (Server_subscribe event k u (gw_server g))\<rparr>)
      else if Server_isAnySubscriber event (gw_server g)
      then (Inr Err_None, [], g\<lparr>gw_server := snd (Server_subscribe event k u (gw_server g))\<rparr>)
      else case subscribe_ready event k u g of (i, g1) \<Rightarrow>
        (case Gateway_request J W event (listen_params J True) (Some i) now g1 of
           (Inl e, g2) \<Rightarrow> (Inl e, [], g2)
         | (Inr p, g2) \<Rightarrow>
             (case Gateway_run J W evs g2 of (outs, g3) \<Rightarrow>
                if ack_status p g3 = Err_None then (Inr Err_None, outs, g3)
                else (Inr (ack_status p g3), outs, subscribe_undo event u i g3))))"
  by (simp add: Gateway_subscribe_def subscribe_ready_def subscribe_undo_def ack_status_def Let_def case_prod_beta
      split: sum.splits)

lemma gateway_inv_subscribe_ready:
  assumes "gateway_inv g" and "ids_left (gw_transport g)" and "subscribe_ready event k u g = (i, g1)"
  shows "gateway_inv g1 \<and> i \<notin> fst ` set (client_queue (gw_client g1)) \<and> i \<in> ids_used (gw_transport g1)"
proof -
  obtain j t where j: "Transport_getNextMessageID (gw_transport g) = (j, t)" by fastforce
  let ?g = "g\<lparr>gw_server := snd (Server_subscribe event k u (gw_server g)), gw_transport := t\<rparr>"
  note n = gateway_inv_next_id[OF assms(1,2) j]
  have g2: "gateway_inv ?g"
    using n(1) server_inv_subscribe[of "gw_server g"] by (simp add: gateway_inv_def)
  have "om_wf (om_update j event (gw_rpcv1_eventMap ?g))"
    using assms(1) by (simp add: gateway_inv_def om_wf_update)
  moreover have "fst ` set (om_update j event (gw_rpcv1_eventMap ?g)) \<subseteq> ids_used (gw_transport ?g)"
    using om_update_fst[of j event "gw_rpcv1_eventMap g"] n(1,3) by (simp add: gateway_inv_def)
  ultimately have g3: "gateway_inv (?g\<lparr>gw_rpcv1_eventMap := om_update j event (gw_rpcv1_eventMap ?g)\<rparr>)"
    by (rule gateway_inv_event_map[OF g2])
  have "i = j" "g1 = (if gw_legacyRPCv1 ?g then ?g\<lparr>gw_rpcv1_eventMap := om_update j event (gw_rpcv1_eventMap ?g)\<rparr> else ?g)"
    using assms(3) unfolding subscribe_ready_def j Let_def prod.case by auto
  with g2 g3 n(2,3) show ?thesis by (cases "gw_legacyRPCv1 ?g") simp_all
qed

lemma gateway_inv_subscribe_undo:
  assumes "gateway_inv g"
  shows "gateway_inv (subscribe_undo event u i g)"
proof -
  have g1: "gateway_inv (g\<lparr>gw_server := snd (Server_unsubscribe event u (gw_server g))\<rparr>)"
    using assms by (intro gateway_inv_server server_inv_unsubscribe) (simp_all add: gateway_inv_def)
  have "om_wf (om_delete i (gw_rpcv1_eventMap g))"
    using assms by (simp add: gateway_inv_def om.wf_delete)
  moreover have "fst ` set (om_delete i (gw_rpcv1_eventMap g)) \<subseteq> ids_used (gw_transport g)"
    using assms by (auto simp: gateway_inv_def om_delete_def)
  ultimately show ?thesis
    using gateway_inv_event_map[OF g1] g1 by (simp add: subscribe_undo_def Let_def)
qed

lemma gateway_inv_subscribe [fb_inv]:
  assumes "gateway_inv g" and "ids_left (gw_transport g)"
  shows "gateway_inv (snd (snd (Gateway_subscribe J W event k u now evs g)))"
proof -
  obtain i g1 where r: "subscribe_ready event k u g = (i, g1)" by fastforce
  then have "gateway_inv (snd (Gateway_request J W event (listen_params J True) (Some i) now g1))"
    using gateway_inv_subscribe_ready[OF assms r] by (intro gateway_inv_request_id) auto
  moreover from this have "gateway_inv (snd (Gateway_run J W evs (snd (Gateway_request J W event (listen_params J True) (Some i) now g1))))"
    by (rule gateway_inv_run)
  moreover have "gateway_inv (g\<lparr>gw_server := snd (Server_subscribe event k u (gw_server g))\<rparr>)"
    using assms(1) by (intro gateway_inv_server server_inv_subscribe) (simp_all add: gateway_inv_def)
  ultimately show ?thesis
    by (simp add: subscribe_cases r case_prod_beta gateway_inv_subscribe_undo split: sum.splits)
qed

definition unsubscribe_ready :: "string \<Rightarrow> ptr \<Rightarrow> ('k, 'j) Gateway \<Rightarrow> ('k, 'j) Gateway" where
  "unsubscribe_ready event u g =
     (let g = g\<lparr>gw_server := snd (Server_unsubscribe event u (gw_server g))\<rparr>
      in if gw_legacyRPCv1 g then g\<lparr>gw_rpcv1_eventMap := erase_event event (gw_rpcv1_eventMap g)\<rparr> else g)"

lemma unsubscribe_cases:
  "Gateway_unsubscribe J W event u now evs g =
     (if fst (Server_unsubscribe event u (gw_server g)) \<noteq> Err_None
      then (Inr (fst (Server_unsubscribe event u (gw_server g))), [], g\<lparr>gw_server := snd (Server_unsubscribe event u (gw_server g))\<rparr>)
      else if Server_isAnySubscriber event (snd (Server_unsubscribe event u (gw_server g)))
      then (Inr Err_None, [], g\<lparr>gw_server := snd (Server_unsubscribe event u (gw_server g))\<rparr>)
      else case Gateway_request J W event (listen_params J False) None now (unsubscribe_ready event u g) of
           (Inl e, g2) \<Rightarrow> (Inl e, [], g2)
         | (Inr p, g2) \<Rightarrow>
             (case Gateway_run J W evs g2 of (outs, g3) \<Rightarrow>
                (Inr (case client_promises (gw_client g3) p of
                        None \<Rightarrow> Err_None
                      | Some result \<Rightarrow> if has_value result then Err_None else result_error result), outs, g3)))"
  by (simp add: Gateway_unsubscribe_def unsubscribe_ready_def Let_def case_prod_beta split: sum.splits option.splits)

lemma gateway_inv_unsubscribe [fb_inv]:
  assumes "gateway_inv g" and "ids_left (gw_transport g)"
  shows "gateway_inv (snd (snd (Gateway_unsubscribe J W event u now evs g)))"
proof -
  have g1: "gateway_inv (g\<lparr>gw_server := snd (Server_unsubscribe event u (gw_server g))\<rparr>)"
    using assms by (intro gateway_inv_server server_inv_unsubscribe) (simp_all add: gateway_inv_def)
  have "om_wf (erase_event event (gw_rpcv1_eventMap g))"
    using assms(1) by (simp add: gateway_inv_def erase_event_wf)
  moreover have "fst ` set (erase_event event (gw_rpcv1_eventMap g)) \<subseteq> ids_used (gw_transport g)"
    by (rule subset_trans[OF image_mono[OF erase_event_set]]) (use assms(1) in \<open>simp add: gateway_inv_def\<close>)
  ultimately have "gateway_inv (unsubscribe_ready event u g)"
    using gateway_inv_event_map[OF g1] g1 by (simp add: unsubscribe_ready_def Let_def)
  then have "gateway_inv (snd (Gateway_request J W event (listen_params J False) None now (unsubscribe_ready event u g)))"
    using assms(2) by (intro gateway_inv_request) (simp_all add: unsubscribe_ready_def Let_def)
  from this gateway_inv_run[OF this] g1 show ?thesis
    by (simp add: unsubscribe_cases case_prod_beta split: sum.splits)
qed

section \<open>What the library's threads leave alone\<close>

definition kept :: "('k, 'j) Gateway \<Rightarrow> ('k, 'j) Gateway \<Rightarrow> bool" where
  "kept g g' \<longleftrightarrow> sv_eventList (gw_server g') = sv_eventList (gw_server g)
     \<and> gw_rpcv1_eventMap g' = gw_rpcv1_eventMap g \<and> gw_legacyRPCv1 g' = gw_legacyRPCv1 g
     \<and> gw_listener g' = gw_listener g \<and> gw_waitTime_ms g' = gw_waitTime_ms g
     \<and> (sv_stop (gw_server g) \<longrightarrow> sv_stop (gw_server g'))"

lemma kept_refl [simp]: "kept g g"
  by (simp add: kept_def)

lemma kept_trans: "kept g g' \<Longrightarrow> kept g' g'' \<Longrightarrow> kept g g''"
  by (simp add: kept_def)

lemma kept_cleanup: "kept g (snd (snd (Gateway_cleanupInternalState g)))"
  by (auto simp: kept_def Gateway_cleanupInternalState_def stopNotificationWorker_eq Let_def case_prod_beta
      split: option.splits)

lemma kept_connection_change: "kept g (snd (Gateway_onConnectionChange b e now g))"
proof -
  let ?g = "snd (connection_notice b e now g)"
  have "kept g ?g" by (simp add: kept_def)
  moreover have "kept ?g (snd (snd (Gateway_cleanupInternalState ?g)))" by (rule kept_cleanup)
  ultimately show ?thesis
    using kept_trans[of g ?g] by (auto simp: Gateway_onConnectionChange_def case_prod_beta Let_def split: option.splits)
qed

lemma kept_deliver: "kept g (snd (Gateway_deliver J payload g))"
proof -
  have "kept g (snd (Gateway_onMessage J message g))" for message
    by (auto simp: kept_def Gateway_onMessage_def Server_notify_def case_prod_beta Let_def split: sum.splits)
  then show ?thesis
    by (auto simp: Gateway_deliver_def case_prod_beta Let_def split: sum.splits option.splits)
qed

lemma kept_upcalls: "kept g (snd (Gateway_upcalls J now us g))"
proof (induction us arbitrary: g)
  case (Cons u us)
  have "kept g (snd (Gateway_upcall J now u g))"
    by (cases u) (simp_all add: kept_deliver kept_connection_change)
  with Cons.IH show ?case by (auto simp: case_prod_beta Let_def intro: kept_trans)
qed simp

lemma kept_event: "kept g (snd (Gateway_event J W ev g))"
proof (cases ev)
  case (EvIo e now)
  have "kept g (g\<lparr>gw_transport := t\<rparr>)" for t by (simp add: kept_def)
  then show ?thesis using EvIo kept_upcalls kept_trans by (fastforce simp: case_prod_beta Let_def)
next
  case EvMessage
  have "kept g (g\<lparr>gw_transport := t\<rparr>)" for t by (simp add: kept_def)
  with kept_trans[OF this kept_deliver] EvMessage show ?thesis by (auto simp: case_prod_beta split: pass.splits)
next
  case EvNotification
  have "sv_eventList (snd (processQueuedNotifications_pass (gw_server g))) = sv_eventList (gw_server g)"
      "sv_stop (snd (processQueuedNotifications_pass (gw_server g))) = sv_stop (gw_server g)"
    by (simp_all add: processQueuedNotifications_pass_def split: list.splits)
  with EvNotification show ?thesis by (auto simp: kept_def case_prod_beta split: pass.splits)
qed (simp add: kept_def)

lemma kept_run: "kept g (snd (Gateway_run J W evs g))"
proof (induction evs arbitrary: g)
  case (Cons ev evs)
  with kept_event[of g J W ev] show ?case by (auto simp: case_prod_beta Let_def intro: kept_trans)
qed simp

lemma upcalls_transport: "gw_transport (snd (Gateway_upcalls J now us g)) = gw_transport g"
proof (induction us arbitrary: g)
  case (Cons u us)
  have "gw_transport (snd (Gateway_onMessage J message g)) = gw_transport g" for message
    by (auto simp: Gateway_onMessage_def case_prod_beta Let_def split: sum.splits)
  moreover have "gw_transport (snd (snd (Gateway_cleanupInternalState g'))) = gw_transport g'" for g' :: "('a, 'b) Gateway"
    by (auto simp: Gateway_cleanupInternalState_def case_prod_beta Let_def split: option.splits)
  ultimately have "gw_transport (snd (Gateway_upcall J now u g)) = gw_transport g"
    by (cases u) (auto simp: Gateway_deliver_def Gateway_onConnectionChange_def case_prod_beta Let_def split: sum.splits option.splits)
  with Cons.IH show ?case by (simp add: case_prod_beta Let_def)
qed simp

lemma deliver_transport: "gw_transport (snd (Gateway_deliver J payload g)) = gw_transport g"
  using upcalls_transport [of J 0 "[UpMessage payload]" g] by (simp add: case_prod_beta Let_def)

lemma request_frame:
  "gw_server (snd (Gateway_request J W m p idOpt now g)) = gw_server g"
  "kept g (snd (Gateway_request J W m p idOpt now g))"
  by (simp_all add: Gateway_request_def kept_def case_prod_beta Let_def)

end
