(* ===== verification/Fb_Gateway_Reach.thy ===== *)
theory Fb_Gateway_Reach
  imports Fb_Gateway
begin

text \<open>
  The reachable states of the gateway, and what holds of the request table in all of them. The
  locale \<open>client_steps\<close> lifts a property of the table that the library's threads keep to every run of
  them, and \<open>client_invariant\<close>, with the requests, to every reachable state; both are interpreted on
  \<open>accounted\<close> (inside \<open>json_lib\<close>) and \<open>results_wf\<close>.
\<close>

section \<open>Reachable states\<close>

text \<open>
  Any order of API calls and thread steps, where the websocket library may answer differently in
  every step; a call that takes an id is made while the 32-bit counter has not wrapped.
\<close>

inductive gateway_step :: "'j json_api \<Rightarrow> ('k, 'j) Gateway \<Rightarrow> ('k, 'j) Gateway \<Rightarrow> bool" for J where
  gs_connect: "gateway_step J g (snd (snd (Gateway_connect J W getenv cfg k evs g)))"
| gs_disconnect: "gateway_step J g (snd (snd (Gateway_disconnect J W evs now g)))"
| gs_request: "ids_left (gw_transport g) \<Longrightarrow> gateway_step J g (snd (Gateway_request J W m p None now g))"
| gs_subscribe: "ids_left (gw_transport g) \<Longrightarrow>
    gateway_step J g (snd (snd (Gateway_subscribe J W event k u now evs g)))"
| gs_unsubscribe: "ids_left (gw_transport g) \<Longrightarrow>
    gateway_step J g (snd (snd (Gateway_unsubscribe J W event u now evs g)))"
| gs_event: "gateway_step J g (snd (Gateway_event J W ev g))"

inductive gateway_reachable :: "'j json_api \<Rightarrow> ('k, 'j) Gateway \<Rightarrow> bool" for J where
  gr_start: "gateway_reachable J Gateway_init"
| gr_step: "gateway_reachable J g \<Longrightarrow> gateway_step J g g' \<Longrightarrow> gateway_reachable J g'"

lemma gateway_inv_step: "gateway_step J g g' \<Longrightarrow> gateway_inv g \<Longrightarrow> gateway_inv g'"
  by (induction rule: gateway_step.induct)
     (simp_all add: gateway_inv_connect gateway_inv_disconnect gateway_inv_request gateway_inv_subscribe
        gateway_inv_unsubscribe gateway_inv_event)

lemma gateway_reachable_inv: "gateway_reachable J g \<Longrightarrow> gateway_inv g"
  by (induction rule: gateway_reachable.induct) (auto intro: gateway_inv_init gateway_inv_step)

lemma reachable_run: "gateway_reachable J g \<Longrightarrow> gateway_reachable J (snd (Gateway_run J W evs g))"
proof (induction evs arbitrary: g)
  case (Cons ev evs)
  from Cons.IH[OF gr_step[OF Cons.prems gs_event[of J g W ev]]] show ?case by (simp add: case_prod_beta Let_def)
qed simp

text \<open>
  A property of the request table that the library's own threads keep (\<open>client_steps\<close>) and that
  requests keep too (\<open>client_invariant\<close>) holds in every reachable state of the gateway.
\<close>

definition gateway_good :: "('j Client \<Rightarrow> bool) \<Rightarrow> ('k, 'j) Gateway \<Rightarrow> bool" where
  "gateway_good P g \<longleftrightarrow> gateway_inv g \<and> P (gw_client g)"

lemma good_wf: "gateway_good P g \<Longrightarrow> client_wf (gw_client g) \<and> gw_watchdogThread g = gw_watchdogRunning g"
  by (simp add: gateway_good_def gateway_inv_def)

locale client_steps =
  fixes J :: "'j json_api" and P :: "'j Client \<Rightarrow> bool"
  assumes P_check: "client_wf c \<Longrightarrow> P c \<Longrightarrow> P (snd (Client_checkPromises now wait c))"
    and P_cancel: "client_wf c \<Longrightarrow> P c \<Longrightarrow> P (snd (Client_cancelAll c))"
    and P_response: "client_wf c \<Longrightarrow> P c \<Longrightarrow>
      js_contains J message ''result'' \<or> js_contains J message ''error'' \<Longrightarrow> P (snd (Client_response J message c))"
begin

lemma good_cleanup: "gateway_good P g \<Longrightarrow> gateway_good P (snd (snd (Gateway_cleanupInternalState g)))"
  using gateway_inv_cleanup[of g] good_wf[of P g]
  by (auto simp: gateway_good_def cleanup_eq P_cancel)

lemma good_connection_change:
  assumes "gateway_good P g"
  shows "gateway_good P (snd (Gateway_onConnectionChange b e now g))"
proof -
  let ?g = "snd (connection_notice b e now g)"
  have g: "gateway_good P ?g" using assms by (simp add: gateway_good_def gateway_inv_def)
  then have "fst (Gateway_cleanupInternalState ?g) = None" using good_wf[OF g] by (simp add: cleanup_eq)
  with g good_cleanup[OF g] show ?thesis
    by (auto simp: Gateway_onConnectionChange_def case_prod_beta Let_def split: option.splits)
qed

lemma good_deliver:
  assumes "gateway_good P g"
  shows "gateway_good P (snd (Gateway_deliver J payload g))"
proof -
  have "P (gw_client (snd (Gateway_onMessage J message g)))" for message
    using P_response[of "gw_client g" message] assms
    by (auto simp: Gateway_onMessage_def gateway_good_def gateway_inv_def case_prod_beta Let_def split: sum.splits)
  then have "gateway_good P (snd (Gateway_onMessage J message g))" for message
    using assms by (simp add: gateway_good_def gateway_inv_message)
  then show ?thesis
    using assms by (auto simp: Gateway_deliver_def case_prod_beta Let_def split: sum.splits option.splits)
qed

lemma good_upcalls:
  "gateway_good P g \<Longrightarrow> gateway_good P (snd (Gateway_upcalls J now us g))"
proof (induction us arbitrary: g)
  case (Cons u us)
  then have "gateway_good P (snd (Gateway_upcall J now u g))"
    by (cases u) (simp_all add: good_deliver good_connection_change)
  with Cons.IH show ?case by (simp add: case_prod_beta Let_def)
qed simp

lemma good_event:
  assumes "gateway_good P g"
  shows "gateway_good P (snd (Gateway_event J W ev g))"
proof -
  have inv: "gateway_inv (snd (Gateway_event J W ev g))"
    using assms by (simp add: gateway_good_def gateway_inv_event)
  show ?thesis
  proof (cases ev)
    case (EvIo e now)
    have "gateway_good P (g\<lparr>gw_transport := snd (Transport_io W e (gw_transport g))\<rparr>)" if "tr_connectionThread (gw_transport g)"
      using assms that by (auto simp: gateway_good_def gateway_inv_def ids_used_def intro: transport_inv_io)
    with assms EvIo show ?thesis by (simp add: case_prod_beta Let_def good_upcalls)
  next
    case EvMessage
    have t: "gateway_good P (g\<lparr>gw_transport := snd (processQueuedMessages_pass (gw_transport g))\<rparr>)"
      if "tr_messageWorker (gw_transport g)"
      using assms transport_inv_step[OF ts_pass[OF that, of J]]
      by (auto simp: gateway_good_def gateway_inv_def ids_used_def)
    then show ?thesis
      using assms EvMessage good_deliver by (auto simp: case_prod_beta split: pass.splits)
  next
    case EvNotification
    then show ?thesis using inv assms by (auto simp: gateway_good_def case_prod_beta split: pass.splits)
  next
    case (EvWatchdog now)
    have "P (snd (Client_checkPromises now (gw_waitTime_ms g) (gw_client g)))"
      using assms by (intro P_check) (simp_all add: gateway_good_def gateway_inv_def)
    then show ?thesis using EvWatchdog inv assms by (auto simp: gateway_good_def)
  qed
qed

lemma good_run: "gateway_good P g \<Longrightarrow> gateway_good P (snd (Gateway_run J W evs g))"
  by (induction evs arbitrary: g) (simp_all add: case_prod_beta Let_def good_event)

lemma good_disconnect:
  assumes "gateway_good P g"
  shows "gateway_good P (snd (snd (Gateway_disconnect J W evs now g)))"
proof -
  let ?t = "snd (snd (Transport_disconnect W evs (gw_transport g)))"
  have "gateway_good P (g\<lparr>gw_transport := ?t\<rparr>)"
    using assms transport_inv_disconnect[of "gw_transport g"] by (simp add: gateway_good_def gateway_inv_def ids_used_def)
  then have "gateway_good P (snd (Gateway_upcalls J now us (g\<lparr>gw_transport := ?t\<rparr>)))" for us
    by (rule good_upcalls)
  then show ?thesis
    using good_cleanup by (auto simp: Gateway_disconnect_def Let_def case_prod_beta split: option.splits sum.splits)
qed

lemma good_connect:
  assumes "gateway_good P g"
  shows "gateway_good P (snd (snd (Gateway_connect J W getenv cfg k evs g)))"
proof -
  have "gateway_good P (snd (connect_attempt W getenv cfg k g))"
    using assms gateway_inv_connect_attempt[of g] by (simp add: gateway_good_def connect_attempt_frame)
  from good_run[OF this] show ?thesis
    by (simp add: connect_cases case_prod_beta gateway_good_def gateway_inv_def)
qed

end

text \<open>The errors the library itself gives to a request.\<close>

definition own_errors :: "Error set" where
  "own_errors = {Err_NotConnected, Err_Timedout, Err_General}"

lemma send_own_error: "fst (Transport_send J W m p i t) = Inr err \<Longrightarrow> err \<noteq> Err_None \<Longrightarrow> err \<in> own_errors"
  by (auto simp: Transport_send_def case_prod_beta Let_def mapError_def own_errors_def
      split: sum.splits if_splits option.splits)

locale client_invariant = client_steps +
  assumes P_init: "P Client_init"
    and P_enqueue: "client_wf c \<Longrightarrow> P c \<Longrightarrow> i \<notin> fst ` set (client_queue c) \<Longrightarrow> P (snd (request_enqueue i m now c))"
    and P_refuse: "client_wf c \<Longrightarrow> P c \<Longrightarrow> err \<in> own_errors \<Longrightarrow> P (c\<lparr>client_next := Suc (client_next c),
      client_promises := (client_promises c)(client_next c := Some (Result_error err))\<rparr>)"
begin

lemma P_request:
  assumes "client_wf c" and "i \<notin> fst ` set (client_queue c)" and "P c"
    and "\<And>err. fst (send m p i t) = Inr err \<Longrightarrow> err \<noteq> Err_None \<Longrightarrow> err \<in> own_errors"
    and r: "Client_request next_id send m p (Some i) now c t = (r, c', t')"
  shows "P c'"
  using P_enqueue[OF assms(1,3,2), of m now] P_refuse[OF assms(1,3)] assms(4) r
  by (auto simp: request_fresh_eq[OF assms(1,2)] split: sum.splits prod.splits if_splits)

lemma good_request_id:
  assumes "gateway_good P g" and "i \<notin> fst ` set (client_queue (gw_client g))" and "i \<in> ids_used (gw_transport g)"
  shows "gateway_good P (snd (Gateway_request J W m p (Some i) now g))"
proof -
  obtain r c t where r: "Client_request Transport_getNextMessageID (Transport_send J W) m p (Some i) now
      (gw_client g) (gw_transport g) = (r, c, t)" using prod_cases3 by blast
  have "client_wf (gw_client g)" "P (gw_client g)" using assms(1) by (simp_all add: gateway_good_def gateway_inv_def)
  from P_request[OF this(1) assms(2) this(2) send_own_error r] have "P c" .
  then show ?thesis
    using gateway_inv_request_id[OF _ assms(2,3)] assms(1) by (simp add: gateway_good_def) (simp add: Gateway_request_def r)
qed

lemma good_request:
  assumes "gateway_good P g" and "ids_left (gw_transport g)"
  shows "gateway_good P (snd (Gateway_request J W m p None now g))"
proof -
  obtain i t where i: "Transport_getNextMessageID (gw_transport g) = (i, t)" by fastforce
  have "gateway_inv g" using assms(1) by (simp add: gateway_good_def)
  note n = gateway_inv_next_id[OF this assms(2) i]
  have "gateway_good P (g\<lparr>gw_transport := t\<rparr>)" using n(1) assms(1) by (simp add: gateway_good_def)
  from good_request_id[OF this] n(2,3) show ?thesis by (simp add: request_none_id[OF i])
qed

lemma good_subscribe_undo: "gateway_good P g \<Longrightarrow> gateway_good P (subscribe_undo event u i g)"
  using gateway_inv_subscribe_undo[of g event u i]
  by (simp add: gateway_good_def) (simp add: subscribe_undo_def Let_def)

lemma good_subscribe:
  assumes "gateway_good P g" and "ids_left (gw_transport g)"
  shows "gateway_good P (snd (snd (Gateway_subscribe J W event k u now evs g)))"
proof -
  have inv: "gateway_inv g" using assms(1) by (simp add: gateway_good_def)
  obtain i g1 where r: "subscribe_ready event k u g = (i, g1)" by fastforce
  have "gw_client g1 = gw_client g" using r by (auto simp: subscribe_ready_def case_prod_beta Let_def split: if_splits)
  then have "gateway_good P g1" "i \<notin> fst ` set (client_queue (gw_client g1))" "i \<in> ids_used (gw_transport g1)"
    using gateway_inv_subscribe_ready[OF inv assms(2) r] assms(1) by (simp_all add: gateway_good_def)
  then have "gateway_good P (snd (Gateway_request J W event (listen_params J True) (Some i) now g1))"
    by (rule good_request_id)
  moreover from good_run[OF this]
  have "gateway_good P (snd (Gateway_run J W evs (snd (Gateway_request J W event (listen_params J True) (Some i) now g1))))" .
  moreover have "gateway_good P (g\<lparr>gw_server := snd (Server_subscribe event k u (gw_server g))\<rparr>)"
    using inv assms(1) gateway_inv_server[OF inv server_inv_subscribe] by (simp add: gateway_good_def gateway_inv_def)
  ultimately show ?thesis
    by (simp add: subscribe_cases r case_prod_beta good_subscribe_undo split: sum.splits)
qed

lemma good_unsubscribe:
  assumes "gateway_good P g" and "ids_left (gw_transport g)"
  shows "gateway_good P (snd (snd (Gateway_unsubscribe J W event u now evs g)))"
proof -
  have inv: "gateway_inv g" using assms(1) by (simp add: gateway_good_def)
  have g1: "gateway_good P (g\<lparr>gw_server := snd (Server_unsubscribe event u (gw_server g))\<rparr>)"
    using inv assms(1) gateway_inv_server[OF inv server_inv_unsubscribe] by (simp add: gateway_good_def gateway_inv_def)
  have "fst ` set (erase_event event (gw_rpcv1_eventMap g)) \<subseteq> ids_used (gw_transport g)"
    by (rule subset_trans[OF image_mono[OF erase_event_set]]) (use inv in \<open>simp add: gateway_inv_def\<close>)
  with g1 have "gateway_good P (unsubscribe_ready event u g)"
    by (simp add: unsubscribe_ready_def Let_def gateway_good_def gateway_inv_def erase_event_wf)
  then have "gateway_good P (snd (Gateway_request J W event (listen_params J False) None now (unsubscribe_ready event u g)))"
    using assms(2) by (intro good_request) (simp_all add: unsubscribe_ready_def Let_def)
  from this good_run[OF this] g1 show ?thesis
    by (simp add: unsubscribe_cases case_prod_beta split: sum.splits)
qed

lemma good_reachable: "gateway_reachable J g \<Longrightarrow> gateway_good P g"
proof (induction rule: gateway_reachable.induct)
  case gr_start
  show ?case using P_init by (simp add: gateway_good_def gateway_inv_init) (simp add: Gateway_init_def)
next
  case (gr_step g g')
  from gr_step(2,3) show ?case
    by (induction rule: gateway_step.induct)
      (simp_all add: good_connect good_disconnect good_request good_subscribe good_unsubscribe good_event)
qed

end

section \<open>Every promise is accounted for\<close>

text \<open>The callers that satisfy \<open>P\<close> are taken out of the queue and answered with \<open>r\<close>.\<close>

definition taken :: "(u32 \<times> Caller \<Rightarrow> bool) \<Rightarrow> 'j Result \<Rightarrow> 'j Client \<Rightarrow> 'j Client" where
  "taken P r c = c\<lparr>client_queue := filter (\<lambda>it. \<not> P it) (client_queue c), client_promises :=
     (\<lambda>p. if p \<in> (caller_promise \<circ> snd) ` set (filter P (client_queue c)) then Some r else client_promises c p)\<rparr>"

lemma checkPromises_taken:
  "client_wf c \<Longrightarrow> snd (Client_checkPromises now wait c) = taken (\<lambda>it. timed_out now wait (snd it)) (Result_error Err_Timedout) c"
  by (simp add: checkPromises_eq taken_def)

lemma cancelAll_taken: "client_wf c \<Longrightarrow> snd (Client_cancelAll c) = taken (\<lambda>_. True) (Result_error Err_NotConnected) c"
  by (simp add: cancelAll_eq taken_def pending_def)

lemma response_taken:
  assumes "json_lib J" and "client_wf c" and "js_contains J message ''result'' \<or> js_contains J message ''error''"
  shows "snd (Client_response J message c) = c \<or> (\<exists>i r. snd (Client_response J message c) = taken (\<lambda>it. fst it = i) r c)"
proof (cases "response_id J message")
  case (Inr i)
  obtain r where r: "response_result J message = Inr r"
    using json_lib.result_total[OF assms(1,3)] by blast
  show ?thesis
  proof (cases "om_lookup (client_queue c) i")
    case None
    then show ?thesis by (simp add: response_nobody[OF Inr])
  next
    case (Some x)
    have "(i, x) \<in> set (client_queue c)" using Some assms(2) by (simp add: om_lookup_Some client_wf_queue)
    then have "filter (\<lambda>it. fst it = i) (client_queue c) = [(i, x)]"
      by (rule filter_key[OF client_wf_queue[OF assms(2)]])
    then have "snd (Client_response J message c) = taken (\<lambda>it. fst it = i) r c"
      by (simp add: response_match[OF assms(2) Inr Some r] taken_def om_delete_def fun_upd_def cong: if_cong)
    then show ?thesis by blast
  qed
qed (simp add: Client_response_def)

text \<open>With the documented JSON package, the library's threads only ever take callers and answer them.\<close>

lemma taken_client_steps:
  assumes "json_lib J" and "\<And>c P r. client_wf c \<Longrightarrow> Q c \<Longrightarrow> Q (taken P r c)"
  shows "client_steps J Q"
proof
  fix c message
  assume c: "client_wf c" "Q c" "js_contains J message ''result'' \<or> js_contains J message ''error''"
  from response_taken[OF assms(1) c(1,3)] assms(2)[OF c(1,2)] c(2) show "Q (snd (Client_response J message c))" by auto
qed (simp_all add: checkPromises_taken cancelAll_taken assms(2))

definition accounted :: "'j Client \<Rightarrow> bool" where
  "accounted c \<longleftrightarrow> (\<forall>p < client_next c. client_promises c p \<noteq> None \<or> p \<in> pending c)"

lemma accounted_taken: "accounted c \<Longrightarrow> accounted (taken P r c)"
  by (force simp: accounted_def pending_def taken_def)

lemma accounted_enqueue:
  assumes "client_wf c" and "accounted c" and "i \<notin> fst ` set (client_queue c)"
  shows "accounted (snd (request_enqueue i m now c))"
proof -
  obtain x c1 where e: "request_enqueue i m now c = (x, c1)" by fastforce
  show ?thesis using assms(2) enqueue_pending[OF e assms(3,1)] e by (auto simp: accounted_def less_Suc_eq)
qed

context json_lib
begin

lemma accounted_invariant: "client_invariant J accounted"
proof -
  have "client_steps J accounted"
    by (rule taken_client_steps[OF json_lib_axioms]) (rule accounted_taken)
  then show ?thesis
  proof (rule client_invariant.intro, unfold_locales)
    show "accounted (c\<lparr>client_next := Suc (client_next c),
        client_promises := (client_promises c)(client_next c := Some (Result_error err))\<rparr>)"
      if "accounted c" for c and err
      using that by (auto simp: accounted_def less_Suc_eq pending_def)
  qed (auto simp: accounted_enqueue, simp add: accounted_def Client_init_def)
qed

end

sublocale json_lib < acc: client_invariant J accounted
  by (rule accounted_invariant)

section \<open>Every answer is well formed\<close>

text \<open>
  A value comes with no error and no details; an error is one of the library's own, with default
  details, or the server's, with its code and its text as the details.
\<close>

definition result_wf :: "'j Result \<Rightarrow> bool" where
  "result_wf r \<longleftrightarrow> (\<exists>v. r = Result_value v) \<or> (\<exists>e \<in> own_errors. r = Result_error e)
     \<or> (\<exists>code what. r = Result_error_info (error_of_code code) \<lparr>info_error = code, info_message = what\<rparr>)"

definition results_wf :: "'j Client \<Rightarrow> bool" where
  "results_wf c \<longleftrightarrow> (\<forall>r \<in> ran (client_promises c). result_wf r)"

lemma result_wf_error: "e \<in> own_errors \<Longrightarrow> result_wf (Result_error e)"
  by (auto simp: result_wf_def)

lemma result_wf_response: "response_result J message = Inr r \<Longrightarrow> result_wf r"
  by (auto simp: response_result_def result_wf_def case_prod_beta Let_def exn_bind_def split: if_splits sum.splits)

lemma results_wf_taken:
  assumes "results_wf c" and "result_wf r"
  shows "results_wf (c\<lparr>client_queue := q, client_promises := (\<lambda>p. if p \<in> S then Some r else client_promises c p)\<rparr>)"
  using assms by (auto simp: results_wf_def ran_def)

lemma results_wf_response:
  assumes "results_wf c"
  shows "results_wf (snd (Client_response J message c))"
  using assms result_wf_response[of J message]
  by (auto simp: Client_response_def response_take_def promise_set_def results_wf_def ran_def
      split: sum.splits option.splits)

interpretation rw: client_invariant J results_wf
proof unfold_locales
  have e: "result_wf (Result_error Err_Timedout)" "result_wf (Result_error Err_NotConnected)"
    by (auto intro!: result_wf_error simp: own_errors_def)
  fix c :: "'a Client" and now wait i m message err
  assume wf: "client_wf c" and c: "results_wf c"
  show "results_wf (snd (Client_checkPromises now wait c))" "results_wf (snd (Client_cancelAll c))"
    using results_wf_taken[OF c] e by (simp_all add: checkPromises_eq[OF wf] cancelAll_eq[OF wf])
  show "results_wf (snd (Client_response J message c))" by (rule results_wf_response[OF c])
  show "results_wf (snd (request_enqueue i m now c))" using c by (simp add: request_enqueue_def results_wf_def Let_def)
  assume "err \<in> own_errors"
  then show "results_wf (c\<lparr>client_next := Suc (client_next c),
      client_promises := (client_promises c)(client_next c := Some (Result_error err))\<rparr>)"
    using c result_wf_error[of err] by (auto simp: results_wf_def ran_def)
qed (simp add: results_wf_def Client_init_def)

end
