(* ===== verification/Fb_Gateway_Props.thy ===== *)
theory Fb_Gateway_Props
  imports Fb_Gateway_Reach
begin

text \<open>
  The properties of the gateway: its invariant, the routing of messages, subscriptions, loss of
  the connection, \<open>disconnect\<close>, the destructor, and the exceptions that cannot leave its threads.
\<close>

section \<open>Properties\<close>

text \<open>A JSON package that knows a few payloads, and a gateway whose connection has opened.\<close>

definition ex_json :: "jval json_api" where
  "ex_json = ref_json [(''ack1'', JObj [(''id'', JUInt 1), (''result'', JObj [(''listening'', JBool True)])]),
     (''ack2'', JObj [(''id'', JUInt 2), (''result'', JObj [(''listening'', JBool True)])]),
     (''note'', JObj [(''method'', JStr ''tts.stop''), (''params'', JObj [(''value'', JStr ''x'')])]),
     (''req1'', JObj [(''id'', JUInt 1), (''jsonrpc'', JStr ''2.0''), (''method'', JStr ''device.name''),
        (''params'', JObj [(''k'', JBool True)])])]"

lemma ex_json_lib: "json_lib ex_json"
  unfolding ex_json_def by (rule ref_json_lib)

definition ex_config :: Config where
  "ex_config = (Config_default False)\<lparr>cfg_wsUrl := ''ws://h''\<rparr>"

definition ex_gateway :: "(nat, jval) Gateway" where
  "ex_gateway = snd (Gateway_event (ex_json) ex_ws (EvIo (IoOpen 7) 1)
     (snd (snd (Gateway_connect (ex_json) ex_ws (\<lambda>_. None) ex_config 5 [] Gateway_init))))"

lemma ex_gateway_reachable: "gateway_reachable ex_json ex_gateway"
  unfolding ex_gateway_def by (rule gr_step[OF gr_step[OF gr_start gs_connect] gs_event])

text \<open>
  C7. In every reachable state of the gateway, whatever the order of API calls, websocket events
  and thread steps: the watchdog thread exists exactly while a connection is started, the
  request table is well formed and its ids are ids handed out, no subscriber is registered
  twice for an event, and the websocket thread and the message worker run exactly while the
  transport is started.
\<close>

theorem gateway_invariant:
  assumes "gateway_reachable J g"
  shows "(gw_watchdogThread g \<longleftrightarrow> gw_connectionStarted g) \<and> client_wf (gw_client g)
    \<and> fst ` set (client_queue (gw_client g)) \<subseteq> ids_used (gw_transport g)
    \<and> distinct (map (\<lambda>e. (ev_name e, ev_usercb e)) (sv_eventList (gw_server g)))
    \<and> (tr_connectionThread (gw_transport g) \<longleftrightarrow> tr_status (gw_transport g) \<noteq> NotStarted)
    \<and> (tr_messageWorker (gw_transport g) \<longleftrightarrow> tr_status (gw_transport g) \<noteq> NotStarted)"
  using gateway_reachable_inv[OF assms]
  by (auto simp: gateway_inv_def server_inv_def transport_inv_def split: if_splits)

theorem gateway_invariant_witness: "gw_watchdogThread ex_gateway \<and> gw_connectionStarted ex_gateway"
proof -
  have "gw_connectionStarted ex_gateway" by code_simp
  then show ?thesis using gateway_invariant [OF ex_gateway_reachable] by simp
qed

text \<open>
  C23. Routing of messages, outside the legacy mode and with the JSON package as documented: a
  message with an id and a result or an error goes to the request table only; one with a method,
  parameters and no id goes to the subscribers of that method only; every other message (a
  method with an id, no parameters, or neither) changes nothing.
\<close>

theorem message_routing:
  assumes "json_lib J" and "\<not> gw_legacyRPCv1 g"
  shows "(js_contains J msg ''id'' \<and> (js_contains J msg ''result'' \<or> js_contains J msg ''error'')
        \<and> js_at J msg ''id'' = Inr v \<and> js_is_number_integer J v \<longrightarrow>
      Gateway_onMessage J msg g = (fst (Client_response J msg (gw_client g)), g\<lparr>gw_client := snd (Client_response J msg (gw_client g))\<rparr>))
    \<and> (\<not> js_contains J msg ''id'' \<and> js_at J msg ''method'' = Inr (js_str J m) \<and> js_contains J msg ''method''
        \<and> js_contains J msg ''params'' \<and> js_at J msg ''params'' = Inr p \<longrightarrow>
      Gateway_onMessage J msg g = (None, g\<lparr>gw_server := Server_notify J m p (gw_server g)\<rparr>))
    \<and> (\<not> (js_contains J msg ''id'' \<and> (js_contains J msg ''result'' \<or> js_contains J msg ''error''))
        \<and> \<not> (\<not> js_contains J msg ''id'' \<and> js_contains J msg ''method'' \<and> js_contains J msg ''params'') \<longrightarrow>
      snd (Gateway_onMessage J msg g) = g)"
proof -
  have "response_id_log J msg = Inr ()" if "js_at J msg ''id'' = Inr v" "js_is_number_integer J v"
    using that json_lib.unsigned_get[OF assms(1), of v] json_lib.integer_get[OF assms(1), of v]
    by (auto simp: response_id_log_def)
  moreover have "legacy_event J msg g = Inr []" using assms(2) by (simp add: legacy_event_def)
  ultimately show ?thesis
    using json_lib.get_string_str[OF assms(1)]
    by (auto simp: Gateway_onMessage_def case_prod_beta Let_def)
qed

theorem message_routing_witness:
  "Gateway_onMessage (ex_json) (JObj [(''method'', JStr ''tts.stop''), (''params'', JNull)]) ex_gateway
     = (None, ex_gateway\<lparr>gw_server := Server_notify (ex_json) ''tts.stop'' JNull (gw_server ex_gateway)\<rparr>)"
proof -
  let ?J = "ex_json" and ?m = "JObj [(''method'', JStr ''tts.stop''), (''params'', JNull)]"
  have l: "\<not> gw_legacyRPCv1 ex_gateway" by code_simp
  have f: "\<not> js_contains ?J ?m ''id''" "js_at ?J ?m ''method'' = Inr (js_str ?J ''tts.stop'')"
    "js_contains ?J ?m ''method''" "js_contains ?J ?m ''params''" "js_at ?J ?m ''params'' = Inr JNull"
    by (simp_all add: ex_json_def ref_json_def om_lookup_def)
  show ?thesis
    using message_routing [OF ex_json_lib l, of ?m JNull "''tts.stop''" JNull] f by simp
qed

text \<open>
  In legacy mode a result that is neither empty nor an acknowledgement (an object with
  \<open>listening\<close>) is an event if its id is one of a subscription.
\<close>

definition event_result :: "'j json_api \<Rightarrow> 'j \<Rightarrow> bool" where
  "event_result J r \<longleftrightarrow> \<not> js_empty J r \<and> \<not> (js_is_object J r \<and> js_contains J r ''listening'')"

lemma legacy_classified:
  assumes "json_lib J" and "gw_legacyRPCv1 g"
    and "js_contains J msg ''id''" and "js_at J msg ''id'' = Inr v" and "js_is_number_unsigned J v" and "js_get_u32 J v = Inr i"
    and "js_contains J msg ''result''" and "js_at J msg ''result'' = Inr r"
  shows "Gateway_onMessage J msg g =
    (case om_lookup (gw_rpcv1_eventMap g) i of
       Some event \<Rightarrow>
         if event \<noteq> [] \<and> event_result J r
         then (None, g\<lparr>gw_server := Server_notify J event r (gw_server g)\<rparr>)
         else (fst (Client_response J msg (gw_client g)), g\<lparr>gw_client := snd (Client_response J msg (gw_client g))\<rparr>)
     | None \<Rightarrow> (fst (Client_response J msg (gw_client g)), g\<lparr>gw_client := snd (Client_response J msg (gw_client g))\<rparr>))"
  using assms
  by (auto simp: Gateway_onMessage_def response_id_log_def legacy_event_def legacy_message_id_def case_prod_beta Let_def
      event_result_def split: option.splits)

lemma subscribe_ready_fields:
  assumes "subscribe_ready event k u g = (i, g1)"
  shows "gw_server g1 = snd (Server_subscribe event k u (gw_server g))" "gw_legacyRPCv1 g1 = gw_legacyRPCv1 g"
    "gw_rpcv1_eventMap g1 = (if gw_legacyRPCv1 g then om_update i event (gw_rpcv1_eventMap g) else gw_rpcv1_eventMap g)"
    "i = fst (Transport_getNextMessageID (gw_transport g))"
  using assms by (auto simp: subscribe_ready_def Let_def case_prod_beta split: if_splits)

lemma subscribe_undo_restores:
  assumes inv: "gateway_inv g" and ids: "ids_left (gw_transport g)" and r: "subscribe_ready event k u g = (i, g1)"
    and fresh: "\<not> subscribed event u (sv_eventList (gw_server g))" and kept: "kept g1 g3" and inv3: "gateway_inv g3"
  shows "sv_eventList (gw_server (subscribe_undo event u i g3)) = sv_eventList (gw_server g)"
    and "gw_rpcv1_eventMap (subscribe_undo event u i g3) = gw_rpcv1_eventMap g"
proof -
  have s: "server_inv (gw_server g)" "server_inv (gw_server g3)" using inv inv3 by (simp_all add: gateway_inv_def)
  note f = subscribe_ready_fields[OF r]
  have k: "sv_eventList (gw_server g3) = sv_eventList (snd (Server_subscribe event k u (gw_server g)))"
    "gw_rpcv1_eventMap g3 = gw_rpcv1_eventMap g1" "gw_legacyRPCv1 g3 = gw_legacyRPCv1 g"
    using kept f by (simp_all add: kept_def)
  have "sv_eventList (gw_server (subscribe_undo event u i g3)) = filter (\<lambda>e. \<not> is_subscriber event u e) (sv_eventList (gw_server g3))"
    by (simp add: subscribe_undo_def Let_def es.unsubscribe_subs[OF s(2)])
  also have "\<dots> = sv_eventList (gw_server g)"
    using es.subscribe_unsubscribe(2)[OF s(1) fresh, of k] es.unsubscribe_subs[OF server_inv_subscribe[OF s(1)], of event u event k u]
    by (simp add: k(1))
  finally show "sv_eventList (gw_server (subscribe_undo event u i g3)) = sv_eventList (gw_server g)" .
  have "i \<notin> ids_used (gw_transport g)"
    using ct.next_id_fresh[OF ids, of i "snd (Transport_getNextMessageID (gw_transport g))"] f(4) by (simp add: prod_eq_iff)
  then have "i \<notin> fst ` set (gw_rpcv1_eventMap g)"
    using inv by (auto simp: gateway_inv_def)
  then show "gw_rpcv1_eventMap (subscribe_undo event u i g3) = gw_rpcv1_eventMap g"
    using k f(3) by (simp add: subscribe_undo_def Let_def om_delete_update)
qed

text \<open>
  C11. \<open>subscribe\<close> is all or nothing, whatever happens during the wait for the acknowledgement: on
  success the listener is the last entry of the subscriber list; on any error (already
  subscribed, refused, timed out, disconnected) the subscriber list and the legacy event map
  are what they were before the call.
\<close>

theorem subscribe_all_or_nothing:
  assumes "gateway_reachable J g" and "ids_left (gw_transport g)"
    and "Gateway_subscribe J W event k u now evs g = (Inr e, outs, g')"
  shows "sv_eventList (gw_server g') =
      (if e = Err_None then sv_eventList (gw_server g) @ [\<lparr>ev_name = event, ev_lambda = k, ev_usercb = u\<rparr>]
       else sv_eventList (gw_server g))
    \<and> (e \<noteq> Err_None \<longrightarrow> gw_rpcv1_eventMap g' = gw_rpcv1_eventMap g)"
proof -
  have inv: "gateway_inv g" by (rule gateway_reachable_inv[OF assms(1)])
  then have s: "server_inv (gw_server g)" by (simp add: gateway_inv_def)
  note sub = es.subscribe_result[OF s, of event k u] es.subscribe_subs[OF s, of event k u]
  obtain i g1 where r: "subscribe_ready event k u g = (i, g1)" by fastforce
  let ?req = "Gateway_request J W event (listen_params J True) (Some i) now g1"
  have k: "kept g1 (snd (Gateway_run J W evs (snd ?req)))"
    using kept_trans[OF request_frame(2) kept_run] .
  have inv3: "gateway_inv (snd (Gateway_run J W evs (snd ?req)))"
    using gateway_inv_subscribe_ready[OF inv assms(2) r] by (intro gateway_inv_run gateway_inv_request_id) auto
  show ?thesis
  proof (cases "subscribed event u (sv_eventList (gw_server g))")
    case True
    with assms(3) sub show ?thesis by (auto simp: subscribe_cases)
  next
    case False
    note undo = subscribe_undo_restores[OF inv assms(2) r False k inv3]
    have "sv_eventList (gw_server g1) = sv_eventList (gw_server g) @ [\<lparr>ev_name = event, ev_lambda = k, ev_usercb = u\<rparr>]"
      using sub False by (simp add: subscribe_ready_fields(1)[OF r])
    then show ?thesis
      using False assms(3) sub k undo
      by (auto simp: subscribe_cases r kept_def case_prod_beta split: if_splits sum.splits)
  qed
qed

theorem subscribe_all_or_nothing_witness:
  "sv_eventList (gw_server (snd (snd (Gateway_subscribe (ex_json) ex_ws ''tts.stop'' 3 8 2 [] ex_gateway)))) = []
   \<and> fst (Gateway_subscribe (ex_json) ex_ws ''tts.stop'' 3 8 2 [] ex_gateway) = Inr Err_Timedout"
proof -
  have ids: "ids_left (gw_transport ex_gateway)" by code_simp
  have e: "sv_eventList (gw_server ex_gateway) = []" by code_simp
  have r: "fst (Gateway_subscribe (ex_json) ex_ws ''tts.stop'' 3 8 2 [] ex_gateway) = Inr Err_Timedout" by code_simp
  then obtain outs g' where g': "Gateway_subscribe (ex_json) ex_ws ''tts.stop'' 3 8 2 [] ex_gateway = (Inr Err_Timedout, outs, g')"
    by (metis prod.collapse)
  show ?thesis
    using subscribe_all_or_nothing [OF ex_gateway_reachable ids g'] g' e by simp
qed

lemma kept_request_run: "kept g (snd (Gateway_run J W evs (snd (Gateway_request J' W' m p idOpt now g))))"
  by (rule kept_trans[OF request_frame(2) kept_run])

lemma erase_added: "event \<notin> snd ` set m \<Longrightarrow> i \<notin> fst ` set m \<Longrightarrow> erase_event event (om_update i event m) = m"
proof (induction m)
  case (Cons y m)
  then show ?case by (cases y) auto
qed simp

text \<open>The entry of the event map comes with the first listener and goes with the last.\<close>

lemma legacy_subscribed:
  assumes inv: "gateway_inv g" and ids: "ids_left (gw_transport g)" and "gw_legacyRPCv1 g"
    and "\<not> Server_isAnySubscriber event (gw_server g)"
    and sub: "Gateway_subscribe J W event k u now evs g = (Inr Err_None, outs, g')"
  shows "gw_rpcv1_eventMap g' = om_update (tr_id_counter (gw_transport g) + 1) event (gw_rpcv1_eventMap g) \<and> gw_legacyRPCv1 g'
    \<and> sv_eventList (gw_server g') = sv_eventList (gw_server g) @ [\<lparr>ev_name = event, ev_lambda = k, ev_usercb = u\<rparr>]"
proof -
  have s: "server_inv (gw_server g)" using inv by (simp add: gateway_inv_def)
  obtain i g1 where r: "subscribe_ready event k u g = (i, g1)" by fastforce
  have st: "fst (Server_subscribe event k u (gw_server g)) = Err_None" using sub by (auto simp: subscribe_cases split: if_splits)
  then have fresh: "\<not> subscribed event u (sv_eventList (gw_server g))"
    using es.subscribe_result[OF s, of event k u] by auto
  note f = subscribe_ready_fields[OF r]
  have "g' = snd (Gateway_run J W evs (snd (Gateway_request J W event (listen_params J True) (Some i) now g1)))"
    using sub st assms(4) by (auto simp: subscribe_cases r case_prod_beta split: sum.splits if_splits)
  then have "kept g1 g'" using kept_request_run by simp
  then show ?thesis
    using f assms(3) es.subscribe_subs[OF s, of event k u] fresh
    by (simp add: kept_def Transport_getNextMessageID_def)
qed

lemma legacy_unsubscribed:
  assumes inv: "gateway_inv g" and "gw_legacyRPCv1 g" and "subscribed event u (sv_eventList (gw_server g))"
    and "sv_eventList (gw_server g) = es @ [\<lparr>ev_name = event, ev_lambda = k, ev_usercb = u\<rparr>]"
    and "list_ex (\<lambda>e. ev_name e = subscriber_key event) es = False"
  shows "gw_rpcv1_eventMap (snd (snd (Gateway_unsubscribe J W event u now evs g))) = erase_event event (gw_rpcv1_eventMap g)
    \<and> gw_legacyRPCv1 (snd (snd (Gateway_unsubscribe J W event u now evs g)))"
proof -
  have s: "server_inv (gw_server g)" using inv by (simp add: gateway_inv_def)
  let ?r = "unsubscribe_ready event u g" and ?q = "Gateway_request J W event (listen_params J False) None now (unsubscribe_ready event u g)"
  have st: "fst (Server_unsubscribe event u (gw_server g)) = Err_None" using es.unsubscribe_result[OF s, of event u] assms(3) by simp
  have "\<not> Server_isAnySubscriber event (snd (Server_unsubscribe event u (gw_server g)))"
    using es.unsubscribe_subs[OF s, of event u] assms(4,5)
    by (auto simp: Server_isAnySubscriber_def list_ex_iff is_subscriber_def)
  moreover have "gw_rpcv1_eventMap ?r = erase_event event (gw_rpcv1_eventMap g) \<and> gw_legacyRPCv1 ?r"
    using assms(2) by (simp add: unsubscribe_ready_def Let_def)
  moreover have "kept ?r (snd ?q)" "kept ?r (snd (Gateway_run J W evs (snd ?q)))"
    by (rule request_frame(2), rule kept_request_run)
  ultimately show ?thesis
    using st by (auto simp: unsubscribe_cases kept_def case_prod_beta split: sum.splits)
qed

text \<open>
  C29. The life of a legacy subscription, in which the events come as further replies to the
  request that subscribed. When the first listener of an event (one whose name is not in the map
  yet) has been subscribed under the id i, then from that time on and whatever the threads of the
  library do, a message with the id i and a result that is neither empty nor an acknowledgement is
  handed to the subscribers of exactly that event, among them the new listener, and leaves the
  request table alone; an acknowledgement or an empty result under i goes to the request table and
  to no subscriber; and once that listener has unsubscribed, every result under i goes to the request
  table again.
\<close>

theorem legacy_subscription_lifecycle:
  assumes "json_lib J" and "gateway_reachable J g" and "ids_left (gw_transport g)" and "gw_legacyRPCv1 g" and "event \<noteq> []"
    and "\<not> Server_isAnySubscriber event (gw_server g)" and "event \<notin> snd ` set (gw_rpcv1_eventMap g)"
    and "Gateway_subscribe J W event k u now evs g = (Inr Err_None, outs, g1)"
    and "js_contains J msg ''id''" and "js_at J msg ''id'' = Inr v" and "js_is_number_unsigned J v"
    and "js_get_u32 J v = Inr (tr_id_counter (gw_transport g) + 1)"
    and "js_contains J msg ''result''" and "js_at J msg ''result'' = Inr r"
    and "g2 = snd (Gateway_run J W evs' g1)" and "g3 = snd (snd (Gateway_unsubscribe J W event u now' evs'' g2))"
  shows "subscribed event u (sv_eventList (gw_server g2))
    \<and> (event_result J r \<longrightarrow> Gateway_onMessage J msg g2 = (None, g2\<lparr>gw_server := Server_notify J event r (gw_server g2)\<rparr>))
    \<and> (\<not> event_result J r \<longrightarrow> Gateway_onMessage J msg g2 =
        (fst (Client_response J msg (gw_client g2)), g2\<lparr>gw_client := snd (Client_response J msg (gw_client g2))\<rparr>))
    \<and> Gateway_onMessage J msg g3 =
        (fst (Client_response J msg (gw_client g3)), g3\<lparr>gw_client := snd (Client_response J msg (gw_client g3))\<rparr>)"
proof -
  let ?i = "tr_id_counter (gw_transport g) + 1" and ?m = "gw_rpcv1_eventMap g"
  have inv: "gateway_inv g" by (rule gateway_reachable_inv[OF assms(2)])
  have "gateway_reachable J (snd (snd (Gateway_subscribe J W event k u now evs g)))"
    by (rule gr_step[OF assms(2) gs_subscribe[OF assms(3)]])
  then have inv2: "gateway_inv g2" using assms(8,15) by (auto intro: gateway_reachable_inv reachable_run)
  note sub = legacy_subscribed[OF inv assms(3,4,6,8)]
  have k: "kept g1 g2" unfolding assms(15) by (rule kept_run)
  have m2: "gw_rpcv1_eventMap g2 = om_update ?i event ?m" "gw_legacyRPCv1 g2"
    and l2: "sv_eventList (gw_server g2) = sv_eventList (gw_server g) @ [\<lparr>ev_name = event, ev_lambda = k, ev_usercb = u\<rparr>]"
    using k sub by (simp_all add: kept_def)
  have listed: "subscribed event u (sv_eventList (gw_server g2))" by (simp add: l2 subscribed_def is_subscriber_def)
  have "?i \<notin> ids_used (gw_transport g)"
    using ct.next_id_fresh[OF assms(3), of ?i "(gw_transport g)\<lparr>tr_id_counter := ?i\<rparr>"] by (simp add: Transport_getNextMessageID_def)
  then have fresh: "?i \<notin> fst ` set ?m" using inv by (auto simp: gateway_inv_def)
  have "list_ex (\<lambda>e. ev_name e = subscriber_key event) (sv_eventList (gw_server g)) = False"
    using assms(6) by (simp add: Server_isAnySubscriber_def)
  from legacy_unsubscribed[OF inv2 m2(2) listed l2 this, of J W now' evs'']
  have m3: "om_lookup (gw_rpcv1_eventMap g3) ?i = None" "gw_legacyRPCv1 g3"
    using erase_added[OF assms(7) fresh] om_lookup_notin[OF fresh] by (simp_all add: assms(16) m2(1))
  note c2 = legacy_classified[OF assms(1) m2(2) assms(9-14)] and c3 = legacy_classified[OF assms(1) m3(2) assms(9-14)]
  show ?thesis
    unfolding c2 c3 m3(1) using listed assms(5) by (simp add: m2(1) om_lookup_update)
qed

text \<open>A connection in legacy mode.\<close>

definition ex_legacy :: "(nat, jval) Gateway" where
  "ex_legacy = snd (Gateway_event ex_json ex_ws (EvIo (IoOpen 7) 1)
     (snd (snd (Gateway_connect ex_json ex_ws (\<lambda>_. None) (ex_config\<lparr>cfg_legacyRPCv1 := True\<rparr>) 5 [] Gateway_init))))"

lemma ex_legacy_reachable: "gateway_reachable ex_json ex_legacy"
  unfolding ex_legacy_def by (intro gr_step[OF _ gs_event] gr_step[OF _ gs_connect] gr_start)

theorem legacy_subscription_lifecycle_witness:
  "\<exists>g1. Gateway_subscribe ex_json ex_ws ''tts.stop'' 3 8 2 [EvIo (IoMessage True ''ack1'') 3, EvMessage] ex_legacy = (Inr Err_None, [], g1)
     \<and> Gateway_onMessage ex_json (JObj [(''id'', JUInt 1), (''result'', JStr ''x'')]) g1
         = (None, g1\<lparr>gw_server := Server_notify ex_json ''tts.stop'' (JStr ''x'') (gw_server g1)\<rparr>)"
proof -
  let ?m = "JObj [(''id'', JUInt 1), (''result'', JStr ''x'')]"
  let ?s = "Gateway_subscribe ex_json ex_ws ''tts.stop'' 3 8 2 [EvIo (IoMessage True ''ack1'') 3, EvMessage] ex_legacy"
  have g: "ids_left (gw_transport ex_legacy)" "gw_legacyRPCv1 ex_legacy" "''tts.stop'' \<noteq> []"
      "\<not> Server_isAnySubscriber ''tts.stop'' (gw_server ex_legacy)" "''tts.stop'' \<notin> snd ` set (gw_rpcv1_eventMap ex_legacy)"
    by code_simp+
  have st: "fst ?s = Inr Err_None" "fst (snd ?s) = []" by code_simp+
  then have s: "?s = (Inr Err_None, [], snd (snd ?s))" by (metis prod.collapse)
  have f: "js_contains ex_json ?m ''id''" "js_at ex_json ?m ''id'' = Inr (JUInt 1)" "js_is_number_unsigned ex_json (JUInt 1)"
      "js_get_u32 ex_json (JUInt 1) = Inr (tr_id_counter (gw_transport ex_legacy) + 1)"
      "js_contains ex_json ?m ''result''" "js_at ex_json ?m ''result'' = Inr (JStr ''x'')" by code_simp+
  have e: "event_result ex_json (JStr ''x'')" by code_simp
  show ?thesis
    using legacy_subscription_lifecycle [OF ex_json_lib ex_legacy_reachable g s f refl refl, of "[]"] e s by auto
qed

lemma upstream_listed:
  assumes "gateway_reachable J g"
  shows "Server_isAnySubscriber event (gw_server g) \<and> \<not> subscribed event u (sv_eventList (gw_server g)) \<longrightarrow>
      (\<exists>s. Gateway_subscribe J W event k u now evs g = (Inr Err_None, [], g\<lparr>gw_server := s\<rparr>))"
proof -
  have s: "server_inv (gw_server g)" using gateway_reachable_inv[OF assms] by (simp add: gateway_inv_def)
  show ?thesis using es.subscribe_result[OF s, of event k u] by (auto simp: subscribe_cases)
qed

text \<open>
  Only the first listener of an event, and the last one to leave, talk to the server: when a
  listener of the event is already registered, \<open>subscribe\<close> of another one succeeds at once
  without using an id or sending anything, and so does \<open>unsubscribe\<close> while another remains.
\<close>

lemma upstream_only_for_first_and_last:
  assumes "gateway_reachable J g"
  shows "(Server_isAnySubscriber event (gw_server g) \<and> \<not> subscribed event u (sv_eventList (gw_server g)) \<longrightarrow>
      (\<exists>s. Gateway_subscribe J W event k u now evs g = (Inr Err_None, [], g\<lparr>gw_server := s\<rparr>)))
    \<and> (subscribed event u (sv_eventList (gw_server g))
        \<and> Server_isAnySubscriber event (snd (Server_unsubscribe event u (gw_server g))) \<longrightarrow>
      (\<exists>s. Gateway_unsubscribe J W event u now evs g = (Inr Err_None, [], g\<lparr>gw_server := s\<rparr>)))"
proof -
  have s: "server_inv (gw_server g)" using gateway_reachable_inv[OF assms] by (simp add: gateway_inv_def)
  show ?thesis
    using upstream_listed[OF assms, where event = event and u = u and k = k and now = now and evs = evs and W = W] es.unsubscribe_result[OF s, of event u]
    by (auto simp: unsubscribe_cases)
qed

text \<open>A listener of \<open>tts.stop\<close> whose subscription was acknowledged.\<close>

definition ex_subscribed :: "(nat, jval) Gateway" where
  "ex_subscribed = snd (snd (Gateway_subscribe ex_json ex_ws ''tts.stop'' 3 8 2
     [EvIo (IoMessage True ''ack1'') 3, EvMessage] ex_gateway))"

lemma ex_subscribed_reachable: "gateway_reachable ex_json ex_subscribed"
proof -
  have "ids_left (gw_transport ex_gateway)" by code_simp
  then show ?thesis unfolding ex_subscribed_def by (rule gr_step[OF ex_gateway_reachable gs_subscribe])
qed

text \<open>No thread of the library is left: neither the transport's two nor the server's worker nor the watchdog.\<close>

definition all_stopped :: "('k, 'j) Gateway \<Rightarrow> bool" where
  "all_stopped g \<longleftrightarrow> tr_status (gw_transport g) = NotStarted
     \<and> \<not> tr_connectionThread (gw_transport g) \<and> \<not> tr_messageWorker (gw_transport g)
     \<and> \<not> sv_worker (gw_server g) \<and> \<not> gw_watchdogThread g"

lemma disconnect_ends:
  assumes "gateway_inv g" and "close_documented W (tr_connectionHandle (gw_transport g))"
  shows "\<exists>us t ns g'. Gateway_disconnect J W evs now g =
      (Inr Err_None, fst (Gateway_upcalls J now us (g\<lparr>gw_transport := t\<rparr>)) @ map RunNotification ns, g')
    \<and> gateway_inv (g\<lparr>gw_transport := t\<rparr>) \<and> gateway_inv g' \<and> client_queue (gw_client g') = []
    \<and> all_stopped g' \<and> \<not> gw_watchdogRunning g' \<and> \<not> gw_connectionStarted g'"
proof -
  obtain st us t where t: "Transport_disconnect W evs (gw_transport g) = (st, us, t)" using prod_cases3 by blast
  then have st: "st = Inr Err_None" and ts: "tr_status t = NotStarted"
    using close_documented_ok[of W "(gw_transport g)\<lparr>tr_perpetual := False\<rparr>"] assms(2)
    by (auto simp: Transport_disconnect_def Let_def case_prod_beta split: if_splits)
  have inv: "gateway_inv (g\<lparr>gw_transport := t\<rparr>)"
    using assms(1) transport_inv_disconnect[of "gw_transport g" W evs] disconnect_id_counter[of W evs "gw_transport g"] t
    by (simp add: gateway_inv_def ids_used_def)
  obtain outs g1 where g1: "Gateway_upcalls J now us (g\<lparr>gw_transport := t\<rparr>) = (outs, g1)" by fastforce
  have inv1: "gateway_inv g1" using gateway_inv_upcalls[OF inv, of J now us] g1 by simp
  have ts1: "tr_status (gw_transport g1) = NotStarted"
    using upcalls_transport[of J now us "g\<lparr>gw_transport := t\<rparr>"] g1 ts by simp
  have wf: "client_wf (gw_client g1)" "gw_watchdogThread g1 = gw_watchdogRunning g1"
    using inv1 by (simp_all add: gateway_inv_def)
  let ?g = "snd (snd (Gateway_cleanupInternalState g1))" and ?ns = "fst (Server_stopNotificationWorker (gw_server g1))"
  have "Gateway_disconnect J W evs now g = (Inr Err_None, outs @ map RunNotification ?ns, ?g)"
    by (simp add: Gateway_disconnect_def t st g1 cleanup_eq[OF wf])
  moreover have inv': "gateway_inv ?g" using inv1 by (rule gateway_inv_cleanup)
  moreover have ts': "tr_status (gw_transport ?g) = NotStarted" by (simp add: cleanup_eq[OF wf] ts1)
  moreover have off: "client_queue (gw_client ?g) = []" "\<not> sv_worker (gw_server ?g)" "\<not> gw_watchdogRunning ?g" "\<not> gw_connectionStarted ?g"
    by (simp_all add: cleanup_eq[OF wf] cancelAll_eq[OF wf(1)] stopNotificationWorker_eq)
  moreover have "all_stopped ?g"
    using inv' ts' off by (simp add: all_stopped_def gateway_inv_def transport_inv_def)
  ultimately show ?thesis
    using inv g1 by (intro exI[of _ us] exI[of _ t] exI[of _ ?ns] exI[of _ ?g]) simp
qed

text \<open>
  C13. \<open>disconnect\<close> does not throw (where \<open>get_con_from_hdl\<close> throws at most \<open>std::bad_weak_ptr\<close>, as
  the code expects) and leaves nothing behind, whatever the websocket thread and the message worker
  still do before they are joined: every promise ever handed out has its answer, the request table
  is empty, the transport is reset, and the websocket thread, the message worker, the notification
  worker and the watchdog have all been joined. A second \<open>disconnect\<close> makes no call out of the
  library.
\<close>

theorem disconnect_settles_everything:
  assumes "json_lib J" and "gateway_reachable J g" and "close_documented W (tr_connectionHandle (gw_transport g))"
  shows "\<exists>outs g'. Gateway_disconnect J W evs now g = (Inr Err_None, outs, g')
    \<and> client_queue (gw_client g') = []
    \<and> (\<forall>p < client_next (gw_client g'). client_promises (gw_client g') p \<noteq> None)
    \<and> tr_status (gw_transport g') = NotStarted \<and> \<not> tr_connectionThread (gw_transport g')
    \<and> \<not> tr_messageWorker (gw_transport g') \<and> \<not> sv_worker (gw_server g') \<and> \<not> gw_watchdogThread g'
    \<and> \<not> gw_watchdogRunning g' \<and> \<not> gw_connectionStarted g'
    \<and> fst (snd (Gateway_disconnect J W evs' now' g')) = []"
proof -
  note acc = json_lib.accounted_invariant[OF assms(1)]
  have good: "gateway_good accounted g" by (rule client_invariant.good_reachable[OF acc assms(2)])
  obtain outs g' where d: "Gateway_disconnect J W evs now g = (Inr Err_None, outs, g')" and q: "client_queue (gw_client g') = []"
    and f: "all_stopped g'" "\<not> gw_watchdogRunning g'" "\<not> gw_connectionStarted g'"
    using disconnect_ends[OF gateway_reachable_inv[OF assms(2)] assms(3), of J evs now] by blast
  have good': "gateway_good accounted g'"
    using client_steps.good_disconnect[OF client_invariant.axioms(1)[OF acc] good, of W evs now] d by simp
  then have "\<forall>p < client_next (gw_client g'). client_promises (gw_client g') p \<noteq> None"
    using q by (simp add: gateway_good_def accounted_def pending_def)
  moreover have "fst (snd (Gateway_disconnect J W evs' now' g')) = []"
    using f good_wf[OF good']
    by (simp add: Gateway_disconnect_def Transport_disconnect_def cleanup_eq stopNotificationWorker_eq all_stopped_def)
  ultimately show ?thesis using d q f unfolding all_stopped_def by blast
qed

theorem disconnect_settles_everything_witness:
  "tr_connectionThread (gw_transport ex_subscribed)
   \<and> \<not> tr_connectionThread (gw_transport (snd (snd (Gateway_disconnect ex_json ex_ws
        [IoMessage True ''note'', IoPass, IoClose 7] 9 ex_subscribed))))"
proof -
  have "tr_connectionThread (gw_transport ex_subscribed)" by code_simp
  then show ?thesis
    using disconnect_settles_everything [OF ex_json_lib ex_subscribed_reachable ex_ws_close,
        of "[IoMessage True ''note'', IoPass, IoClose 7]" 9 "[]" 10] by auto
qed

text \<open>
  C14. When the connection is lost, every pending request is answered with \<open>NotConnected\<close> in the
  same step, the watchdog and the notification worker are stopped after the queued
  notifications were dispatched, and the application's listener is told exactly once, last,
  even when the log notice about it is suppressed.
\<close>

theorem connection_loss_answers_everyone:
  assumes "gateway_reachable J g" and "gw_listener g = Some listener"
  shows "\<exists>g'. Gateway_onConnectionChange False e now g =
      (map RunNotification (fst (Server_stopNotificationWorker (gw_server g))) @ [CallListener listener False e], g')
    \<and> client_queue (gw_client g') = []
    \<and> (\<forall>p \<in> pending (gw_client g). client_promises (gw_client g') p = Some (Result_error Err_NotConnected))
    \<and> \<not> gw_watchdogRunning g' \<and> \<not> sv_worker (gw_server g') \<and> \<not> gw_connectionStarted g'"
proof -
  let ?g = "snd (connection_notice False e now g)"
  have inv: "gateway_inv g" by (rule gateway_reachable_inv[OF assms(1)])
  then have wf: "client_wf (gw_client ?g)" "gw_watchdogThread ?g = gw_watchdogRunning ?g" by (simp_all add: gateway_inv_def)
  have "client_wf (gw_client g)" using inv by (simp add: gateway_inv_def)
  then show ?thesis
    using assms(2)
    by (simp add: Gateway_onConnectionChange_def case_prod_beta Let_def cleanup_eq[OF wf] cancelAll_eq
        stopNotificationWorker_eq)
qed

theorem connection_loss_answers_everyone_witness:
  "\<exists>g'. Gateway_onConnectionChange False Err_General 9 ex_subscribed = ([CallListener 5 False Err_General], g')"
proof -
  have l: "gw_listener ex_subscribed = Some 5" by code_simp
  have n: "fst (Server_stopNotificationWorker (gw_server ex_subscribed)) = []" by code_simp
  show ?thesis
    using connection_loss_answers_everyone [OF ex_subscribed_reachable l, of Err_General 9] by (auto simp: n)
qed

text \<open>
  No request of the public interface is ever lost: in every reachable state each promise that
  was handed out has its answer or waits in the request table, where a reply, the watchdog, a
  lost connection or \<open>disconnect\<close> will answer it.
\<close>

lemma requests_always_accounted:
  assumes "json_lib J" and "gateway_reachable J g" and "p < client_next (gw_client g)"
  shows "client_promises (gw_client g) p \<noteq> None
    \<or> (\<exists>x. om_lookup (client_queue (gw_client g)) (caller_id x) = Some x \<and> caller_promise x = p)"
proof -
  have good: "gateway_good accounted g" by (rule client_invariant.good_reachable[OF json_lib.accounted_invariant[OF assms(1)] assms(2)])
  have "p \<in> pending (gw_client g) \<Longrightarrow> \<exists>x. om_lookup (client_queue (gw_client g)) (caller_id x) = Some x \<and> caller_promise x = p"
    using good_wf[OF good] client_wf_entry client_wf_queue[of "gw_client g"]
    by (force simp: pending_def om_lookup_Some)
  then show ?thesis using good assms(3) by (auto simp: gateway_good_def accounted_def)
qed

lemma requests_always_accounted_witness:
  "client_next (gw_client ex_subscribed) = 1 \<and> client_promises (gw_client ex_subscribed) 0 \<noteq> None"
proof -
  have n: "client_next (gw_client ex_subscribed) = 1" and q: "client_queue (gw_client ex_subscribed) = []" by code_simp+
  show ?thesis
    using requests_always_accounted [OF ex_json_lib ex_subscribed_reachable, of 0] n by (simp add: q om_lookup_def)
qed





text \<open>Every exception of the JSON package is a \<open>std::exception\<close>, as its documentation says.\<close>

definition json_throws_std :: "'j json_api \<Rightarrow> bool" where
  "json_throws_std J \<longleftrightarrow> (\<forall>j k e. js_at J j k = Inl e \<longrightarrow> is_std_exception e)
     \<and> (\<forall>j e. js_get_u32 J j = Inl e \<longrightarrow> is_std_exception e) \<and> (\<forall>j e. js_get_i32 J j = Inl e \<longrightarrow> is_std_exception e)
     \<and> (\<forall>j e. js_get_ll J j = Inl e \<longrightarrow> is_std_exception e) \<and> (\<forall>j e. js_get_string J j = Inl e \<longrightarrow> is_std_exception e)
     \<and> (\<forall>s e. js_parse J s = Inl e \<longrightarrow> is_std_exception e) \<and> (\<forall>j e. js_dump J j = Inl e \<longrightarrow> is_std_exception e)"

lemma exn_bind_std:
  "exn_bind m f = Inl e \<Longrightarrow> (m = Inl e \<Longrightarrow> P) \<Longrightarrow> (\<And>a. m = Inr a \<Longrightarrow> f a = Inl e \<Longrightarrow> P) \<Longrightarrow> P"
  by (cases m) auto

lemma response_std:
  assumes "json_throws_std J" and "fst (Client_response J msg c) = Some e"
  shows "is_std_exception e"
  using assms
  by (auto simp: Client_response_def response_id_def response_result_def response_take_def promise_set_def
      json_throws_std_def elim!: exn_bind_std split: sum.splits option.splits if_splits prod.splits)

lemma message_std:
  assumes "json_throws_std J" and "fst (Gateway_onMessage J msg g) = Some e"
  shows "is_std_exception e"
proof -
  have "is_std_exception e" if "exn_bind (response_id_log J msg) (\<lambda>_. legacy_event J msg g) = Inl e" for e
    using that assms(1)
    by (auto simp: response_id_log_def legacy_event_def legacy_message_id_def json_throws_std_def
        elim!: exn_bind_std split: if_splits)
  then show ?thesis
    using assms response_std[OF assms(1), of msg "gw_client g" e]
    by (auto simp: Gateway_onMessage_def dump_for_log_def case_prod_beta Let_def json_throws_std_def
        elim!: exn_bind_std split: sum.splits if_splits)
qed

lemma deliver_quiet:
  assumes "json_throws_std J"
  shows "fst (Gateway_deliver J payload g) = []"
proof -
  have "is_std_exception e" if "fst (Gateway_onMessage J msg g) = Some e" for msg e
    using message_std[OF assms that] .
  then show ?thesis
    using assms by (auto simp: Gateway_deliver_def case_prod_beta Let_def json_throws_std_def split: sum.splits option.splits)
qed

text \<open>A call that ends the process.\<close>

fun fatal :: "('k, 'j) app_call \<Rightarrow> bool" where
  "fatal (Uncaught e) = True"
| "fatal StdTerminate = True"
| "fatal _ = False"

lemma connection_change_quiet:
  fixes g :: "('k, 'j) Gateway"
  assumes "gateway_inv g"
  shows "\<not> list_ex fatal (fst (Gateway_onConnectionChange b e now g))"
proof -
  let ?g = "snd (connection_notice b e now g)"
  have c: "fst (Gateway_cleanupInternalState ?g) = None"
      "fst (snd (Gateway_cleanupInternalState ?g)) = map RunNotification (fst (Server_stopNotificationWorker (gw_server ?g)))"
    using assms by (simp_all add: cleanup_eq gateway_inv_def)
  have "\<not> list_ex fatal (map RunNotification ns)" for ns :: "('k, 'j) QueuedNotification list"
    by (simp add: list_ex_iff)
  then show ?thesis
    using c by (cases b) (auto simp: Gateway_onConnectionChange_def case_prod_beta Let_def split: option.splits)
qed

lemma upcalls_quiet:
  assumes "json_throws_std J" and "gateway_inv g"
  shows "\<not> list_ex fatal (fst (Gateway_upcalls J now us g))"
  using assms(2)
proof (induction us arbitrary: g)
  case (Cons u us)
  have "\<not> list_ex fatal (fst (Gateway_upcall J now u g))"
    using deliver_quiet[OF assms(1), of _ g] connection_change_quiet[OF Cons.prems] by (cases u) simp_all
  moreover have "gateway_inv (snd (Gateway_upcall J now u g))"
    using Cons.prems by (cases u) (simp_all add: gateway_inv_deliver gateway_inv_connection_change)
  ultimately show ?case using Cons.IH by (auto simp: case_prod_beta Let_def list_ex_iff)
qed simp

lemma event_quiet:
  assumes "json_throws_std J" and "gateway_inv g"
  shows "\<not> list_ex fatal (fst (Gateway_event J W ev g))"
proof (cases ev)
  case (EvIo e now)
  have "gateway_inv (g\<lparr>gw_transport := snd (Transport_io W e (gw_transport g))\<rparr>)" if "tr_connectionThread (gw_transport g)"
    using assms(2) that by (intro gateway_inv_transport transport_inv_io) (simp_all add: gateway_inv_def)
  then have "\<not> list_ex fatal (fst (Gateway_upcalls J now us (g\<lparr>gw_transport := snd (Transport_io W e (gw_transport g))\<rparr>)))"
    if "tr_connectionThread (gw_transport g)" for us
    using that by (intro upcalls_quiet[OF assms(1)])
  with EvIo show ?thesis by (simp add: case_prod_beta Let_def)
qed (auto simp: case_prod_beta deliver_quiet[OF assms(1)] split: pass.splits)

lemma run_quiet:
  assumes "json_throws_std J" and "gateway_inv g"
  shows "\<not> list_ex fatal (fst (Gateway_run J W evs g))"
  using assms(2)
proof (induction evs arbitrary: g)
  case (Cons ev evs)
  with event_quiet[OF assms(1), of g W ev] gateway_inv_event[of g J W ev] show ?case
    by (auto simp: case_prod_beta Let_def list_ex_iff)
qed simp

lemma jval_num_std: "(jval_num j :: exn + 'a::len word) = Inl e \<Longrightarrow> is_std_exception e"
  by (auto simp: jval_num_def split: option.splits)

lemma jval_at_std: "jval_at j k = Inl e \<Longrightarrow> is_std_exception e"
  by (cases j) (auto split: option.splits)

lemma ex_json_std: "json_throws_std ex_json"
  by (auto simp: json_throws_std_def ex_json_def ref_json_def split: jval.splits option.splits
      intro: jval_at_std jval_num_std)

text \<open>
  C24. Nothing the server sends can terminate the process: if the JSON package throws only
  \<open>std::exception\<close>s, then in every reachable state, whatever payloads, connection events and thread
  steps follow and in whatever order, no exception leaves a thread of the library and no
  joinable thread is destroyed; a payload as such causes no call out of the library at all.
\<close>

theorem no_payload_terminates:
  assumes "json_throws_std J" and "gateway_reachable J g"
  shows "\<not> list_ex fatal (fst (Gateway_run J W evs g)) \<and> fst (Gateway_deliver J payload g) = []"
  using run_quiet[OF assms(1) gateway_reachable_inv[OF assms(2)]] deliver_quiet[OF assms(1)] by blast

theorem no_payload_terminates_witness:
  "json_throws_std ex_json
   \<and> \<not> list_ex fatal (fst (Gateway_run ex_json ex_ws [EvIo (IoMessage True ''not json'') 3, EvMessage, EvIo (IoClose 7) 4] ex_gateway))"
  using no_payload_terminates [OF ex_json_std ex_gateway_reachable, of ex_ws
      "[EvIo (IoMessage True ''not json'') 3, EvMessage, EvIo (IoClose 7) 4]" "[]"] ex_json_std by blast

lemma destroy_members_stopped:
  assumes "all_stopped g"
  shows "\<exists>g'. Gateway_destroy_members W evs g = ([], [], g') \<and> all_stopped g'"
  using assms
  by (simp add: all_stopped_def Gateway_destroy_members_def Server_destroy_def Transport_destroy_def Transport_disconnect_def
      stopMessageWorker_eq stopNotificationWorker_eq case_prod_beta Let_def)

text \<open>
  C22. Destroying the gateway while a connection is started ends in an orderly way, whatever still
  arrives: the process is not terminated (no exception leaves the destructor, no joinable thread
  is destroyed), the websocket thread, both workers and the watchdog have been joined, and nothing
  is called on a member that is gone.
\<close>

theorem destructor_stops_everything:
  assumes "json_throws_std J" and "gateway_reachable J g" and "close_documented W (tr_connectionHandle (gw_transport g))" and "gw_connectionStarted g"
  shows "\<exists>outs g'. Gateway_destroy J W evs now evs' g = (outs, [], g') \<and> \<not> list_ex fatal outs
    \<and> tr_status (gw_transport g') = NotStarted \<and> \<not> tr_connectionThread (gw_transport g')
    \<and> \<not> tr_messageWorker (gw_transport g') \<and> \<not> sv_worker (gw_server g') \<and> \<not> gw_watchdogThread g'"
proof -
  obtain us t ns g1 where d: "Gateway_disconnect J W evs now g =
      (Inr Err_None, fst (Gateway_upcalls J now us (g\<lparr>gw_transport := t\<rparr>)) @ map RunNotification ns, g1)"
    and t: "gateway_inv (g\<lparr>gw_transport := t\<rparr>)" and g1: "all_stopped g1"
    using disconnect_ends[OF gateway_reachable_inv[OF assms(2)] assms(3), of J evs now] by blast
  from destroy_members_stopped[OF g1, of W evs'] upcalls_quiet[OF assms(1) t, of now us] show ?thesis
    using assms(4) d by (auto simp: Gateway_destroy_def list_ex_iff all_stopped_def)
qed

theorem destructor_stops_everything_witness:
  "fst (snd (Gateway_destroy ex_json ex_ws [IoMessage True ''note'', IoClose 7] 9 [] ex_subscribed)) = []
   \<and> \<not> tr_connectionThread (gw_transport (snd (snd (Gateway_destroy ex_json ex_ws [IoMessage True ''note'', IoClose 7] 9 [] ex_subscribed))))"
proof -
  have c: "gw_connectionStarted ex_subscribed" by code_simp
  show ?thesis
    using destructor_stops_everything [OF ex_json_std ex_subscribed_reachable ex_ws_close c,
        of "[IoMessage True ''note'', IoClose 7]" 9 "[]"] by auto
qed

text \<open>
  C37. After the connection was lost the destructor skips \<open>disconnect\<close>, although the transport's two
  threads still run: the transport is shut down by its own destructor, after the client and the
  server are gone, and the message worker then still hands every queued or arriving payload to
  \<open>onMessage\<close>, which calls them.
\<close>

theorem destructor_after_loss_calls_dead_members:
  assumes "gateway_reachable J g" and "close_documented W (tr_connectionHandle (gw_transport g))" and "\<not> gw_connectionStarted g"
    and "tr_status (gw_transport g) \<noteq> NotStarted"
  shows "messages_of (fst (snd (Gateway_destroy J W evs now evs' g))) = tr_messageQueue (gw_transport g) @ texts_of evs'"
proof -
  have inv: "gateway_inv g" by (rule gateway_reachable_inv[OF assms(1)])
  then have w: "\<not> gw_watchdogThread g" using assms(3) by (simp add: gateway_inv_def)
  have tr: "transport_inv (gw_transport g)" using inv by (simp add: gateway_inv_def)
  from transport_disconnect_messages[OF this assms(4,2), of evs'] w assms(3) show ?thesis
    by (auto simp: Gateway_destroy_def Gateway_destroy_members_def Transport_destroy_def case_prod_beta Let_def stopMessageWorker_eq)
qed

definition ex_lost :: "(nat, jval) Gateway" where
  "ex_lost = snd (Gateway_run ex_json ex_ws [EvIo (IoMessage True ''note'') 5, EvIo (IoClose 7) 6] ex_subscribed)"

theorem destructor_after_loss_calls_dead_members_witness:
  "\<not> gw_connectionStarted ex_lost \<and> messages_of (fst (snd (Gateway_destroy ex_json ex_ws [] 9 [] ex_lost))) = [''note'']"
proof -
  have r: "gateway_reachable ex_json ex_lost"
    unfolding ex_lost_def by (rule reachable_run[OF ex_subscribed_reachable])
  have f: "\<not> gw_connectionStarted ex_lost" "tr_status (gw_transport ex_lost) \<noteq> NotStarted"
      "tr_messageQueue (gw_transport ex_lost) = [''note'']" by code_simp+
  show ?thesis using destructor_after_loss_calls_dead_members [OF r ex_ws_close f(1,2), of "[]" 9 "[]"] f by simp
qed

text \<open>
  A \<open>connect\<close> that fails at once (already connected, or the transport refuses the URL or a
  header) leaves the listener, the pending requests, the subscribers and the watchdog as they
  were, but the wait time, the legacy mode and the log settings of the new configuration are
  already in force, also for the connection that stays up.
\<close>

lemma failed_connect_frame:
  assumes "Gateway_connect J W getenv cfg k [] g = (e, outs, g')" and "e \<noteq> Err_None"
  shows "gw_listener g' = gw_listener g \<and> gw_client g' = gw_client g \<and> gw_server g' = gw_server g
    \<and> gw_watchdogRunning g' = gw_watchdogRunning g \<and> gw_connectionStarted g' = gw_connectionStarted g
    \<and> gw_waitTime_ms g' = cfg_waitTime_ms cfg \<and> gw_legacyRPCv1 g' = cfg_legacyRPCv1 cfg
    \<and> (e = Err_AlreadyConnected \<and> tr_status (gw_transport g) = Connected \<longrightarrow> tr_status (gw_transport g') = Connected)"
proof -
  obtain st g1 where a: "connect_attempt W getenv cfg k g = (st, g1)" by fastforce
  have f: "gw_client g1 = gw_client g" "gw_server g1 = gw_server g" "gw_watchdogRunning g1 = gw_watchdogRunning g"
      "gw_connectionStarted g1 = gw_connectionStarted g" "gw_waitTime_ms g1 = cfg_waitTime_ms cfg"
      "gw_legacyRPCv1 g1 = cfg_legacyRPCv1 cfg"
    using a by (auto simp: connect_attempt_def Let_def case_prod_beta)
  have "tr_status (gw_transport g1) = Connected" if "tr_status (gw_transport g) = Connected"
    using a that by (auto simp: connect_attempt_def Transport_connect_def Let_def case_prod_beta)
  moreover have "g' = g1\<lparr>gw_listener := gw_listener g\<rparr>"
    using assms a by (auto simp: connect_cases split: if_splits)
  ultimately show ?thesis using f by simp
qed

lemma failed_connect_frame_witness:
  "gw_waitTime_ms (snd (snd (Gateway_connect ex_json ex_ws (\<lambda>_. None) (ex_config\<lparr>cfg_waitTime_ms := 7\<rparr>) 6 [] ex_gateway))) = 7
   \<and> gw_listener (snd (snd (Gateway_connect ex_json ex_ws (\<lambda>_. None) (ex_config\<lparr>cfg_waitTime_ms := 7\<rparr>) 6 [] ex_gateway))) = Some 5"
proof -
  let ?c = "Gateway_connect ex_json ex_ws (\<lambda>_. None) (ex_config\<lparr>cfg_waitTime_ms := 7\<rparr>) 6 [] ex_gateway"
  have e: "fst ?c \<noteq> Err_None" by code_simp
  have l: "gw_listener ex_gateway = Some 5" by code_simp
  have c: "?c = (fst ?c, fst (snd ?c), snd (snd ?c))" by simp
  show ?thesis using failed_connect_frame [OF c e] l by simp
qed

text \<open>
  C38. Reconnecting does not renew subscriptions: after \<open>disconnect\<close> and a new \<open>connect\<close> the old
  listeners are still registered, but notifications are dropped (nothing restarts the worker),
  and a new listener of such an event is added without anything being sent to the server, which
  knows nothing of the old subscription.
\<close>

theorem reconnect_keeps_stale_subscriptions:
  assumes "gateway_reachable J g" and "close_documented W (tr_connectionHandle (gw_transport g))" and "g1 = snd (snd (Gateway_disconnect J W ios now g))"
    and "g2 = snd (snd (Gateway_connect J W getenv cfg k evs g1))"
  shows "sv_eventList (gw_server g2) = sv_eventList (gw_server g)
    \<and> Server_notify J method params (gw_server g2) = gw_server g2
    \<and> (Server_isAnySubscriber event (gw_server g) \<and> \<not> subscribed event u (sv_eventList (gw_server g)) \<longrightarrow>
        (\<exists>s. Gateway_subscribe J W event cb u now' evs' g2 = (Inr Err_None, [], g2\<lparr>gw_server := s\<rparr>)))"
proof -
  obtain st us t where t: "Transport_disconnect W ios (gw_transport g) = (st, us, t)" using prod_cases3 by blast
  then have st: "st = Inr Err_None"
    using close_documented_ok[of W "(gw_transport g)\<lparr>tr_perpetual := False\<rparr>"] assms(2)
    by (auto simp: Transport_disconnect_def Let_def case_prod_beta split: if_splits)
  let ?u = "snd (Gateway_upcalls J now us (g\<lparr>gw_transport := t\<rparr>))"
  have inv: "gateway_inv g" by (rule gateway_reachable_inv[OF assms(1)])
  then have "gateway_inv (g\<lparr>gw_transport := t\<rparr>)"
    using transport_inv_disconnect[of "gw_transport g" W ios] disconnect_id_counter[of W ios "gw_transport g"] t
    by (simp add: gateway_inv_def ids_used_def)
  from gateway_inv_upcalls[OF this, of J now us]
  have u: "client_wf (gw_client ?u)" "gw_watchdogThread ?u = gw_watchdogRunning ?u"
    by (simp_all add: gateway_inv_def)
  have g1: "g1 = snd (snd (Gateway_cleanupInternalState ?u))"
    using assms(3) by (simp add: Gateway_disconnect_def t st case_prod_beta Let_def cleanup_eq[OF u])
  have "kept (g\<lparr>gw_transport := t\<rparr>) g1" unfolding g1 by (rule kept_trans[OF kept_upcalls kept_cleanup])
  moreover have "sv_stop (gw_server g1)" by (simp add: g1 cleanup_eq[OF u] stopNotificationWorker_eq)
  moreover have "kept (snd (connect_attempt W getenv cfg k g1)) (snd (Gateway_run J W evs (snd (connect_attempt W getenv cfg k g1))))"
    by (rule kept_run)
  ultimately have g2: "sv_eventList (gw_server g2) = sv_eventList (gw_server g)" "sv_stop (gw_server g2)"
    using assms(4) by (auto simp: connect_cases case_prod_beta kept_def connect_attempt_frame)
  have "gateway_reachable J g2"
    using assms by (auto intro: gr_step gs_disconnect gs_connect)
  from upstream_listed[OF this, of event u W cb now' evs'] g2 show ?thesis
    by (auto simp: Server_notify_def Server_isAnySubscriber_def)
qed

theorem reconnect_keeps_stale_subscriptions_witness:
  "sv_eventList (gw_server (snd (snd (Gateway_connect ex_json ex_ws (\<lambda>_. None) ex_config 5 []
     (snd (snd (Gateway_disconnect ex_json ex_ws [] 9 ex_subscribed))))))) = [\<lparr>ev_name = ''tts.stop'', ev_lambda = 3, ev_usercb = 8\<rparr>]"
proof -
  have "sv_eventList (gw_server ex_subscribed) = [\<lparr>ev_name = ''tts.stop'', ev_lambda = 3, ev_usercb = 8\<rparr>]" by code_simp
  then show ?thesis
    using reconnect_keeps_stale_subscriptions [OF ex_subscribed_reachable ex_ws_close refl refl, where ios = "[]" and now = 9
        and getenv = "\<lambda>_. None" and cfg = ex_config and k = 5 and evs = "[]"] by simp
qed

text \<open>
  The notice in the log is limited to one per five seconds for an unchanged state: it is
  suppressed, and counted, exactly when the last one had the same state and error and is less
  than five seconds old.
\<close>

lemma connection_notice_rate_limit:
  "(fst (connection_notice connected e now g) \<longleftrightarrow>
     \<not> (gw_hasLastConnectionLog g \<and> gw_lastConnectionState g = connected \<and> gw_lastConnectionError g = e
        \<and> now - gw_lastConnectionLogTs g < 5000000000))
   \<and> gw_suppressed (snd (connection_notice connected e now g)) =
     (if fst (connection_notice connected e now g) then 0 else gw_suppressed g + 1)
   \<and> (fst (connection_notice connected e now g) \<and> now' - now < 5000000000 \<longrightarrow>
        \<not> fst (connection_notice connected e now' (snd (connection_notice connected e now g))))"
  by (auto simp: connection_notice_def Let_def)

end
