(* ===== verification/Fb_Helpers.thy ===== *)
theory Fb_Helpers
  imports Fb_Gateway_Props
begin

text \<open>
  The helper layer: \<open>HelperImpl\<close> of \<open>src/helpers_impl.h\<close> and the templates of
  \<open>include/firebolt/helpers.h\<close> (\<open>SubscriptionManager\<close> is in \<open>Fb_Managers\<close>). It works on the
  interface \<open>IGateway\<close>: the operations it calls are arguments of the definitions, the locale
  \<open>igateway\<close> states what it relies on, and the interpretation discharges that for the gateway's
  model. A \<open>shared_ptr<SubscriptionData>\<close> is its address and a control block number; strong
  references are in the map and, while it is in a callback, in the notification worker's hands. The
  steps of that worker are interleaved with the calls on the helper (\<open>notified_step\<close>).
\<close>

section \<open>State\<close>

record 'n SubscriptionData =
  sd_owner :: ptr
  sd_eventName :: string
  sd_notification :: 'n \<comment> \<open>the \<open>std::any\<close>\<close>

record 'n SharedData =
  sp_addr :: ptr
  sp_block :: nat
  sp_data :: "'n SubscriptionData"

record 'n HelperImpl =
  hp_subscriptions :: "(u64, 'n SharedData) omap"
  hp_currentId :: u64
  hp_next_block :: nat \<comment> \<open>the next control block\<close>

definition HelperImpl_init :: "'n HelperImpl" where
  "HelperImpl_init = \<lparr>hp_subscriptions = [], hp_currentId = 0, hp_next_block = 0\<rparr>"

text \<open>The lambda \<open>wrappedCallback\<close> with what it captures.\<close>

record 'c WrappedCallback =
  wc_wpData :: nat
  wc_callback :: 'c
  wc_eventName :: string

section \<open>Requests\<close>

definition HelperImpl_getJson ::
    "(string \<Rightarrow> 'j \<Rightarrow> 'g \<Rightarrow> (exn + 'j Result) option \<times> 'g) \<Rightarrow> string \<Rightarrow> 'j \<Rightarrow> 'g \<Rightarrow> (exn + 'j Result) option \<times> 'g" where
  "HelperImpl_getJson request_get methodName parameters g =
     (case request_get methodName parameters g of
        (None, g) \<Rightarrow> (None, g)
      | (Some (Inl e), g) \<Rightarrow> (Some (Inl e), g)
      | (Some (Inr result), g) \<Rightarrow>
          (case result_value result of
             None \<Rightarrow> (Some (Inr (Result_error_info (result_error result) (result_info result))), g)
           | Some v \<Rightarrow> (Some (Inr (Result_value v)), g)))"

definition HelperImpl_invoke ::
    "(string \<Rightarrow> 'j \<Rightarrow> 'g \<Rightarrow> (exn + 'j Result) option \<times> 'g) \<Rightarrow> string \<Rightarrow> 'j \<Rightarrow> 'g \<Rightarrow> (exn + ResultVoid) option \<times> 'g" where
  "HelperImpl_invoke request_get methodName parameters g =
     (case HelperImpl_getJson request_get methodName parameters g of
        (None, g) \<Rightarrow> (None, g)
      | (Some (Inl e), g) \<Rightarrow> (Some (Inl e), g)
      | (Some (Inr result), g) \<Rightarrow>
          if \<not> has_value result then (Some (Inr (ResultVoid_error_info (result_error result) (result_info result))), g)
          else (Some (Inr (ResultVoid_error Err_None)), g))"

text \<open>
  \<open>IHelper::get<JsonType, PropertyType>\<close>; \<open>fromJson\<close> is \<open>JsonType\<close>'s parser with \<open>value()\<close>. The
  error log of the handler dumps the payload, which may throw, when its level is enabled.
\<close>

definition IHelper_get ::
    "'j json_api \<Rightarrow> bool \<Rightarrow> (string \<Rightarrow> 'j \<Rightarrow> 'g \<Rightarrow> (exn + 'j Result) option \<times> 'g) \<Rightarrow> ('j \<Rightarrow> exn + 'v) \<Rightarrow>
     string \<Rightarrow> 'j \<Rightarrow> 'g \<Rightarrow> (exn + 'v Result) option \<times> 'g" where
  "IHelper_get J logError request_get fromJson methodName parameters g =
     (case HelperImpl_getJson request_get methodName parameters g of
        (None, g) \<Rightarrow> (None, g)
      | (Some (Inl e), g) \<Rightarrow> (Some (Inl e), g)
      | (Some (Inr result), g) \<Rightarrow>
          (case result_value result of
             None \<Rightarrow> (Some (Inr (Result_error_info (result_error result) (result_info result))), g)
           | Some json \<Rightarrow>
               (case fromJson json of
                  Inr v \<Rightarrow> (Some (Inr (Result_value v)), g)
                | Inl e \<Rightarrow>
                    if \<not> is_std_exception e then (Some (Inl e), g)
                    else (case (if logError then js_dump J json else Inr []) of
                            Inl e \<Rightarrow> (Some (Inl e), g)
                          | Inr _ \<Rightarrow>
                              (Some (Inr (Result_error_info Err_InvalidParams
                                 \<lparr>info_error = error_code Err_Unspecified, info_message = ''Cannot parse response data''\<rparr>)), g)))))"

section \<open>Subscriptions\<close>

text \<open>\<open>addr\<close> is the address \<open>make_shared\<close> returns.\<close>

definition HelperImpl_subscribe ::
    "(string \<Rightarrow> 'c WrappedCallback \<Rightarrow> ptr \<Rightarrow> 'g \<Rightarrow> (exn + Error) \<times> 'g) \<Rightarrow> ptr \<Rightarrow> ptr \<Rightarrow> string \<Rightarrow> 'n \<Rightarrow> 'c \<Rightarrow>
     'n HelperImpl \<Rightarrow> 'g \<Rightarrow> (exn + u64 Result) \<times> 'n HelperImpl \<times> 'g" where
  "HelperImpl_subscribe subscribe addr owner eventName notification callback h g =
     (let newId = hp_currentId h;
          spData = \<lparr>sp_addr = addr, sp_block = hp_next_block h,
                    sp_data = \<lparr>sd_owner = owner, sd_eventName = eventName, sd_notification = notification\<rparr>\<rparr>;
          h = h\<lparr>hp_currentId := hp_currentId h + 1, hp_next_block := Suc (hp_next_block h),
                hp_subscriptions := om_update newId spData (hp_subscriptions h)\<rparr>;
          wrapped = \<lparr>wc_wpData = sp_block spData, wc_callback = callback, wc_eventName = eventName\<rparr>
      in case subscribe eventName wrapped addr g of
           (Inl e, g) \<Rightarrow> (Inl e, h, g)
         | (Inr status, g) \<Rightarrow>
             if status \<noteq> Err_None
             then (Inr (Result_error status), h\<lparr>hp_subscriptions := om_delete newId (hp_subscriptions h)\<rparr>, g)
             else (Inr (Result_value newId), h, g))"

definition HelperImpl_unsubscribe ::
    "(string \<Rightarrow> ptr \<Rightarrow> 'g \<Rightarrow> (exn + Error) \<times> 'g) \<Rightarrow> u64 \<Rightarrow> 'n HelperImpl \<Rightarrow> 'g \<Rightarrow>
     (exn + ResultVoid) \<times> 'n HelperImpl \<times> 'g" where
  "HelperImpl_unsubscribe unsubscribe i h g =
     (case om_lookup (hp_subscriptions h) i of
        None \<Rightarrow> (Inr (ResultVoid_error Err_General), h, g)
      | Some sp \<Rightarrow>
          (case unsubscribe (sd_eventName (sp_data sp)) (sp_addr sp) g of
             (Inl e, g) \<Rightarrow> (Inl e, h, g)
           | (Inr errorStatus, g) \<Rightarrow>
               (Inr (ResultVoid_error errorStatus), h\<lparr>hp_subscriptions := om_delete i (hp_subscriptions h)\<rparr>, g)))"

text \<open>The loops of \<open>unsubscribeAll\<close> and of the destructor: the exception that ends it, what is left, the gateway.\<close>

fun unsubscribe_loop ::
    "(string \<Rightarrow> ptr \<Rightarrow> 'g \<Rightarrow> (exn + Error) \<times> 'g) \<Rightarrow> ('n SharedData \<Rightarrow> bool) \<Rightarrow> (u64, 'n SharedData) omap \<Rightarrow> 'g \<Rightarrow>
     exn option \<times> (u64, 'n SharedData) omap \<times> 'g" where
  "unsubscribe_loop unsubscribe P [] g = (None, [], g)"
| "unsubscribe_loop unsubscribe P (it # its) g =
     (if P (snd it) then
        (case unsubscribe (sd_eventName (sp_data (snd it))) (sp_addr (snd it)) g of
           (Inl e, g) \<Rightarrow> (Some e, it # its, g)
         | (Inr _, g) \<Rightarrow> unsubscribe_loop unsubscribe P its g)
      else
        (let (threw, rest, g) = unsubscribe_loop unsubscribe P its g in (threw, it # rest, g)))"

definition HelperImpl_unsubscribeAll ::
    "(string \<Rightarrow> ptr \<Rightarrow> 'g \<Rightarrow> (exn + Error) \<times> 'g) \<Rightarrow> ptr \<Rightarrow> 'n HelperImpl \<Rightarrow> 'g \<Rightarrow> exn option \<times> 'n HelperImpl \<times> 'g" where
  "HelperImpl_unsubscribeAll unsubscribe owner h g =
     (let (threw, rest, g) = unsubscribe_loop unsubscribe (\<lambda>sp. sd_owner (sp_data sp) = owner) (hp_subscriptions h) g
      in (threw, h\<lparr>hp_subscriptions := rest\<rparr>, g))"

definition HelperImpl_destroy ::
    "(string \<Rightarrow> ptr \<Rightarrow> 'g \<Rightarrow> (exn + Error) \<times> 'g) \<Rightarrow> 'n HelperImpl \<Rightarrow> 'g \<Rightarrow> exn option \<times> 'n HelperImpl \<times> 'g" where
  "HelperImpl_destroy unsubscribe h g =
     (let (threw, _, g) = unsubscribe_loop unsubscribe (\<lambda>_. True) (hp_subscriptions h) g
      in (threw, h\<lparr>hp_subscriptions := []\<rparr>, g))"

section \<open>Notifications\<close>

text \<open>
  Where the notification worker is in the lambda: not in it, with the strong reference of
  \<open>wpData.lock()\<close> in hand, or inside the function pointer, which it calls with that reference held.
\<close>

datatype ('n, 'c, 'j) worker_at = Free | Holding "'n SharedData" "'c WrappedCallback" 'j | Inside "'n SharedData"

fun held_refs :: "('n, 'c, 'j) worker_at \<Rightarrow> 'n SharedData list" where
  "held_refs Free = []"
| "held_refs (Holding sp w json) = [sp]"
| "held_refs (Inside sp) = [sp]"

text \<open>\<open>wpData.lock()\<close>: a block can be locked while the map or somebody else (\<open>refs\<close>) holds a strong reference.\<close>

definition weak_lock :: "'n SharedData list \<Rightarrow> nat \<Rightarrow> 'n HelperImpl \<Rightarrow> 'n SharedData option" where
  "weak_lock refs b h = find (\<lambda>sp. sp_block sp = b) (map snd (hp_subscriptions h) @ refs)"

text \<open>
  The lambda when the notification worker calls it, in its two sections: the lock, which finds the
  data or drops the notification, and the call, made later and without any mutex of the helper.
  \<open>callback\<close> is what the function pointer does to the application.
\<close>

definition wrapped_lock ::
    "('n, 'c, 'j) worker_at \<Rightarrow> 'c WrappedCallback \<Rightarrow> 'j \<Rightarrow> 'n HelperImpl \<Rightarrow> ('n, 'c, 'j) worker_at" where
  "wrapped_lock at w json h =
     (case weak_lock (held_refs at) (wc_wpData w) h of
        Some sp \<Rightarrow> Holding sp w json
      | None \<Rightarrow> Free)"

fun wrapped_call ::
    "('c \<Rightarrow> 'n SubscriptionData \<Rightarrow> 'j \<Rightarrow> 'a \<Rightarrow> exn option \<times> 'a) \<Rightarrow> ('n, 'c, 'j) worker_at \<Rightarrow> 'a \<Rightarrow> exn option \<times> 'a" where
  "wrapped_call callback (Holding sp w json) a = callback (wc_callback w) (sp_data sp) json a"
| "wrapped_call callback _ a = (None, a)"

text \<open>
  \<open>onPropertyChangedCallback<JsonType, Args...>\<close>: \<open>any_cast\<close> yields the notifier or throws
  \<open>bad_any_cast\<close>, \<open>fromJson\<close> parses, \<open>notify\<close> calls the application.
\<close>

definition onPropertyChangedCallback ::
    "'j json_api \<Rightarrow> bool \<Rightarrow> ('n \<Rightarrow> exn + 'f) \<Rightarrow> ('j \<Rightarrow> exn + 'v) \<Rightarrow> ('f \<Rightarrow> 'v \<Rightarrow> 'a \<Rightarrow> exn option \<times> 'a) \<Rightarrow>
     'n SubscriptionData \<Rightarrow> 'j \<Rightarrow> 'a \<Rightarrow> exn option \<times> 'a" where
  "onPropertyChangedCallback J logError any_cast fromJson notify d jsonResponse a =
     (let (threw, a) =
        (case any_cast (sd_notification d) of
           Inl e \<Rightarrow> (Some e, a)
         | Inr notifier \<Rightarrow>
             (case fromJson jsonResponse of
                Inl e \<Rightarrow> (Some e, a)
              | Inr v \<Rightarrow> notify notifier v a))
      in case threw of
           None \<Rightarrow> (None, a)
         | Some e \<Rightarrow>
             if e = BadAnyCast then (None, a)
             else if is_std_exception e then
               (case (if logError then js_dump J jsonResponse else Inr []) of
                  Inl e \<Rightarrow> (Some e, a)
                | Inr _ \<Rightarrow> (None, a))
             else (Some e, a))"

section \<open>The gateway behind the interface\<close>

text \<open>
  A gateway and what is going to happen while calls wait: for each wait its time and the thread
  steps during it.
\<close>

type_synonym ('k, 'j) world = "('k, 'j) Gateway \<times> (timestamp \<times> gw_event list) list"

fun next_env :: "(timestamp \<times> gw_event list) list \<Rightarrow> (timestamp \<times> gw_event list) \<times> (timestamp \<times> gw_event list) list" where
  "next_env [] = ((0, []), [])"
| "next_env (x # xs) = (x, xs)"

definition IGateway_subscribe ::
    "'j json_api \<Rightarrow> ws_api \<Rightarrow> string \<Rightarrow> 'k \<Rightarrow> ptr \<Rightarrow> ('k, 'j) world \<Rightarrow> (exn + Error) \<times> ('k, 'j) world" where
  "IGateway_subscribe J W event k u w =
     (let ((now, evs), script) = next_env (snd w);
          (r, _, g) = Gateway_subscribe J W event k u now evs (fst w)
      in (r, (g, script)))"

definition IGateway_unsubscribe ::
    "'j json_api \<Rightarrow> ws_api \<Rightarrow> string \<Rightarrow> ptr \<Rightarrow> ('k, 'j) world \<Rightarrow> (exn + Error) \<times> ('k, 'j) world" where
  "IGateway_unsubscribe J W event u w =
     (let ((now, evs), script) = next_env (snd w);
          (r, _, g) = Gateway_unsubscribe J W event u now evs (fst w)
      in (r, (g, script)))"

text \<open>\<open>future.get()\<close>: blocks (\<open>None\<close>) as long as nothing that is going to happen gives the promise a value.\<close>

fun await :: "'j json_api \<Rightarrow> ws_api \<Rightarrow> promise \<Rightarrow> ('k, 'j) Gateway \<Rightarrow> (timestamp \<times> gw_event list) list \<Rightarrow>
    'j Result option \<times> ('k, 'j) world" where
  "await J W p g [] = (client_promises (gw_client g) p, (g, []))"
| "await J W p g (x # script) =
     (case client_promises (gw_client g) p of
        Some r \<Rightarrow> (Some r, (g, x # script))
      | None \<Rightarrow> await J W p (snd (Gateway_run J W (snd x) g)) script)"

definition IGateway_request_get ::
    "'j json_api \<Rightarrow> ws_api \<Rightarrow> string \<Rightarrow> 'j \<Rightarrow> ('k, 'j) world \<Rightarrow> (exn + 'j Result) option \<times> ('k, 'j) world" where
  "IGateway_request_get J W method params w =
     (case Gateway_request J W method params None (fst (fst (next_env (snd w)))) (fst w) of
        (Inl e, g) \<Rightarrow> (Some (Inl e), (g, snd w))
      | (Inr p, g) \<Rightarrow> (case await J W p g (snd w) of (r, w) \<Rightarrow> (map_option Inr r, w)))"

section \<open>The contract of IGateway\<close>

text \<open>
  What the helper relies on: \<open>subscribe\<close> registers the listener exactly when it reports success
  (or throws after registering), \<open>unsubscribe\<close> always removes it, whatever the server answers.
\<close>

locale igateway =
  fixes subs :: "'g \<Rightarrow> 'k CallbackDataEvent list"
    and ok :: "'g \<Rightarrow> bool"
    and subscribe :: "string \<Rightarrow> 'k \<Rightarrow> ptr \<Rightarrow> 'g \<Rightarrow> (exn + Error) \<times> 'g"
    and unsubscribe :: "string \<Rightarrow> ptr \<Rightarrow> 'g \<Rightarrow> (exn + Error) \<times> 'g"
  assumes subscribe_ok: "ok g \<Longrightarrow> subscribe event k u g = (r, g') \<Longrightarrow> ok g'"
    and subscribe_subs: "ok g \<Longrightarrow> subscribe event k u g = (Inr e, g') \<Longrightarrow>
      subs g' = (if e = Err_None then subs g @ [\<lparr>ev_name = event, ev_lambda = k, ev_usercb = u\<rparr>] else subs g)"
    and unsubscribe_ok: "ok g \<Longrightarrow> unsubscribe event u g = (r, g') \<Longrightarrow> ok g'"
    and unsubscribe_subs: "ok g \<Longrightarrow> unsubscribe event u g = (r, g') \<Longrightarrow>
      subs g' = filter (\<lambda>e. \<not> is_subscriber event u e) (subs g)"
begin

text \<open>The loop leaves exactly the entries it does not select, and no selected one is still registered.\<close>

lemma loop_spec:
  assumes "ok g" and "unsubscribe_loop unsubscribe P m g = (None, rest, g')"
  shows "ok g' \<and> rest = filter (\<lambda>it. \<not> P (snd it)) m
    \<and> subs g' = filter (\<lambda>e. \<not> (\<exists>it \<in> set m. P (snd it) \<and> is_subscriber (sd_eventName (sp_data (snd it))) (sp_addr (snd it)) e)) (subs g)"
  using assms
proof (induction m arbitrary: g rest)
  case (Cons it m)
  show ?case
  proof (cases "P (snd it)")
    case True
    then obtain r g1 where u: "unsubscribe (sd_eventName (sp_data (snd it))) (sp_addr (snd it)) g = (Inr r, g1)"
        and l: "unsubscribe_loop unsubscribe P m g1 = (None, rest, g')"
      using Cons.prems(2) by (auto split: prod.splits sum.splits)
    show ?thesis
      using Cons.IH[OF unsubscribe_ok[OF Cons.prems(1) u] l] True unsubscribe_subs[OF Cons.prems(1) u]
      by (auto intro!: filter_cong)
  next
    case False
    then obtain rest' where "rest = it # rest'" "unsubscribe_loop unsubscribe P m g = (None, rest', g')"
      using Cons.prems(2) by (auto split: prod.splits)
    with Cons.IH[OF Cons.prems(1)] False show ?thesis by (auto intro!: filter_cong)
  qed
qed simp

lemma loop_ok: "ok g \<Longrightarrow> unsubscribe_loop unsubscribe P m g = (threw, rest, g') \<Longrightarrow> ok g'"
proof (induction m arbitrary: g rest)
  case (Cons it m)
  show ?case
  proof (cases "P (snd it)")
    case True
    then obtain r g1 where u: "unsubscribe (sd_eventName (sp_data (snd it))) (sp_addr (snd it)) g = (r, g1)" by fastforce
    with True Cons.prems(2) Cons.IH[OF unsubscribe_ok[OF Cons.prems(1) u]] unsubscribe_ok[OF Cons.prems(1) u] show ?thesis
      by (auto split: sum.splits)
  next
    case False
    with Cons show ?thesis by (auto split: prod.splits)
  qed
qed simp

end

lemma server_inv_deliver: "server_inv (gw_server g) \<Longrightarrow> server_inv (gw_server (snd (Gateway_deliver J payload g)))"
proof -
  assume s: "server_inv (gw_server g)"
  then have "server_inv (gw_server (snd (Gateway_onMessage J msg g)))" for msg
    by (auto simp: Gateway_onMessage_def case_prod_beta server_inv_notify Let_def split: sum.splits)
  with s show ?thesis by (auto simp: Gateway_deliver_def case_prod_beta Let_def split: sum.splits option.splits)
qed

lemma server_inv_connection_change:
  assumes "server_inv (gw_server g)"
  shows "server_inv (gw_server (snd (Gateway_onConnectionChange b e now g)))"
proof -
  have "server_inv (gw_server (snd (snd (Gateway_cleanupInternalState g'))))" if "server_inv (gw_server g')" for g' :: "('a, 'b) Gateway"
    using that by (auto simp: Gateway_cleanupInternalState_def case_prod_beta server_inv_stop Let_def split: option.splits)
  from this[of "snd (connection_notice b e now g)"] assms show ?thesis
    by (auto simp: Gateway_onConnectionChange_def case_prod_beta Let_def split: option.splits)
qed

lemma server_inv_upcalls: "server_inv (gw_server g) \<Longrightarrow> server_inv (gw_server (snd (Gateway_upcalls J now us g)))"
proof (induction us arbitrary: g)
  case (Cons u us)
  then have "server_inv (gw_server (snd (Gateway_upcall J now u g)))"
    by (cases u) (simp_all add: server_inv_deliver server_inv_connection_change)
  with Cons.IH show ?case by (simp add: case_prod_beta Let_def)
qed simp

lemma server_inv_event:
  assumes "server_inv (gw_server g)"
  shows "server_inv (gw_server (snd (Gateway_event J W ev g)))"
proof (cases ev)
  case EvMessage
  from assms have "server_inv (gw_server (snd (Gateway_deliver J payload (g\<lparr>gw_transport := t\<rparr>))))" for payload t
    by (intro server_inv_deliver) simp
  with EvMessage assms show ?thesis by (auto simp: case_prod_beta split: pass.splits)
next
  case EvNotification
  with assms server_inv_pass[OF assms] show ?thesis by (auto simp: case_prod_beta split: pass.splits)
qed (use assms in \<open>auto simp: case_prod_beta Let_def intro: server_inv_upcalls\<close>)

lemma server_inv_run: "server_inv (gw_server g) \<Longrightarrow> server_inv (gw_server (snd (Gateway_run J W evs g)))"
  by (induction evs arbitrary: g) (simp_all add: case_prod_beta Let_def server_inv_event)

lemma gateway_subscribe_subs:
  assumes "server_inv (gw_server g)" and "Gateway_subscribe J W event k u now evs g = (r, outs, g')"
  shows "server_inv (gw_server g')"
    and "r = Inr e \<Longrightarrow> sv_eventList (gw_server g') =
      (if e = Err_None then sv_eventList (gw_server g) @ [\<lparr>ev_name = event, ev_lambda = k, ev_usercb = u\<rparr>]
       else sv_eventList (gw_server g))"
proof -
  note sub = es.subscribe_result[OF assms(1), of event k u] es.subscribe_subs[OF assms(1), of event k u]
  note s1 = server_inv_subscribe[OF assms(1), of event k u]
  obtain i g1 where r: "subscribe_ready event k u g = (i, g1)" by fastforce
  let ?req = "Gateway_request J W event (listen_params J True) (Some i) now g1"
  let ?g3 = "snd (Gateway_run J W evs (snd ?req))"
  have g1: "gw_server g1 = snd (Server_subscribe event k u (gw_server g))" by (rule subscribe_ready_fields(1)[OF r])
  have s3: "server_inv (gw_server ?g3)" using s1 by (intro server_inv_run) (simp add: request_frame g1)
  have l3: "sv_eventList (gw_server ?g3) = sv_eventList (gw_server g1)"
    using kept_run[of "snd ?req" J W evs] by (simp add: kept_def request_frame)
  have undo: "server_inv (gw_server (subscribe_undo event u i ?g3))"
    using server_inv_unsubscribe[OF s3] by (simp add: subscribe_undo_def Let_def)
  show "server_inv (gw_server g')"
    using assms(2) s1 s3 undo by (auto simp: subscribe_cases r case_prod_beta g1 request_frame split: if_splits sum.splits)
  have restored: "sv_eventList (gw_server (subscribe_undo event u i ?g3)) = sv_eventList (gw_server g)"
    if fresh: "\<not> subscribed event u (sv_eventList (gw_server g))"
  proof -
    have "sv_eventList (gw_server (subscribe_undo event u i ?g3)) = filter (\<lambda>e. \<not> is_subscriber event u e) (sv_eventList (gw_server g1))"
      by (simp add: subscribe_undo_def Let_def es.unsubscribe_subs[OF s3] l3)
    also have "\<dots> = sv_eventList (gw_server g)"
      using es.subscribe_unsubscribe(2)[OF assms(1) fresh, of k] by (simp add: g1 es.unsubscribe_subs[OF s1])
    finally show ?thesis .
  qed
  show "r = Inr e \<Longrightarrow> sv_eventList (gw_server g') =
      (if e = Err_None then sv_eventList (gw_server g) @ [\<lparr>ev_name = event, ev_lambda = k, ev_usercb = u\<rparr>]
       else sv_eventList (gw_server g))"
  proof (cases "subscribed event u (sv_eventList (gw_server g))")
    case True
    with assms(2) sub show "r = Inr e \<Longrightarrow> ?thesis" by (auto simp: subscribe_cases)
  next
    case False
    with assms(2) sub restored l3 show "r = Inr e \<Longrightarrow> ?thesis"
      by (auto simp: subscribe_cases r case_prod_beta g1 split: if_splits sum.splits)
  qed
qed

lemma gateway_unsubscribe_subs:
  assumes "server_inv (gw_server g)" and "Gateway_unsubscribe J W event u now evs g = (r, outs, g')"
  shows "server_inv (gw_server g')"
    and "sv_eventList (gw_server g') = filter (\<lambda>e. \<not> is_subscriber event u e) (sv_eventList (gw_server g))"
proof -
  note s1 = server_inv_unsubscribe[OF assms(1), of event u]
  let ?req = "Gateway_request J W event (listen_params J False) None now (unsubscribe_ready event u g)"
  have g1: "gw_server (unsubscribe_ready event u g) = snd (Server_unsubscribe event u (gw_server g))"
    by (simp add: unsubscribe_ready_def Let_def)
  have s3: "server_inv (gw_server (snd (Gateway_run J W evs (snd ?req))))"
    using s1 by (intro server_inv_run) (simp add: request_frame g1)
  have l3: "sv_eventList (gw_server (snd (Gateway_run J W evs (snd ?req)))) = sv_eventList (snd (Server_unsubscribe event u (gw_server g)))"
    using kept_run[of "snd ?req" J W evs] by (simp add: kept_def request_frame g1)
  show "server_inv (gw_server g')"
    using assms(2) s1 s3 by (auto simp: unsubscribe_cases case_prod_beta g1 request_frame split: if_splits sum.splits)
  show "sv_eventList (gw_server g') = filter (\<lambda>e. \<not> is_subscriber event u e) (sv_eventList (gw_server g))"
    using assms(2) l3 es.unsubscribe_subs[OF assms(1), of event u]
    by (auto simp: unsubscribe_cases case_prod_beta g1 request_frame split: if_splits sum.splits)
qed

interpretation ig: igateway "\<lambda>w. sv_eventList (gw_server (fst w))" "\<lambda>w. server_inv (gw_server (fst w))"
  "IGateway_subscribe J W" "IGateway_unsubscribe J W"
  by unfold_locales
    (auto simp: IGateway_subscribe_def IGateway_unsubscribe_def Let_def split: prod.splits
      dest: gateway_subscribe_subs gateway_unsubscribe_subs)

section \<open>Control blocks\<close>

text \<open>Any order of calls on the helper, over any gateway.\<close>

inductive helper_step ::
    "(string \<Rightarrow> 'c WrappedCallback \<Rightarrow> ptr \<Rightarrow> 'g \<Rightarrow> (exn + Error) \<times> 'g) \<Rightarrow> (string \<Rightarrow> ptr \<Rightarrow> 'g \<Rightarrow> (exn + Error) \<times> 'g) \<Rightarrow>
     'n HelperImpl \<times> 'g \<Rightarrow> 'n HelperImpl \<times> 'g \<Rightarrow> bool" for subscribe unsubscribe where
  hs_subscribe: "HelperImpl_subscribe subscribe addr owner event n c h g = (r, h', g') \<Longrightarrow>
     helper_step subscribe unsubscribe (h, g) (h', g')"
| hs_unsubscribe: "HelperImpl_unsubscribe unsubscribe i h g = (r, h', g') \<Longrightarrow>
     helper_step subscribe unsubscribe (h, g) (h', g')"
| hs_unsubscribeAll: "HelperImpl_unsubscribeAll unsubscribe owner h g = (r, h', g') \<Longrightarrow>
     helper_step subscribe unsubscribe (h, g) (h', g')"

text \<open>A control block is used once: it belongs to one entry, and new ones are larger.\<close>

definition blocks_ok :: "'n HelperImpl \<Rightarrow> bool" where
  "blocks_ok h \<longleftrightarrow> om_wf (hp_subscriptions h)
     \<and> (\<forall>x \<in> set (hp_subscriptions h). sp_block (snd x) < hp_next_block h)
     \<and> (\<forall>x \<in> set (hp_subscriptions h). \<forall>y \<in> set (hp_subscriptions h). sp_block (snd x) = sp_block (snd y) \<longrightarrow> x = y)"

definition expired :: "nat \<Rightarrow> 'n HelperImpl \<Rightarrow> bool" where
  "expired b h \<longleftrightarrow> b < hp_next_block h \<and> (\<forall>x \<in> set (hp_subscriptions h). sp_block (snd x) \<noteq> b)"

lemma expired_lock: "expired b h \<Longrightarrow> b \<notin> sp_block ` set refs \<Longrightarrow> weak_lock refs b h = None"
  by (auto simp: expired_def weak_lock_def find_None_iff)

text \<open>What a step does to the map: entries go, and at most one comes, with a new block.\<close>

definition map_grows :: "'n HelperImpl \<Rightarrow> 'n HelperImpl \<Rightarrow> bool" where
  "map_grows h h' \<longleftrightarrow> hp_next_block h \<le> hp_next_block h' \<and> (om_wf (hp_subscriptions h) \<longrightarrow> om_wf (hp_subscriptions h'))
     \<and> (set (hp_subscriptions h') \<subseteq> set (hp_subscriptions h)
        \<or> (\<exists>x. sp_block (snd x) = hp_next_block h \<and> hp_next_block h' = Suc (hp_next_block h)
             \<and> set (hp_subscriptions h') \<subseteq> insert x (set (hp_subscriptions h))))"

lemma set_om_update_sub: "set (om_update k v m) \<subseteq> insert (k, v) (set m)"
  by (induction m) auto

lemma loop_rest: "unsubscribe_loop unsub P m g = (r, rest, g') \<Longrightarrow> om_wf m \<Longrightarrow> om_wf rest \<and> set rest \<subseteq> set m"
proof (induction m arbitrary: g rest)
  case (Cons it m)
  then have wf: "om_wf m" by (simp add: om_wf_Cons)
  show ?case
  proof (cases "P (snd it)")
    case True
    then obtain q g1 where u: "unsub (sd_eventName (sp_data (snd it))) (sp_addr (snd it)) g = (q, g1)" by fastforce
    show ?thesis
      using Cons.prems True u Cons.IH[OF _ wf, of g1 rest] by (cases q) auto
  next
    case False
    then obtain rest' where "rest = it # rest'" "unsubscribe_loop unsub P m g = (r, rest', g')"
      using Cons.prems(1) by (auto split: prod.splits)
    with Cons.IH[OF _ wf, of g rest'] Cons.prems(2) show ?thesis by (auto simp: om_wf_Cons)
  qed
qed simp

lemma step_map_grows:
  assumes "helper_step subscribe unsubscribe (h, g) (h', g')" and "om_wf (hp_subscriptions h)"
  shows "map_grows h h'"
  using assms(1)
proof cases
  case (hs_subscribe addr owner event n c r)
  let ?x = "(hp_currentId h, \<lparr>sp_addr = addr, sp_block = hp_next_block h,
      sp_data = \<lparr>sd_owner = owner, sd_eventName = event, sd_notification = n\<rparr>\<rparr>)"
  have "set (om_update (fst ?x) (snd ?x) (hp_subscriptions h)) \<subseteq> insert ?x (set (hp_subscriptions h))"
    using set_om_update_sub[of "fst ?x" "snd ?x" "hp_subscriptions h"] by simp
  moreover from this have "set (om_delete (fst ?x) (om_update (fst ?x) (snd ?x) (hp_subscriptions h))) \<subseteq> insert ?x (set (hp_subscriptions h))"
    by (auto simp: om_delete_def)
  moreover have "om_wf (om_update (fst ?x) (snd ?x) (hp_subscriptions h))" using assms(2) by (rule om_wf_update)
  moreover from this have "om_wf (om_delete (fst ?x) (om_update (fst ?x) (snd ?x) (hp_subscriptions h)))" by (rule om.wf_delete)
  ultimately show ?thesis
    using hs_subscribe unfolding map_grows_def
    by (auto simp: HelperImpl_subscribe_def Let_def split: prod.splits sum.splits if_splits)
next
  case (hs_unsubscribe i r)
  then show ?thesis
    using om.wf_delete[of "hp_subscriptions h" i]
    by (auto simp: HelperImpl_unsubscribe_def map_grows_def om_delete_def split: option.splits prod.splits sum.splits)
next
  case (hs_unsubscribeAll owner r)
  then show ?thesis
    using loop_rest[OF _ assms(2)] by (fastforce simp: HelperImpl_unsubscribeAll_def map_grows_def split: prod.splits)
qed

lemma blocks_ok_grows:
  assumes grows: "map_grows h h'" and ok: "blocks_ok h"
  shows "blocks_ok h'"
proof -
  have wf: "om_wf (hp_subscriptions h')" and mono: "hp_next_block h \<le> hp_next_block h'"
    using assms by (simp_all add: map_grows_def blocks_ok_def)
  have low: "\<And>y. y \<in> set (hp_subscriptions h) \<Longrightarrow> sp_block (snd y) < hp_next_block h"
    and inj: "\<And>y z. y \<in> set (hp_subscriptions h) \<Longrightarrow> z \<in> set (hp_subscriptions h) \<Longrightarrow> sp_block (snd y) = sp_block (snd z) \<Longrightarrow> y = z"
    using ok by (simp_all add: blocks_ok_def)
  consider "set (hp_subscriptions h') \<subseteq> set (hp_subscriptions h)"
    | x where "sp_block (snd x) = hp_next_block h" "hp_next_block h' = Suc (hp_next_block h)"
        "set (hp_subscriptions h') \<subseteq> insert x (set (hp_subscriptions h))"
    using grows by (auto simp: map_grows_def)
  then show ?thesis
  proof cases
    case 1
    then have "\<And>y. y \<in> set (hp_subscriptions h') \<Longrightarrow> y \<in> set (hp_subscriptions h)" by blast
    with wf mono low inj show ?thesis unfolding blocks_ok_def by (meson less_le_trans)
  next
    case 2
    then have c: "\<And>y. y \<in> set (hp_subscriptions h') \<Longrightarrow> y = x \<or> y \<in> set (hp_subscriptions h)" by blast
    have "sp_block (snd y) < hp_next_block h'" if "y \<in> set (hp_subscriptions h')" for y
      using c[OF that] low[of y] 2(1,2) by (auto simp: less_Suc_eq)
    moreover have "y = z" if "y \<in> set (hp_subscriptions h')" "z \<in> set (hp_subscriptions h')" "sp_block (snd y) = sp_block (snd z)" for y z
      using c[OF that(1)] c[OF that(2)] that(3) low inj 2(1) by (metis less_irrefl)
    ultimately show ?thesis using wf unfolding blocks_ok_def by blast
  qed
qed

lemma expired_grows: "map_grows h h' \<Longrightarrow> expired b h \<Longrightarrow> expired b h'"
  by (auto simp: map_grows_def expired_def)

lemma unsubscribe_expires:
  assumes "blocks_ok h" and "om_lookup (hp_subscriptions h) i = Some sp"
    and "HelperImpl_unsubscribe unsubscribe i h g = (Inr r, h', g')"
  shows "expired (sp_block sp) h' \<and> blocks_ok h'"
proof -
  have e: "(i, sp) \<in> set (hp_subscriptions h)" using assms(1,2) by (simp add: blocks_ok_def om_lookup_Some)
  have h': "h' = h\<lparr>hp_subscriptions := om_delete i (hp_subscriptions h)\<rparr>"
    using assms(2,3) by (auto simp: HelperImpl_unsubscribe_def split: prod.splits sum.splits)
  have "expired (sp_block sp) h'"
    using assms(1) e by (fastforce simp: h' expired_def blocks_ok_def om_delete_def)
  moreover have "blocks_ok h'"
    using assms(1) by (auto simp: h' blocks_ok_def om_delete_def om_wf_filter)
  ultimately show ?thesis by blast
qed

section \<open>The notification worker and the helper\<close>

text \<open>
  Any thread may call the helper while the worker works; \<open>nt_called\<close> lists the subscriptions, by
  their control blocks, for which the application was called. Any notification may come next, and
  the other threads may do anything to the gateway.
\<close>

record ('n, 'c, 'j, 'g, 'a) notified =
  nt_helper :: "'n HelperImpl"
  nt_gateway :: 'g
  nt_worker :: "('n, 'c, 'j) worker_at"
  nt_called :: "nat list"
  nt_app :: 'a

inductive notified_step ::
    "(string \<Rightarrow> 'c WrappedCallback \<Rightarrow> ptr \<Rightarrow> 'g \<Rightarrow> (exn + Error) \<times> 'g) \<Rightarrow> (string \<Rightarrow> ptr \<Rightarrow> 'g \<Rightarrow> (exn + Error) \<times> 'g) \<Rightarrow>
     ('c \<Rightarrow> 'n SubscriptionData \<Rightarrow> 'j \<Rightarrow> 'a \<Rightarrow> exn option \<times> 'a) \<Rightarrow>
     ('n, 'c, 'j, 'g, 'a) notified \<Rightarrow> ('n, 'c, 'j, 'g, 'a) notified \<Rightarrow> bool" for subscribe unsubscribe callback where
  ns_helper: "helper_step subscribe unsubscribe (nt_helper s, nt_gateway s) (h, g) \<Longrightarrow>
     notified_step subscribe unsubscribe callback s (s\<lparr>nt_helper := h, nt_gateway := g\<rparr>)"
| ns_gateway: "notified_step subscribe unsubscribe callback s (s\<lparr>nt_gateway := g\<rparr>)"
| ns_lock: "nt_worker s = Free \<Longrightarrow>
     notified_step subscribe unsubscribe callback s (s\<lparr>nt_worker := wrapped_lock Free w json (nt_helper s)\<rparr>)"
| ns_call: "nt_worker s = Holding sp w json \<Longrightarrow> wrapped_call callback (nt_worker s) (nt_app s) = (threw, a) \<Longrightarrow>
     notified_step subscribe unsubscribe callback s
       (s\<lparr>nt_worker := Inside sp, nt_called := nt_called s @ [sp_block sp], nt_app := a\<rparr>)"
| ns_return: "nt_worker s = Inside sp \<Longrightarrow> notified_step subscribe unsubscribe callback s (s\<lparr>nt_worker := Free\<rparr>)"

definition notified_ok :: "('n, 'c, 'j, 'g, 'a) notified \<Rightarrow> bool" where
  "notified_ok s \<longleftrightarrow> blocks_ok (nt_helper s)
     \<and> (\<forall>sp \<in> set (held_refs (nt_worker s)). sp_block sp < hp_next_block (nt_helper s))"

text \<open>The worker has locked the pointer of that block and not called yet.\<close>

definition about_to_call :: "nat \<Rightarrow> ('n, 'c, 'j, 'g, 'a) notified \<Rightarrow> bool" where
  "about_to_call b s \<longleftrightarrow> (case nt_worker s of Holding sp _ _ \<Rightarrow> sp_block sp = b | _ \<Rightarrow> False)"

lemma lock_result:
  assumes "wrapped_lock Free w json h = at" and "blocks_ok h"
  shows "at = Free \<or> (\<exists>x \<in> set (hp_subscriptions h). at = Holding (snd x) w json)"
  using assms(1) by (auto simp: wrapped_lock_def weak_lock_def find_Some_iff split: option.splits)

lemma notified_ok_start: "notified_ok \<lparr>nt_helper = HelperImpl_init, nt_gateway = g, nt_worker = Free, nt_called = [], nt_app = a\<rparr>"
  by (simp add: notified_ok_def blocks_ok_def HelperImpl_init_def)

lemma notified_ok_step:
  assumes "notified_step subscribe unsubscribe callback s s'" and "notified_ok s"
  shows "notified_ok s'"
  using assms(1)
proof cases
  case (ns_helper h g)
  have ok: "blocks_ok (nt_helper s)" using assms(2) by (simp add: notified_ok_def)
  then have m: "map_grows (nt_helper s) h" using step_map_grows[OF ns_helper(2)] by (simp add: blocks_ok_def)
  then have "hp_next_block (nt_helper s) \<le> hp_next_block h" by (simp add: map_grows_def)
  with blocks_ok_grows[OF m ok] assms(2) show ?thesis by (auto simp: ns_helper(1) notified_ok_def)
next
  case (ns_lock w json)
  have ok: "blocks_ok (nt_helper s)" using assms(2) by (simp add: notified_ok_def)
  with lock_result[OF refl ok, of w json] show ?thesis by (auto simp: ns_lock(1) notified_ok_def blocks_ok_def)
qed (use assms(2) in \<open>auto simp: notified_ok_def\<close>)

text \<open>Once a block has expired, the worker's reference in hand is the last way to its callback.\<close>

lemma expired_calls_step:
  assumes st: "notified_step subscribe unsubscribe callback s s'" and ok: "notified_ok s" and e: "expired b (nt_helper s)"
  shows "expired b (nt_helper s') \<and> (\<exists>new. nt_called s' = nt_called s @ new
    \<and> count_list new b + of_bool (about_to_call b s') \<le> (of_bool (about_to_call b s) :: nat))"
  using st
proof cases
  case (ns_helper h g)
  have "map_grows (nt_helper s) h" using step_map_grows[OF ns_helper(2)] ok by (simp add: notified_ok_def blocks_ok_def)
  from expired_grows[OF this e] show ?thesis by (simp add: ns_helper(1) about_to_call_def)
next
  case (ns_lock w json)
  have "blocks_ok (nt_helper s)" using ok by (simp add: notified_ok_def)
  from lock_result[OF refl this, of w json] have "\<not> about_to_call b s'"
    using e by (auto simp: ns_lock(1) about_to_call_def expired_def)
  then show ?thesis using e by (simp add: ns_lock(1))
qed (use e in \<open>auto simp: about_to_call_def\<close>)

lemma expired_calls:
  assumes "(notified_step subscribe unsubscribe callback)\<^sup>*\<^sup>* s s'" and "notified_ok s" and "expired b (nt_helper s)"
  shows "\<exists>new. nt_called s' = nt_called s @ new \<and> count_list new b \<le> (if about_to_call b s then 1 else 0)"
proof -
  have "notified_ok s' \<and> expired b (nt_helper s') \<and> (\<exists>new. nt_called s' = nt_called s @ new
    \<and> count_list new b + of_bool (about_to_call b s') \<le> (of_bool (about_to_call b s) :: nat))"
    using assms
  proof (induction rule: rtranclp_induct)
    case (step s1 s2)
    then obtain new where n: "nt_called s1 = nt_called s @ new"
        "count_list new b + of_bool (about_to_call b s1) \<le> (of_bool (about_to_call b s) :: nat)" and ok: "notified_ok s1" "expired b (nt_helper s1)"
      by blast
    from expired_calls_step[OF step(2) ok] obtain new' where n': "nt_called s2 = nt_called s1 @ new'"
        "count_list new' b + of_bool (about_to_call b s2) \<le> (of_bool (about_to_call b s1) :: nat)" and e: "expired b (nt_helper s2)"
      by blast
    have "count_list (new @ new') b + of_bool (about_to_call b s2) \<le> (of_bool (about_to_call b s) :: nat)"
      using n(2) n'(2) by simp
    with n(1) n'(1) e notified_ok_step[OF step(2) ok(1)] show ?case by (intro conjI exI[of _ "new @ new'"]) simp_all
  qed (auto intro: exI[of _ "[]"])
  then show ?thesis by (auto split: if_splits)
qed

lemma inflight_call:
  assumes "about_to_call b s"
  shows "\<exists>s'. notified_step subscribe unsubscribe callback s s' \<and> nt_called s' = nt_called s @ [b]"
proof -
  obtain sp w json where h: "nt_worker s = Holding sp w json" "sp_block sp = b"
    using assms by (auto simp: about_to_call_def split: worker_at.splits)
  obtain threw a where "wrapped_call callback (nt_worker s) (nt_app s) = (threw, a)" by fastforce
  from ns_call[OF h(1) this, of subscribe unsubscribe] h(2) show ?thesis by auto
qed

section \<open>Properties\<close>

text \<open>A helper over the example gateway: one subscription at address 64, acknowledged.\<close>

definition ex_world :: "(nat WrappedCallback, jval) world" where
  "ex_world = (snd (Gateway_event ex_json ex_ws (EvIo (IoOpen 7) 1)
     (snd (snd (Gateway_connect ex_json ex_ws (\<lambda>_. None) ex_config 5 [] Gateway_init)))),
     [(2, [EvIo (IoMessage True ''ack1'') 3, EvMessage]), (5, [EvIo (IoMessage True ''ack2'') 6, EvMessage])])"

definition ex_helper :: "nat HelperImpl" where
  "ex_helper = fst (snd (HelperImpl_subscribe (IGateway_subscribe ex_json ex_ws) 64 100 ''tts.stop'' 1 2 HelperImpl_init ex_world))"

definition ex_world_subscribed :: "(nat WrappedCallback, jval) world" where
  "ex_world_subscribed =
     snd (snd (HelperImpl_subscribe (IGateway_subscribe ex_json ex_ws) 64 100 ''tts.stop'' (1::nat) 2 HelperImpl_init ex_world))"

lemma ex_helper_eq:
  "ex_helper = \<lparr>hp_subscriptions = [(0, \<lparr>sp_addr = 64, sp_block = 0,
       sp_data = \<lparr>sd_owner = 100, sd_eventName = ''tts.stop'', sd_notification = 1\<rparr>\<rparr>)],
     hp_currentId = 1, hp_next_block = 1\<rparr>"
  by code_simp

lemma ex_helper_blocks: "blocks_ok ex_helper"
  by (simp add: ex_helper_eq blocks_ok_def om_wf_def)

text \<open>
  C15. What \<open>unsubscribe\<close> promises about notifications, also those already queued: after it has returned
  the worker finds the weak pointer expired and drops them, whatever is called next (also when a later
  subscription gets the same address). The one exception is a worker that had already locked the
  pointer when \<open>unsubscribe\<close> returned: it still calls the application, for that subscription, once.
  So there is at most one call afterwards, none if the worker was not between lock and call, and if
  it was nothing keeps the call from coming.
\<close>

theorem unsubscribed_notification_dropped:
  assumes "notified_ok s" and "om_lookup (hp_subscriptions (nt_helper s)) i = Some sp"
    and "HelperImpl_unsubscribe unsubscribe i (nt_helper s) (nt_gateway s) = (Inr r, h', g')"
    and "s1 = s\<lparr>nt_helper := h', nt_gateway := g'\<rparr>"
  shows "((notified_step subscribe unsubscribe callback)\<^sup>*\<^sup>* s1 s2 \<longrightarrow>
        (\<exists>new. nt_called s2 = nt_called s @ new
           \<and> count_list new (sp_block sp) \<le> (if about_to_call (sp_block sp) s then 1 else 0)))
    \<and> (about_to_call (sp_block sp) s \<longrightarrow>
        (\<exists>s2. notified_step subscribe unsubscribe callback s1 s2 \<and> nt_called s2 = nt_called s @ [sp_block sp]))"
proof -
  have e: "expired (sp_block sp) h'" "hp_next_block h' = hp_next_block (nt_helper s)" "blocks_ok h'"
    using assms(1) unsubscribe_expires[OF _ assms(2,3)] assms(2,3)
    by (auto simp: notified_ok_def HelperImpl_unsubscribe_def split: prod.splits sum.splits)
  then have ok: "notified_ok s1" "expired (sp_block sp) (nt_helper s1)" using assms(1,4) by (simp_all add: notified_ok_def)
  have same: "nt_called s1 = nt_called s" "about_to_call (sp_block sp) s1 = about_to_call (sp_block sp) s"
    using assms(4) by (simp_all add: about_to_call_def)
  show ?thesis
    using expired_calls[OF _ ok, of subscribe unsubscribe callback s2] inflight_call[of "sp_block sp" s1 subscribe unsubscribe callback]
    unfolding same by blast
qed

text \<open>A worker between lock and call when the helper of the example unsubscribes.\<close>

definition ex_notified :: "(nat, nat, jval, (nat WrappedCallback, jval) world, nat) notified" where
  "ex_notified = \<lparr>nt_helper = ex_helper, nt_gateway = ex_world_subscribed,
     nt_worker = wrapped_lock Free \<lparr>wc_wpData = 0, wc_callback = 2, wc_eventName = ''tts.stop''\<rparr> (JStr ''x'') ex_helper,
     nt_called = [], nt_app = 0\<rparr>"

lemma ex_notified_ok: "notified_ok ex_notified" "about_to_call 0 ex_notified"
  using ex_helper_blocks
  by (simp_all add: notified_ok_def about_to_call_def ex_notified_def wrapped_lock_def weak_lock_def ex_helper_eq)

abbreviation ex_step ::
    "(nat, nat, jval, (nat WrappedCallback, jval) world, nat) notified \<Rightarrow> (nat, nat, jval, (nat WrappedCallback, jval) world, nat) notified \<Rightarrow> bool" where
  "ex_step \<equiv> notified_step (IGateway_subscribe ex_json ex_ws) (IGateway_unsubscribe ex_json ex_ws) (\<lambda>_ _ _ n. (None, Suc n))"

theorem unsubscribed_notification_dropped_witness:
  "\<exists>s1 s2. hp_subscriptions (nt_helper s1) = [] \<and> ex_step s1 s2
     \<and> nt_called s1 = [] \<and> nt_called s2 = [0]
     \<and> (\<forall>s3. ex_step\<^sup>*\<^sup>* s1 s3
          \<longrightarrow> count_list (nt_called s3) 0 \<le> 1)"
proof -
  let ?sp = "\<lparr>sp_addr = 64, sp_block = 0, sp_data = \<lparr>sd_owner = 100, sd_eventName = ''tts.stop'', sd_notification = 1\<rparr>\<rparr>"
  let ?r = "HelperImpl_unsubscribe (IGateway_unsubscribe ex_json ex_ws) 0 ex_helper ex_world_subscribed"
  let ?s1 = "ex_notified\<lparr>nt_helper := fst (snd ?r), nt_gateway := snd (snd ?r)\<rparr>"
  have l: "om_lookup (hp_subscriptions (nt_helper ex_notified)) 0 = Some ?sp" by (simp add: ex_notified_def ex_helper_eq om_lookup_def)
  have "fst ?r = Inr (ResultVoid_error Err_None)" and e: "hp_subscriptions (fst (snd ?r)) = []" by code_simp+
  then have r: "HelperImpl_unsubscribe (IGateway_unsubscribe ex_json ex_ws) 0 (nt_helper ex_notified) (nt_gateway ex_notified)
      = (Inr (ResultVoid_error Err_None), fst (snd ?r), snd (snd ?r))"
    by (simp add: ex_notified_def prod_eq_iff)
  have c: "nt_called ex_notified = []" by (simp add: ex_notified_def)
  note * = unsubscribed_notification_dropped [OF ex_notified_ok(1) l r refl, of "IGateway_subscribe ex_json ex_ws" "\<lambda>_ _ _ n. (None, Suc n)"]
  have at: "about_to_call (sp_block ?sp) ex_notified" using ex_notified_ok(2) by simp
  then obtain s2 where s2: "ex_step ?s1 s2"
      "nt_called s2 = [0]" using * c by force
  have "count_list (nt_called s3) 0 \<le> 1"
    if "ex_step\<^sup>*\<^sup>* ?s1 s3" for s3
    using *[of s3] that at c by force
  moreover have "hp_subscriptions (nt_helper ?s1) = []" "nt_called ?s1 = []" using e c by simp_all
  ultimately show ?thesis using s2 by blast
qed

text \<open>
  \<open>unsubscribeAll(owner)\<close>, when no gateway call throws, removes exactly that owner's
  subscriptions from the helper, removes each of them from the gateway's subscriber list, and
  leaves every other subscription of both in place and in order.
\<close>

lemma unsubscribeAll_exact:
  assumes "server_inv (gw_server (fst w))"
    and "HelperImpl_unsubscribeAll (IGateway_unsubscribe J W) owner h w = (None, h', w')"
  shows "hp_subscriptions h' = filter (\<lambda>it. sd_owner (sp_data (snd it)) \<noteq> owner) (hp_subscriptions h)
    \<and> sv_eventList (gw_server (fst w')) =
        filter (\<lambda>e. \<not> (\<exists>it \<in> set (hp_subscriptions h). sd_owner (sp_data (snd it)) = owner
          \<and> is_subscriber (sd_eventName (sp_data (snd it))) (sp_addr (snd it)) e)) (sv_eventList (gw_server (fst w)))"
proof -
  obtain rest where l: "unsubscribe_loop (IGateway_unsubscribe J W) (\<lambda>sp. sd_owner (sp_data sp) = owner) (hp_subscriptions h) w
      = (None, rest, w')" and h': "h' = h\<lparr>hp_subscriptions := rest\<rparr>"
    using assms(2) by (auto simp: HelperImpl_unsubscribeAll_def split: prod.splits)
  show ?thesis using ig.loop_spec[OF assms(1) l] by (simp add: h')
qed

lemma unsubscribeAll_exact_witness:
  "sv_eventList (gw_server (fst (snd (snd (HelperImpl_unsubscribeAll (IGateway_unsubscribe ex_json ex_ws) 100 ex_helper ex_world_subscribed))))) = []"
proof -
  let ?r = "HelperImpl_unsubscribeAll (IGateway_unsubscribe ex_json ex_ws) 100 ex_helper ex_world_subscribed"
  have "sv_eventList (gw_server (fst ex_world_subscribed))
      = [\<lparr>ev_name = ''tts.stop'', ev_lambda = \<lparr>wc_wpData = 0, wc_callback = 2, wc_eventName = ''tts.stop''\<rparr>, ev_usercb = 64\<rparr>]"
    and "sv_worker (gw_server (fst ex_world_subscribed))" and "\<not> sv_stop (gw_server (fst ex_world_subscribed))" by code_simp+
  then have s: "server_inv (gw_server (fst ex_world_subscribed))" and l: "sv_eventList (gw_server (fst ex_world_subscribed))
      = [\<lparr>ev_name = ''tts.stop'', ev_lambda = \<lparr>wc_wpData = 0, wc_callback = 2, wc_eventName = ''tts.stop''\<rparr>, ev_usercb = 64\<rparr>]"
    by (simp_all add: server_inv_def)
  have "fst ?r = None" by code_simp
  then have r: "?r = (None, fst (snd ?r), snd (snd ?r))" by (metis prod.collapse)
  show ?thesis
    using unsubscribeAll_exact [OF s r] by (simp add: l ex_helper_eq is_subscriber_def)
qed

text \<open>
  The helper's \<open>subscribe\<close> over the gateway is all or nothing: on success it returns the next
  id, under which the subscription is kept, and the gateway's list has one new entry with its
  wrapped callback and address; on an error both are what they were, and the error is returned.
\<close>

lemma helper_subscribe_all_or_nothing:
  assumes "server_inv (gw_server (fst w))" and "hp_currentId h \<notin> fst ` set (hp_subscriptions h)"
    and "HelperImpl_subscribe (IGateway_subscribe J W) addr owner event n c h w = (Inr r, h', w')"
  shows "(case result_value r of
      Some i \<Rightarrow> i = hp_currentId h
        \<and> (\<exists>sp. om_lookup (hp_subscriptions h') = (om_lookup (hp_subscriptions h))(i \<mapsto> sp)
             \<and> sp_addr sp = addr \<and> sd_owner (sp_data sp) = owner \<and> sd_eventName (sp_data sp) = event
             \<and> sv_eventList (gw_server (fst w')) = sv_eventList (gw_server (fst w))
                @ [\<lparr>ev_name = event, ev_lambda = \<lparr>wc_wpData = sp_block sp, wc_callback = c, wc_eventName = event\<rparr>, ev_usercb = addr\<rparr>])
    | None \<Rightarrow> result_error r \<noteq> Err_None \<and> hp_subscriptions h' = hp_subscriptions h
        \<and> sv_eventList (gw_server (fst w')) = sv_eventList (gw_server (fst w)))"
proof -
  let ?wrapped = "\<lparr>wc_wpData = hp_next_block h, wc_callback = c, wc_eventName = event\<rparr>"
  obtain st w1 where s: "IGateway_subscribe J W event ?wrapped addr w = (Inr st, w1)"
    using assms(3) by (auto simp: HelperImpl_subscribe_def Let_def split: prod.splits sum.splits)
  note list = ig.subscribe_subs[OF assms(1) s]
  show ?thesis
    using assms(3) list
    by (auto simp: HelperImpl_subscribe_def Let_def s om_lookup_update om_delete_update[OF assms(2)]
        Result_value_def Result_error_def split: if_splits
        intro!: exI[of _ "\<lparr>sp_addr = addr, sp_block = hp_next_block h,
          sp_data = \<lparr>sd_owner = owner, sd_eventName = event, sd_notification = n\<rparr>\<rparr>"])
qed

lemma helper_subscribe_all_or_nothing_witness:
  "\<exists>r. fst (HelperImpl_subscribe (IGateway_subscribe ex_json ex_ws) 64 100 ''tts.stop'' (1::nat) 2 HelperImpl_init ex_world) = Inr r
     \<and> result_value r = Some 0"
proof -
  let ?r = "HelperImpl_subscribe (IGateway_subscribe ex_json ex_ws) 64 100 ''tts.stop'' (1::nat) 2 HelperImpl_init ex_world"
  have "sv_eventList (gw_server (fst ex_world)) = []" "sv_queue (gw_server (fst ex_world)) = []" "\<not> sv_worker (gw_server (fst ex_world))"
    by code_simp+
  then have s: "server_inv (gw_server (fst ex_world))" by (simp add: server_inv_def)
  have c: "hp_currentId (HelperImpl_init :: nat HelperImpl) \<notin> fst ` set (hp_subscriptions (HelperImpl_init :: nat HelperImpl))"
    by (simp add: HelperImpl_init_def)
  have "fst ?r = Inr (Result_value 0)" by code_simp
  then have r: "?r = (Inr (Result_value 0), fst (snd ?r), snd (snd ?r))" by (metis prod.collapse)
  show ?thesis
    using helper_subscribe_all_or_nothing [OF s c r] \<open>fst ?r = Inr (Result_value 0)\<close> by (simp add: Result_value_def)
qed

lemma request_down:
  assumes "gateway_reachable J g" and "ids_left (gw_transport g)" and "tr_status (gw_transport g) \<noteq> Connected"
  shows "\<exists>g'. IGateway_request_get J W m p (g, script) = (Some (Inr (Result_error Err_NotConnected)), (g', script))
    \<and> tr_wire (gw_transport g') = tr_wire (gw_transport g)"
proof -
  obtain i t where i: "Transport_getNextMessageID (gw_transport g) = (i, t)" by fastforce
  have inv: "gateway_inv g" by (rule gateway_reachable_inv[OF assms(1)])
  have wf: "client_wf (gw_client g)" using inv by (simp add: gateway_inv_def)
  have t: "tr_status t \<noteq> Connected" "tr_wire t = tr_wire (gw_transport g)"
    using i assms(3) by (auto simp: Transport_getNextMessageID_def)
  have "Gateway_request J W m p None now g = (Inr (client_next (gw_client g)),
      g\<lparr>gw_client := (gw_client g)\<lparr>client_next := Suc (client_next (gw_client g)),
          client_promises := (client_promises (gw_client g))(client_next (gw_client g) := Some (Result_error Err_NotConnected))\<rparr>,
        gw_transport := t\<rparr>)" for now
    using request_fresh_eq[OF wf gateway_inv_next_id(2)[OF inv assms(2) i], of Transport_getNextMessageID "Transport_send J W" m p now t] t(1)
    by (simp add: Gateway_request_def request_none_eq i Transport_send_def)
  then show ?thesis
    using t(2) by (cases script) (simp_all add: IGateway_request_get_def)
qed

text \<open>
  A call made while the transport is not connected does not block: the helper's \<open>invoke\<close> and
  \<open>get\<close> return \<open>NotConnected\<close> at once and nothing is sent.
\<close>

lemma calls_fail_fast_when_down:
  assumes "gateway_reachable J g" and "ids_left (gw_transport g)" and "tr_status (gw_transport g) \<noteq> Connected"
  shows "\<exists>g'. HelperImpl_invoke (IGateway_request_get J W) m p (g, script)
        = (Some (Inr (ResultVoid_error Err_NotConnected)), (g', script))
      \<and> IHelper_get J lg (IGateway_request_get J W) fromJson m p (g, script)
        = (Some (Inr (Result_error Err_NotConnected)), (g', script))
      \<and> tr_wire (gw_transport g') = tr_wire (gw_transport g)"
  using request_down[OF assms, of W m p script]
  by (auto simp: HelperImpl_invoke_def HelperImpl_getJson_def IHelper_get_def result_defs)

lemma calls_fail_fast_when_down_witness:
  "fst (HelperImpl_invoke (IGateway_request_get ex_json ex_ws) ''device.id'' JNull (Gateway_init :: (nat, jval) Gateway, []))
     = Some (Inr (ResultVoid_error Err_NotConnected))"
proof -
  have i: "ids_left (gw_transport (Gateway_init :: (nat, jval) Gateway))" "tr_status (gw_transport (Gateway_init :: (nat, jval) Gateway)) \<noteq> Connected"
    by (simp_all add: Gateway_init_def Transport_init_def ids_left_def)
  show ?thesis
    using calls_fail_fast_when_down [OF gr_start [of ex_json] i, of ex_ws "''device.id''" JNull "[]" False "\<lambda>_. Inr ()"] by auto
qed

definition ex_zero_code :: jval where
  "ex_zero_code = JObj [(''error'', JObj [(''code'', JUInt 0), (''message'', JStr ''denied'')]), (''id'', JUInt 1)]"

text \<open>
  An error reply whose code is 0 reads as success: the result the caller's future gets has no
  value, but its error is \<open>None\<close>, so \<open>invoke\<close> returns a \<open>Result<void>\<close> that tests true.
\<close>

lemma error_code_zero_reads_as_success:
  "\<exists>r v. response_result ex_json ex_zero_code = Inr r \<and> \<not> has_value r
     \<and> HelperImpl_invoke (\<lambda>_ _ g. (Some (Inr r), g)) m p g = (Some (Inr v), g) \<and> void_ok v
     \<and> info_message (void_info v) = ''denied''"
proof -
  have r: "response_result ex_json ex_zero_code = Inr (Result_error_info Err_None \<lparr>info_error = 0, info_message = ''denied''\<rparr>)"
    by code_simp
  show ?thesis
    by (rule exI, rule exI[of _ "ResultVoid_error_info Err_None \<lparr>info_error = 0, info_message = ''denied''\<rparr>"], intro conjI, rule r)
      (simp_all add: HelperImpl_invoke_def HelperImpl_getJson_def result_defs)
qed

text \<open>
  A notification the application did not ask for in that form never reaches it: when the
  stored notifier has another type or the payload does not parse, the application is not
  called, and (as the payload can be printed) no exception leaves the callback.
\<close>

lemma bad_notification_contained:
  assumes "\<exists>e. (any_cast (sd_notification d) = Inl e \<or> fromJson json = Inl e) \<and> is_std_exception e"
    and "\<And>e. any_cast (sd_notification d) = Inl e \<Longrightarrow> e = BadAnyCast" and "js_dump J json = Inr txt"
  shows "onPropertyChangedCallback J lg any_cast fromJson notify d json a = (None, a)"
  using assms by (auto simp: onPropertyChangedCallback_def split: sum.splits)

end
