(* ===== verification/Fb_Helper_System.thy ===== *)
theory Fb_Helper_System
  imports Fb_Helpers
begin

text \<open>
  The helper and the gateway together. The helper gives the gateway a raw pointer and a lambda
  with a weak pointer for every subscription; this theory shows that the two tables never
  disagree in the dangerous direction, whatever the order of helper calls, connects and
  disconnects, requests and steps of the library's threads, and also when a gateway call throws.
\<close>

section \<open>What a throwing subscribe leaves\<close>

text \<open>The contract of the helper, with the case of a \<open>subscribe\<close> that throws after it has registered the listener.\<close>

locale helper_gateway = igateway subs ok subscribe unsubscribe
  for subs :: "'g \<Rightarrow> 'c WrappedCallback CallbackDataEvent list" and ok subscribe unsubscribe +
  assumes subscribe_throws: "ok g \<Longrightarrow> subscribe event k u g = (Inl e, g') \<Longrightarrow>
    subs g' = subs g @ [\<lparr>ev_name = event, ev_lambda = k, ev_usercb = u\<rparr>]"

text \<open>The entry of the helper's map a registered listener belongs to.\<close>

definition owns :: "u64 \<times> 'n SharedData \<Rightarrow> 'c WrappedCallback CallbackDataEvent \<Rightarrow> bool" where
  "owns it e \<longleftrightarrow> is_subscriber (sd_eventName (sp_data (snd it))) (sp_addr (snd it)) e
     \<and> wc_wpData (ev_lambda e) = sp_block (snd it)"

definition all_owned :: "(u64, 'n SharedData) omap \<Rightarrow> 'c WrappedCallback CallbackDataEvent list \<Rightarrow> bool" where
  "all_owned m es \<longleftrightarrow> (\<forall>e \<in> set es. \<exists>it \<in> set m. owns it e)"

lemma all_owned_filter:
  assumes "all_owned m es" and "\<And>it e. it \<in> set m \<Longrightarrow> it \<notin> set m' \<Longrightarrow> e \<in> set es \<Longrightarrow> owns it e \<Longrightarrow> \<not> P e"
  shows "all_owned m' (filter P es)"
  using assms unfolding all_owned_def set_filter by blast

context helper_gateway
begin

lemma owned_loop:
  assumes "ok g" and "all_owned (done @ m) (subs g)" and "unsubscribe_loop unsubscribe P m g = (r, rest, g')"
  shows "all_owned (done @ rest) (subs g')"
  using assms
proof (induction m arbitrary: "done" g rest)
  case (Cons it m)
  show ?case
  proof (cases "P (snd it)")
    case True
    obtain q g1 where u: "unsubscribe (sd_eventName (sp_data (snd it))) (sp_addr (snd it)) g = (q, g1)" by fastforce
    note s = unsubscribe_subs[OF Cons.prems(1) u]
    show ?thesis
    proof (cases q)
      case (Inl e)
      with True u Cons.prems(2,3) s show ?thesis by (auto simp: all_owned_def)
    next
      case (Inr st)
      have "all_owned (done @ m) (subs g1)"
        unfolding s by (rule all_owned_filter[OF Cons.prems(2)]) (auto simp: owns_def)
      from Cons.IH[OF unsubscribe_ok[OF Cons.prems(1) u] this] True u Inr Cons.prems(3) show ?thesis by simp
    qed
  next
    case False
    then obtain rest' where "rest = it # rest'" "unsubscribe_loop unsubscribe P m g = (r, rest', g')"
      using Cons.prems(3) by (auto split: prod.splits)
    with Cons.IH[of g "done @ [it]" rest'] Cons.prems(1,2) show ?thesis by simp
  qed
qed simp

lemma owned_subscribe:
  assumes "ok g" and "all_owned (hp_subscriptions h) (subs g)" and "hp_currentId h \<notin> fst ` set (hp_subscriptions h)"
    and s: "HelperImpl_subscribe subscribe addr owner event n c h g = (r, h', g')"
  shows "ok g' \<and> all_owned (hp_subscriptions h') (subs g')"
proof -
  let ?w = "\<lparr>wc_wpData = hp_next_block h, wc_callback = c, wc_eventName = event\<rparr>"
  let ?sp = "\<lparr>sp_addr = addr, sp_block = hp_next_block h, sp_data = \<lparr>sd_owner = owner, sd_eventName = event, sd_notification = n\<rparr>\<rparr>"
  obtain q g1 where u: "subscribe event ?w addr g = (q, g1)" by fastforce
  have new: "all_owned (om_update (hp_currentId h) ?sp (hp_subscriptions h)) (subs g @ [\<lparr>ev_name = event, ev_lambda = ?w, ev_usercb = addr\<rparr>])"
    using assms(2) by (auto simp: all_owned_def set_om_update[OF assms(3)] owns_def is_subscriber_def)
  show ?thesis
  proof (cases q)
    case (Inl e)
    with u s new show ?thesis
      using subscribe_throws[OF assms(1), of event ?w addr e g1] subscribe_ok[OF assms(1) u]
      by (auto simp: HelperImpl_subscribe_def Let_def)
  next
    case (Inr st)
    with u s new assms(2) show ?thesis
      using subscribe_subs[OF assms(1), of event ?w addr st g1] subscribe_ok[OF assms(1) u]
      by (auto simp: HelperImpl_subscribe_def Let_def om_delete_update[OF assms(3)] split: if_splits)
  qed
qed

lemma owned_unsubscribe:
  assumes "ok g" and "all_owned (hp_subscriptions h) (subs g)" and "om_wf (hp_subscriptions h)"
    and s: "HelperImpl_unsubscribe unsubscribe i h g = (r, h', g')"
  shows "ok g' \<and> all_owned (hp_subscriptions h') (subs g')"
proof (cases "om_lookup (hp_subscriptions h) i")
  case None
  with s assms(1,2) show ?thesis by (simp add: HelperImpl_unsubscribe_def)
next
  case (Some sp)
  obtain q g1 where u: "unsubscribe (sd_eventName (sp_data sp)) (sp_addr sp) g = (q, g1)" by fastforce
  note ok1 = unsubscribe_ok[OF assms(1) u] and l = unsubscribe_subs[OF assms(1) u]
  have entry: "x = sp" if "(i, x) \<in> set (hp_subscriptions h)" for x
    using that Some assms(3) by (simp add: om_lookup_Some[symmetric])
  have "all_owned (om_delete i (hp_subscriptions h)) (subs g1)"
    unfolding l by (rule all_owned_filter[OF assms(2)]) (auto simp: om_delete_def owns_def dest: entry)
  moreover have "all_owned (hp_subscriptions h) (subs g1)"
    unfolding l by (rule all_owned_filter[OF assms(2)]) simp
  ultimately show ?thesis
    using s Some u ok1 by (auto simp: HelperImpl_unsubscribe_def split: sum.splits)
qed

lemma owned_unsubscribeAll:
  assumes "ok g" and "all_owned (hp_subscriptions h) (subs g)"
    and s: "HelperImpl_unsubscribeAll unsubscribe owner h g = (r, h', g')"
  shows "ok g' \<and> all_owned (hp_subscriptions h') (subs g')"
proof -
  obtain rest where l: "unsubscribe_loop unsubscribe (\<lambda>sp. sd_owner (sp_data sp) = owner) (hp_subscriptions h) g = (r, rest, g')"
    and h': "h' = h\<lparr>hp_subscriptions := rest\<rparr>"
    using s by (auto simp: HelperImpl_unsubscribeAll_def split: prod.splits)
  show ?thesis using owned_loop[of g "[]"] loop_ok[OF assms(1) l] assms(1,2) l by (simp add: h')
qed

text \<open>Every call on the helper keeps every registered listener owned.\<close>

lemma owned_step:
  assumes "helper_step subscribe unsubscribe (h, g) (h', g')" and "ok g" and "all_owned (hp_subscriptions h) (subs g)"
    and "om_wf (hp_subscriptions h)" and "hp_currentId h \<notin> fst ` set (hp_subscriptions h)"
  shows "ok g' \<and> all_owned (hp_subscriptions h') (subs g')"
  using assms(1)
proof cases
  case hs_subscribe
  then show ?thesis by (rule owned_subscribe[OF assms(2,3,5)])
next
  case hs_unsubscribe
  then show ?thesis by (rule owned_unsubscribe[OF assms(2-4)])
next
  case hs_unsubscribeAll
  then show ?thesis by (rule owned_unsubscribeAll[OF assms(2,3)])
qed

end

lemma gateway_subscribe_throws:
  assumes "server_inv (gw_server g)" and "Gateway_subscribe J W event k u now evs g = (Inl e, outs, g')"
  shows "sv_eventList (gw_server g') = sv_eventList (gw_server g) @ [\<lparr>ev_name = event, ev_lambda = k, ev_usercb = u\<rparr>]"
proof -
  obtain i g1 where r: "subscribe_ready event k u g = (i, g1)" by fastforce
  show ?thesis
    using assms(2) es.subscribe_result[OF assms(1), of event k u] es.subscribe_subs[OF assms(1), of event k u]
      request_frame(1)[of J W event "listen_params J True" "Some i" now g1] subscribe_ready_fields(1)[OF r]
    by (auto simp: subscribe_cases r case_prod_beta split: if_splits sum.splits)
qed

interpretation hg: helper_gateway "\<lambda>w. sv_eventList (gw_server (fst w))" "\<lambda>w. server_inv (gw_server (fst w))"
  "IGateway_subscribe J W" "IGateway_unsubscribe J W"
  by unfold_locales (auto simp: IGateway_subscribe_def Let_def split: prod.splits dest: gateway_subscribe_throws)

section \<open>The two together\<close>

lemma find_append: "find P (xs @ ys) = (case find P xs of Some x \<Rightarrow> Some x | None \<Rightarrow> find P ys)"
  by (induction xs) auto

lemma weak_lock_live:
  assumes "blocks_ok h" and "(i, sp) \<in> set (hp_subscriptions h)"
  shows "weak_lock refs (sp_block sp) h = Some sp"
proof -
  let ?find = "find (\<lambda>s. sp_block s = sp_block sp)"
  have "?find (map snd (hp_subscriptions h)) \<noteq> None"
    unfolding find_None_iff using assms(2) by force
  then obtain s where s: "find (\<lambda>s. sp_block s = sp_block sp) (map snd (hp_subscriptions h)) = Some s" by blast
  then have "s \<in> snd ` set (hp_subscriptions h)" "sp_block s = sp_block sp"
    by (auto simp: find_Some_iff)
  with assms have "s = sp" unfolding blocks_ok_def by force
  with s show ?thesis by (simp add: weak_lock_def find_append)
qed

lemma server_disconnect:
  assumes "server_inv (gw_server g)"
  shows "server_inv (gw_server (snd (snd (Gateway_disconnect J W evs now g))))
    \<and> sv_eventList (gw_server (snd (snd (Gateway_disconnect J W evs now g)))) = sv_eventList (gw_server g)"
proof -
  obtain st us t where t: "Transport_disconnect W evs (gw_transport g) = (st, us, t)" using prod_cases3 by blast
  let ?u = "snd (Gateway_upcalls J now us (g\<lparr>gw_transport := t\<rparr>))"
  have u: "server_inv (gw_server ?u)" "sv_eventList (gw_server ?u) = sv_eventList (gw_server g)"
    using assms kept_upcalls[of "g\<lparr>gw_transport := t\<rparr>" J now us] by (simp_all add: server_inv_upcalls kept_def)
  have "server_inv (gw_server (snd (snd (Gateway_cleanupInternalState ?u))))"
    using u(1) by (auto simp: Gateway_cleanupInternalState_def case_prod_beta server_inv_stop Let_def split: option.splits)
  with u kept_cleanup[of ?u] show ?thesis
    by (auto simp: Gateway_disconnect_def t case_prod_beta Let_def kept_def split: sum.splits option.splits)
qed

lemma server_connect:
  assumes "server_inv (gw_server g)"
  shows "server_inv (gw_server (snd (snd (Gateway_connect J W getenv cfg k evs g))))
    \<and> sv_eventList (gw_server (snd (snd (Gateway_connect J W getenv cfg k evs g)))) = sv_eventList (gw_server g)"
proof -
  let ?g = "snd (connect_attempt W getenv cfg k g)"
  have "server_inv (gw_server (snd (Gateway_run J W evs ?g)))" using assms by (simp add: server_inv_run connect_attempt_frame)
  with kept_run[of ?g J W evs] show ?thesis by (simp add: connect_cases case_prod_beta kept_def connect_attempt_frame)
qed

text \<open>
  Helper and gateway in any order of helper calls (each over some script of what happens while it
  waits), connects, disconnects, requests and steps of the library's threads. A \<open>subscribe\<close> is made
  while the 64-bit subscription counter has not come back to an id in use.
\<close>

inductive helper_system :: "'j json_api \<Rightarrow> 'n HelperImpl \<Rightarrow> ('c WrappedCallback, 'j) Gateway \<Rightarrow> bool" for J where
  hy_start: "helper_system J HelperImpl_init Gateway_init"
| hy_helper: "helper_system J h g \<Longrightarrow> hp_currentId h \<notin> fst ` set (hp_subscriptions h) \<Longrightarrow>
    helper_step (IGateway_subscribe J W) (IGateway_unsubscribe J W) (h, (g, script)) (h', (g', script')) \<Longrightarrow> helper_system J h' g'"
| hy_connect: "helper_system J h g \<Longrightarrow> helper_system J h (snd (snd (Gateway_connect J W getenv cfg k evs g)))"
| hy_disconnect: "helper_system J h g \<Longrightarrow> helper_system J h (snd (snd (Gateway_disconnect J W ios now g)))"
| hy_request: "helper_system J h g \<Longrightarrow> helper_system J h (snd (Gateway_request J W m p idOpt now g))"
| hy_event: "helper_system J h g \<Longrightarrow> helper_system J h (snd (Gateway_event J W ev g))"

lemma helper_system_inv:
  "helper_system J h g \<Longrightarrow> blocks_ok h \<and> server_inv (gw_server g) \<and> all_owned (hp_subscriptions h) (sv_eventList (gw_server g))"
proof (induction rule: helper_system.induct)
  case hy_start
  show ?case by (simp add: blocks_ok_def HelperImpl_init_def Gateway_init_def server_inv_init all_owned_def)
    (simp add: Server_init_def)
next
  case (hy_helper h g W script h' g' script')
  then have ok: "blocks_ok h" "om_wf (hp_subscriptions h)" by (simp_all add: blocks_ok_def)
  from blocks_ok_grows[OF step_map_grows[OF hy_helper(3) ok(2)] ok(1)]
    hg.owned_step[OF hy_helper(3) _ _ ok(2) hy_helper(2)] hy_helper(4)
  show ?case by simp
next
  case (hy_event h g W ev)
  then show ?case using kept_event[of g J W ev] by (simp add: server_inv_event kept_def)
qed (simp_all add: server_connect server_disconnect request_frame)

text \<open>
  C9. The gateway never keeps a listener the helper has let go, however helper calls, connects,
  disconnects and thread steps are ordered and also after a \<open>subscribe\<close> or \<open>unsubscribe\<close> that
  throws: behind every registered listener the helper still holds the subscription it was made
  for, with that event name, at that address, and the listener's weak pointer leads to it. So
  destroying the helper, if no gateway call throws, leaves the gateway without listeners.
\<close>

theorem listeners_have_live_subscriptions:
  assumes "helper_system J h g"
  shows "(\<forall>e \<in> set (sv_eventList (gw_server g)). \<exists>i sp. om_lookup (hp_subscriptions h) i = Some sp
      \<and> sd_eventName (sp_data sp) = ev_name e \<and> sp_addr sp = ev_usercb e \<and> weak_lock refs (wc_wpData (ev_lambda e)) h = Some sp)
    \<and> (HelperImpl_destroy (IGateway_unsubscribe J W) h (g, script) = (None, h', w') \<longrightarrow> sv_eventList (gw_server (fst w')) = [])"
proof -
  have ok: "blocks_ok h" "server_inv (gw_server g)" and own: "all_owned (hp_subscriptions h) (sv_eventList (gw_server g))"
    using helper_system_inv[OF assms] by auto
  have lock: "weak_lock refs (sp_block sp) h = Some sp \<and> om_lookup (hp_subscriptions h) i = Some sp" if "(i, sp) \<in> set (hp_subscriptions h)" for i sp
    using weak_lock_live[OF ok(1) that] ok(1) that by (simp add: blocks_ok_def om_lookup_Some)
  have "sv_eventList (gw_server (fst w')) = []"
    if "HelperImpl_destroy (IGateway_unsubscribe J W) h (g, script) = (None, h', w')"
  proof -
    from that obtain rest where l: "unsubscribe_loop (IGateway_unsubscribe J W) (\<lambda>_. True) (hp_subscriptions h) (g, script) = (None, rest, w')"
      by (auto simp: HelperImpl_destroy_def split: prod.splits)
    show ?thesis using ig.loop_spec[OF _ l] ok(2) own by (auto simp: all_owned_def owns_def filter_empty_conv)
  qed
  moreover have "\<exists>i sp. om_lookup (hp_subscriptions h) i = Some sp \<and> sd_eventName (sp_data sp) = ev_name e
      \<and> sp_addr sp = ev_usercb e \<and> weak_lock refs (wc_wpData (ev_lambda e)) h = Some sp" if "e \<in> set (sv_eventList (gw_server g))" for e
    using own that lock by (force simp: all_owned_def owns_def is_subscriber_def)
  ultimately show ?thesis by blast
qed

lemma ex_helper_call: "helper_step (IGateway_subscribe ex_json ex_ws) (IGateway_unsubscribe ex_json ex_ws)
    (HelperImpl_init, (fst ex_world, snd ex_world)) (ex_helper, (fst ex_world_subscribed, snd ex_world_subscribed))"
proof -
  let ?s = "HelperImpl_subscribe (IGateway_subscribe ex_json ex_ws) 64 100 ''tts.stop'' (1::nat) 2 HelperImpl_init ex_world"
  show ?thesis
    unfolding ex_helper_def ex_world_subscribed_def
    by (rule hs_subscribe [of _ 64 100 "''tts.stop''" 1 2 _ _ "fst ?s"]) simp
qed

lemma ex_helper_system: "helper_system ex_json ex_helper (fst ex_world_subscribed)"
proof -
  have "helper_system ex_json (HelperImpl_init :: nat HelperImpl) (fst ex_world)"
    unfolding ex_world_def fst_conv by (intro hy_event hy_connect hy_start)
  from hy_helper [OF this _ ex_helper_call] show ?thesis
    by (simp add: HelperImpl_init_def)
qed

theorem listeners_have_live_subscriptions_witness:
  "sv_eventList (gw_server (fst ex_world_subscribed)) \<noteq> []
   \<and> sv_eventList (gw_server (fst (snd (snd (HelperImpl_destroy (IGateway_unsubscribe ex_json ex_ws) ex_helper ex_world_subscribed))))) = []"
proof -
  let ?d = "HelperImpl_destroy (IGateway_unsubscribe ex_json ex_ws) ex_helper (fst ex_world_subscribed, snd ex_world_subscribed)"
  have n: "sv_eventList (gw_server (fst ex_world_subscribed)) \<noteq> []" and "fst ?d = None" by code_simp+
  then have d: "?d = (None, fst (snd ?d), snd (snd ?d))" by (metis prod.collapse)
  have "sv_eventList (gw_server (fst (snd (snd ?d)))) = []"
    using listeners_have_live_subscriptions [OF ex_helper_system, of "[]" ex_ws "snd ex_world_subscribed" "fst (snd ?d)" "snd (snd ?d)"] d by blast
  then show ?thesis using n by simp
qed

end
