(* ===== verification/Fb_Managers.thy ===== *)
theory Fb_Managers
  imports Fb_Helper_System
begin

text \<open>
  \<open>SubscriptionManager\<close> (\<open>src/helpers_impl.cpp\<close>, \<open>include/firebolt/helpers.h\<close>): the object through which
  one owner subscribes, and whose destructor unsubscribes everything of that owner. Many managers
  share the one helper. \<open>helper_\<close> is the helper the operations are given; the callback of a
  subscription is \<open>onPropertyChangedCallback\<close>, chosen by the argument \<open>onChanged\<close>.
\<close>

section \<open>The manager\<close>

record SubscriptionManager =
  sm_owner :: ptr

definition SubscriptionManager_init :: "ptr \<Rightarrow> SubscriptionManager" where
  "SubscriptionManager_init owner = \<lparr>sm_owner = owner\<rparr>"

definition SubscriptionManager_subscribe ::
    "(string \<Rightarrow> 'c WrappedCallback \<Rightarrow> ptr \<Rightarrow> 'g \<Rightarrow> (exn + Error) \<times> 'g) \<Rightarrow> ptr \<Rightarrow> SubscriptionManager \<Rightarrow> 'c \<Rightarrow> string \<Rightarrow> 'n \<Rightarrow>
     'n HelperImpl \<Rightarrow> 'g \<Rightarrow> (exn + u64 Result) \<times> 'n HelperImpl \<times> 'g" where
  "SubscriptionManager_subscribe subscribe addr m onChanged eventName notification h g =
     HelperImpl_subscribe subscribe addr (sm_owner m) eventName notification onChanged h g"

definition SubscriptionManager_unsubscribe ::
    "(string \<Rightarrow> ptr \<Rightarrow> 'g \<Rightarrow> (exn + Error) \<times> 'g) \<Rightarrow> u64 \<Rightarrow> 'n HelperImpl \<Rightarrow> 'g \<Rightarrow>
     (exn + ResultVoid) \<times> 'n HelperImpl \<times> 'g" where
  "SubscriptionManager_unsubscribe unsubscribe i h g = HelperImpl_unsubscribe unsubscribe i h g"

definition SubscriptionManager_unsubscribeAll ::
    "(string \<Rightarrow> ptr \<Rightarrow> 'g \<Rightarrow> (exn + Error) \<times> 'g) \<Rightarrow> SubscriptionManager \<Rightarrow> 'n HelperImpl \<Rightarrow> 'g \<Rightarrow>
     exn option \<times> 'n HelperImpl \<times> 'g" where
  "SubscriptionManager_unsubscribeAll unsubscribe m h g = HelperImpl_unsubscribeAll unsubscribe (sm_owner m) h g"

text \<open>The destructor is \<open>noexcept\<close>: an exception that reaches it (\<open>Some\<close>) ends the process.\<close>

definition SubscriptionManager_destroy ::
    "(string \<Rightarrow> ptr \<Rightarrow> 'g \<Rightarrow> (exn + Error) \<times> 'g) \<Rightarrow> SubscriptionManager \<Rightarrow> 'n HelperImpl \<Rightarrow> 'g \<Rightarrow>
     exn option \<times> 'n HelperImpl \<times> 'g" where
  "SubscriptionManager_destroy unsubscribe m h g = SubscriptionManager_unsubscribeAll unsubscribe m h g"

section \<open>What its destructor does\<close>

abbreviation managed_by :: "SubscriptionManager \<Rightarrow> u64 \<times> 'n SharedData \<Rightarrow> bool" where
  "managed_by m it \<equiv> sd_owner (sp_data (snd it)) = sm_owner m"

lemma destroy_exact:
  assumes "helper_system J h g"
    and "SubscriptionManager_destroy (IGateway_unsubscribe J W) m h (g, script) = (None, h', (g', script'))"
  shows "hp_subscriptions h' = filter (\<lambda>it. \<not> managed_by m it) (hp_subscriptions h)"
    and "hp_next_block h' = hp_next_block h"
    and "sv_eventList (gw_server g') = filter (\<lambda>e. \<not> (\<exists>it \<in> set (hp_subscriptions h). managed_by m it
        \<and> is_subscriber (sd_eventName (sp_data (snd it))) (sp_addr (snd it)) e)) (sv_eventList (gw_server g))"
proof -
  have d: "HelperImpl_unsubscribeAll (IGateway_unsubscribe J W) (sm_owner m) h (g, script) = (None, h', (g', script'))"
    using assms(2) by (simp add: SubscriptionManager_destroy_def SubscriptionManager_unsubscribeAll_def)
  have "server_inv (gw_server (fst (g, script)))"
    using helper_system_inv [OF assms(1)] by simp
  from unsubscribeAll_exact [OF this d] d
  show "hp_subscriptions h' = filter (\<lambda>it. \<not> managed_by m it) (hp_subscriptions h)"
    and "hp_next_block h' = hp_next_block h"
    and "sv_eventList (gw_server g') = filter (\<lambda>e. \<not> (\<exists>it \<in> set (hp_subscriptions h). managed_by m it
        \<and> is_subscriber (sd_eventName (sp_data (snd it))) (sp_addr (snd it)) e)) (sv_eventList (gw_server g))"
    by (auto simp: HelperImpl_unsubscribeAll_def Let_def split: prod.splits)
qed

text \<open>
  C16. The destructor of a manager, when no unsubscription of it throws (\<open>throwing_subscribe_dooms_manager\<close>
  shows one that does), takes away exactly what is its own: the other managers' subscriptions and
  listeners stay (live subscriptions have distinct addresses) and none of its own listeners stays
  registered. From then on no notification, not even one that was queued before, reaches a callback
  of its subscriptions, whatever the helper does next, but for the one call that the notification
  worker may still make if it had already locked the subscription's data when the destructor
  returned.
\<close>

theorem manager_destroy_is_exact:
  assumes "helper_system J h g" and "inj_on (\<lambda>it. sp_addr (snd it)) (set (hp_subscriptions h))"
    and "SubscriptionManager_destroy (IGateway_unsubscribe J W) m h (g, script) = (None, h', (g', script'))"
    and "notified_ok s" and "nt_helper s = h"
    and "(notified_step subscribe unsubscribe callback)\<^sup>*\<^sup>* (s\<lparr>nt_helper := h', nt_gateway := (g', script')\<rparr>) s'"
    and "it \<in> set (hp_subscriptions h)" and "e \<in> set (sv_eventList (gw_server g))" and "owns it e"
  shows "if managed_by m it
     then it \<notin> set (hp_subscriptions h') \<and> e \<notin> set (sv_eventList (gw_server g'))
        \<and> (\<exists>new. nt_called s' = nt_called s @ new
             \<and> count_list new (wc_wpData (ev_lambda e)) \<le> (if about_to_call (wc_wpData (ev_lambda e)) s then 1 else 0))
     else it \<in> set (hp_subscriptions h') \<and> e \<in> set (sv_eventList (gw_server g'))"
proof -
  note x = destroy_exact [OF assms(1,3)]
  have blocks: "blocks_ok h"
    using helper_system_inv [OF assms(1)] by simp
  have blocks': "blocks_ok h'"
    using blocks x(1,2) by (auto simp: blocks_ok_def om_wf_filter)
  show ?thesis
  proof (cases "managed_by m it")
    case True
    let ?s1 = "s\<lparr>nt_helper := h', nt_gateway := (g', script')\<rparr>" and ?b = "wc_wpData (ev_lambda e)"
    have b: "?b = sp_block (snd it)" using assms(9) by (simp add: owns_def)
    have "expired ?b h'"
      using blocks assms(7) True x(1,2) unfolding b by (fastforce simp: expired_def blocks_ok_def)
    then have "expired ?b (nt_helper ?s1)" "notified_ok ?s1"
      using assms(4,5) blocks' x(2) by (simp_all add: notified_ok_def)
    from expired_calls [OF assms(6) this(2,1)]
    have "\<exists>new. nt_called s' = nt_called s @ new \<and> count_list new ?b \<le> (if about_to_call ?b s then 1 else 0)"
      by (simp add: about_to_call_def)
    moreover have "it \<notin> set (hp_subscriptions h')"
      using True by (simp add: x(1))
    moreover have "e \<notin> set (sv_eventList (gw_server g'))"
      using True assms(7,9) unfolding x(3) owns_def by auto
    ultimately show ?thesis
      using True by simp
  next
    case False
    have "\<not> is_subscriber (sd_eventName (sp_data (snd it'))) (sp_addr (snd it')) e"
      if "it' \<in> set (hp_subscriptions h)" "managed_by m it'" for it'
    proof
      assume "is_subscriber (sd_eventName (sp_data (snd it'))) (sp_addr (snd it')) e"
      then have "sp_addr (snd it') = sp_addr (snd it)"
        using assms(9) by (simp add: owns_def is_subscriber_def)
      from inj_onD [OF assms(2) this that(1) assms(7)] show False
        using that(2) False by simp
    qed
    then have "e \<in> set (sv_eventList (gw_server g'))"
      using assms(8) unfolding x(3) by auto
    then show ?thesis
      using False assms(7) by (simp add: x(1))
  qed
qed

theorem manager_destroy_is_exact_witness:
  "\<exists>e. sv_eventList (gw_server (fst ex_world_subscribed)) = [e]
     \<and> e \<notin> set (sv_eventList (gw_server (fst (snd (snd
          (SubscriptionManager_destroy (IGateway_unsubscribe ex_json ex_ws) (SubscriptionManager_init 100) ex_helper ex_world_subscribed))))))
     \<and> about_to_call (wc_wpData (ev_lambda e)) ex_notified"
proof -
  let ?d = "SubscriptionManager_destroy (IGateway_unsubscribe ex_json ex_ws) (SubscriptionManager_init 100) ex_helper
    (fst ex_world_subscribed, snd ex_world_subscribed)"
  let ?e = "\<lparr>ev_name = ''tts.stop'', ev_lambda = \<lparr>wc_wpData = 0, wc_callback = 2, wc_eventName = ''tts.stop''\<rparr>, ev_usercb = 64\<rparr>"
  have l: "sv_eventList (gw_server (fst ex_world_subscribed)) = [?e]" and "fst ?d = None" by code_simp+
  then have d: "?d = (None, fst (snd ?d), (fst (snd (snd ?d)), snd (snd (snd ?d))))" by (metis prod.collapse)
  let ?it = "hd (hp_subscriptions ex_helper)"
  have it: "inj_on (\<lambda>it. sp_addr (snd it)) (set (hp_subscriptions ex_helper))" "?it \<in> set (hp_subscriptions ex_helper)"
      "owns ?it ?e" "managed_by (SubscriptionManager_init 100) ?it"
    by (simp_all add: ex_helper_eq owns_def is_subscriber_def SubscriptionManager_init_def)
  have nh: "nt_helper ex_notified = ex_helper" by (simp add: ex_notified_def)
  have "?e \<notin> set (sv_eventList (gw_server (fst (snd (snd ?d)))))"
    using manager_destroy_is_exact [OF ex_helper_system it(1) d ex_notified_ok(1) nh rtranclp.rtrancl_refl it(2) _ it(3)] it(4) l by auto
  then show ?thesis
    using l ex_notified_ok(2) by simp
qed

section \<open>A subscription that throws\<close>

lemma loop_throws:
  assumes "it \<in> set its" and "P (snd it)"
    and "\<And>it. it \<in> set its \<Longrightarrow> P (snd it) \<Longrightarrow> fst (unsubscribe (sd_eventName (sp_data (snd it))) (sp_addr (snd it)) g) = Inl e"
  shows "fst (unsubscribe_loop unsubscribe P its g) = Some e"
  using assms
proof (induction its)
  case (Cons x its)
  show ?case
  proof (cases "P (snd x)")
    case True
    then show ?thesis
      using Cons.prems(3) [of x] by (auto split: prod.splits sum.splits)
  next
    case False
    then have "fst (unsubscribe_loop unsubscribe P its g) = Some e"
      using Cons.prems by (intro Cons.IH) auto
    then show ?thesis
      using False by (simp add: case_prod_beta Let_def)
  qed
qed simp

lemma request_throws:
  assumes "tr_status (gw_transport g) = Connected" and "\<And>i. js_dump J (rpc_message J m p i) = Inl e"
  shows "fst (Gateway_request J W m p idOpt now g) = Inl e"
    and "tr_status (gw_transport (snd (Gateway_request J W m p idOpt now g))) = Connected"
  using assms
  by (auto simp: Gateway_request_def Client_request_def Transport_getNextMessageID_def Transport_send_def Let_def case_prod_beta
      split: option.splits)

lemma om_update_in: "(k, v) \<in> set (om_update k v m)"
  by (induction m) auto

lemma subscribe_throws_eq:
  assumes "server_inv (gw_server g)" and "tr_status (gw_transport g) = Connected"
    and "\<not> Server_isAnySubscriber event (gw_server g)" and "\<not> subscribed event u (sv_eventList (gw_server g))"
    and "\<And>b i. js_dump J (rpc_message J event (listen_params J b) i) = Inl e"
  shows "\<exists>g'. Gateway_subscribe J W event k u now evs g = (Inl e, [], g') \<and> tr_status (gw_transport g') = Connected
    \<and> gw_server g' = snd (Server_subscribe event k u (gw_server g))"
proof -
  obtain i g1 where r: "subscribe_ready event k u g = (i, g1)" by fastforce
  then have g1: "tr_status (gw_transport g1) = Connected" "gw_server g1 = snd (Server_subscribe event k u (gw_server g))"
    using assms(2) by (auto simp: subscribe_ready_def Transport_getNextMessageID_def Let_def split: if_splits)
  let ?q = "Gateway_request J W event (listen_params J True) (Some i) now g1"
  have "fst ?q = Inl e" "tr_status (gw_transport (snd ?q)) = Connected" "gw_server (snd ?q) = gw_server g1"
    using request_throws [OF g1(1) assms(5)] request_frame(1) by auto
  then show ?thesis
    using assms(3,4) es.subscribe_result [OF assms(1), of event k u] g1(2)
    by (cases ?q) (simp add: subscribe_cases r)
qed

lemma unsubscribe_throws:
  assumes "server_inv (gw_server g)" and "tr_status (gw_transport g) = Connected"
    and "subscribed event u (sv_eventList (gw_server g))"
    and "\<not> Server_isAnySubscriber event (snd (Server_unsubscribe event u (gw_server g)))"
    and "\<And>b i. js_dump J (rpc_message J event (listen_params J b) i) = Inl e"
  shows "fst (Gateway_unsubscribe J W event u now evs g) = Inl e"
proof -
  have "tr_status (gw_transport (unsubscribe_ready event u g)) = Connected"
    using assms(2) by (simp add: unsubscribe_ready_def Let_def)
  from request_throws(1) [OF this assms(5)] show ?thesis
    using assms(3,4) es.unsubscribe_result [OF assms(1), of event u]
    by (simp add: unsubscribe_cases case_prod_beta split: sum.split)
qed

lemma unsubscribe_after_throw:
  assumes "server_inv (gw_server g)" and "tr_status (gw_transport g) = Connected"
    and "\<not> Server_isAnySubscriber event (gw_server g)" and "\<not> subscribed event u (sv_eventList (gw_server g))"
    and "\<And>b i. js_dump J (rpc_message J event (listen_params J b) i) = Inl e"
    and "tr_status (gw_transport g') = Connected" and "gw_server g' = snd (Server_subscribe event k u (gw_server g))"
  shows "fst (IGateway_unsubscribe J W event u (g', script)) = Inl e"
proof -
  have inv: "server_inv (gw_server g')" by (simp add: assms(7) server_inv_subscribe assms(1))
  have sub: "subscribed event u (sv_eventList (gw_server g'))"
    using es.subscribe_subs [OF assms(1), of event k u] assms(4) by (simp add: assms(7) subscribed_def is_subscriber_def)
  have "\<not> Server_isAnySubscriber event (snd (Server_unsubscribe event u (gw_server g')))"
    using es.subscribe_unsubscribe(2) [OF assms(1,4), of k] assms(3) by (simp add: assms(7) Server_isAnySubscriber_def)
  from unsubscribe_throws [OF inv assms(6) sub this assms(5)] show ?thesis
    by (simp add: IGateway_unsubscribe_def case_prod_beta Let_def)
qed

text \<open>
  C35. The helper's \<open>subscribe\<close> is not safe against exceptions. When the JSON library throws while the
  message is written (an event name that is not UTF-8), the exception reaches the application but the
  subscription stays behind in the helper and at the gateway, and the destructor of the manager, which
  tries to unsubscribe it with the same message, throws as well: the process is terminated.
\<close>

theorem throwing_subscribe_dooms_manager:
  assumes "server_inv (gw_server g)" and "tr_status (gw_transport g) = Connected"
    and "\<not> Server_isAnySubscriber event (gw_server g)" and "\<not> subscribed event addr (sv_eventList (gw_server g))"
    and "\<And>b i. js_dump J (rpc_message J event (listen_params J b) i) = Inl e"
    and "\<forall>it \<in> set (hp_subscriptions h). \<not> managed_by m it"
  shows "\<exists>h' w'. SubscriptionManager_subscribe (IGateway_subscribe J W) addr m onChanged event n h (g, script) = (Inl e, h', w')
    \<and> fst (SubscriptionManager_destroy (IGateway_unsubscribe J W) m h' w') = Some e"
proof -
  define sp where "sp = \<lparr>sp_addr = addr, sp_block = hp_next_block h,
    sp_data = \<lparr>sd_owner = sm_owner m, sd_eventName = event, sd_notification = n\<rparr>\<rparr>"
  define k where "k = \<lparr>wc_wpData = hp_next_block h, wc_callback = onChanged, wc_eventName = event\<rparr>"
  define h' where "h' = h\<lparr>hp_currentId := hp_currentId h + 1, hp_next_block := Suc (hp_next_block h),
    hp_subscriptions := om_update (hp_currentId h) sp (hp_subscriptions h)\<rparr>"
  obtain now evs rest where env: "next_env script = ((now, evs), rest)" using prod.exhaust by metis
  obtain g' where g': "Gateway_subscribe J W event k addr now evs g = (Inl e, [], g')" "tr_status (gw_transport g') = Connected"
    "gw_server g' = snd (Server_subscribe event k addr (gw_server g))"
    using subscribe_throws_eq [OF assms(1-5)] by blast
  have "SubscriptionManager_subscribe (IGateway_subscribe J W) addr m onChanged event n h (g, script) = (Inl e, h', (g', rest))"
    using g'(1) env by (simp add: SubscriptionManager_subscribe_def HelperImpl_subscribe_def IGateway_subscribe_def Let_def
        sp_def k_def h'_def)
  moreover have throws: "fst (IGateway_unsubscribe J W event addr (g', rest)) = Inl e"
    by (rule unsubscribe_after_throw [OF assms(1-5) g'(2,3)])
  moreover have "fst (SubscriptionManager_destroy (IGateway_unsubscribe J W) m h' (g', rest)) = Some e"
  proof -
    have entry: "(hp_currentId h, sp) \<in> set (om_update (hp_currentId h) sp (hp_subscriptions h))"
      by (rule om_update_in)
    have only: "it = (hp_currentId h, sp)" if "it \<in> set (hp_subscriptions h')" "managed_by m it" for it
      using that assms(6) set_om_update_sub [of "hp_currentId h" sp "hp_subscriptions h"] by (auto simp: h'_def)
    have "fst (unsubscribe_loop (IGateway_unsubscribe J W) (\<lambda>sp. sd_owner (sp_data sp) = sm_owner m) (hp_subscriptions h') (g', rest)) = Some e"
    proof (rule loop_throws)
      show "(hp_currentId h, sp) \<in> set (hp_subscriptions h')"
        using entry by (simp add: h'_def)
      show "sd_owner (sp_data (snd (hp_currentId h, sp))) = sm_owner m"
        by (simp add: sp_def)
      show "fst (IGateway_unsubscribe J W (sd_eventName (sp_data (snd it))) (sp_addr (snd it)) (g', rest)) = Inl e"
        if "it \<in> set (hp_subscriptions h')" "managed_by m it" for it
        unfolding only [OF that] using throws by (simp add: sp_def)
    qed
    then show ?thesis
      by (simp add: SubscriptionManager_destroy_def SubscriptionManager_unsubscribeAll_def HelperImpl_unsubscribeAll_def
          case_prod_beta Let_def)
  qed
  ultimately show ?thesis by blast
qed

theorem throwing_subscribe_dooms_manager_witness:
  "\<exists>h' w'. SubscriptionManager_subscribe (IGateway_subscribe (ex_json\<lparr>js_dump := \<lambda>_. Inl JsonTypeError\<rparr>) ex_ws) 64
        (SubscriptionManager_init 100) (2 :: nat) ''tts.stop'' (1 :: nat) HelperImpl_init ex_world = (Inl JsonTypeError, h', w')
    \<and> fst (SubscriptionManager_destroy (IGateway_unsubscribe (ex_json\<lparr>js_dump := \<lambda>_. Inl JsonTypeError\<rparr>) ex_ws)
        (SubscriptionManager_init 100) h' w') = Some JsonTypeError"
proof -
  have "sv_eventList (gw_server (fst ex_world)) = []" "tr_status (gw_transport (fst ex_world)) = Connected"
      "\<not> sv_worker (gw_server (fst ex_world))" "sv_queue (gw_server (fst ex_world)) = []" by code_simp+
  then show ?thesis
    using throwing_subscribe_dooms_manager [of "fst ex_world" "''tts.stop''" 64 "ex_json\<lparr>js_dump := \<lambda>_. Inl JsonTypeError\<rparr>"
        JsonTypeError "HelperImpl_init :: nat HelperImpl" "SubscriptionManager_init 100" ex_ws 2 1 "snd ex_world"]
    by (simp add: server_inv_def Server_isAnySubscriber_def subscribed_def HelperImpl_init_def)
qed

end
