(* ===== verification/Fb_Upstream.thy ===== *)
theory Fb_Upstream
  imports Fb_Helpers
begin

text \<open>
  What the server has been told. The gateway keeps one upstream subscription per event, however many
  listeners the event has: the first listener sends \<open>listen: true\<close>, the last to leave sends
  \<open>listen: false\<close>. Here the texts on the wire are compared with the listeners.
\<close>

section \<open>What a call puts on the wire\<close>

lemma io_wire [fb_frame, simp]: "tr_wire (snd (Transport_io W ev t)) = tr_wire t"
  by (cases ev) (auto simp: Transport_onMessage_def Transport_onOpen_def Transport_onClose_def Transport_onFail_def processQueuedMessages_pass_def Let_def
      split: option.splits sum.splits prod.splits)

lemma pass_wire [fb_frame, simp]: "tr_wire (snd (processQueuedMessages_pass t)) = tr_wire t"
  by (auto simp: processQueuedMessages_pass_def split: list.splits)

lemma event_wire [fb_frame, simp]: "tr_wire (gw_transport (snd (Gateway_event J W ev g))) = tr_wire (gw_transport g)"
  by (cases "(J, W, ev, g)" rule: Gateway_event.cases)
    (auto simp: Let_def case_prod_beta upcalls_transport deliver_transport split: pass.split)

lemma run_wire [fb_frame, simp]: "tr_wire (gw_transport (snd (Gateway_run J W evs g))) = tr_wire (gw_transport g)"
  by (induction evs arbitrary: g) (simp_all add: case_prod_beta Let_def)

lemma request_wire:
  assumes "tr_status (gw_transport g) = Connected" and "\<And>h text. ws_send W h text = 0"
    and "Gateway_request J W m p idOpt now g = (Inr pr, g')"
  shows "\<exists>i text. js_dump J (rpc_message J m p i) = Inr text \<and> tr_wire (gw_transport g') = tr_wire (gw_transport g) @ [text]"
  using assms
  by (auto simp: Gateway_request_def Client_request_def Transport_getNextMessageID_def Transport_send_def Let_def case_prod_beta
      split: option.splits sum.splits)

lemma subscribe_wire:
  assumes "tr_status (gw_transport g) = Connected" and "\<And>h text. ws_send W h text = 0" and "server_inv (gw_server g)"
    and "Gateway_subscribe J W event k u now evs g = (Inr r, outs, g')"
    and "r = Err_None \<or> subscribed event u (sv_eventList (gw_server g))"
  shows "sv_eventList (gw_server g') = (if subscribed event u (sv_eventList (gw_server g)) then sv_eventList (gw_server g)
      else sv_eventList (gw_server g) @ [\<lparr>ev_name = event, ev_lambda = k, ev_usercb = u\<rparr>])"
    and "if subscribed event u (sv_eventList (gw_server g)) \<or> Server_isAnySubscriber event (gw_server g)
      then tr_wire (gw_transport g') = tr_wire (gw_transport g)
      else \<exists>i text. js_dump J (rpc_message J event (listen_params J True) i) = Inr text
        \<and> tr_wire (gw_transport g') = tr_wire (gw_transport g) @ [text]"
proof -
  note sub = es.subscribe_result [OF assms(3), of event k u] es.subscribe_subs [OF assms(3), of event k u]
  obtain i g1 where r: "subscribe_ready event k u g = (i, g1)" by fastforce
  have g1: "tr_status (gw_transport g1) = Connected" "tr_wire (gw_transport g1) = tr_wire (gw_transport g)"
      "gw_server g1 = snd (Server_subscribe event k u (gw_server g))"
    using r assms(1) by (auto simp: subscribe_ready_def Transport_getNextMessageID_def Let_def split: if_splits)
  let ?old = "subscribed event u (sv_eventList (gw_server g)) \<or> Server_isAnySubscriber event (gw_server g)"
  have "sv_eventList (gw_server g') = (if subscribed event u (sv_eventList (gw_server g)) then sv_eventList (gw_server g)
      else sv_eventList (gw_server g) @ [\<lparr>ev_name = event, ev_lambda = k, ev_usercb = u\<rparr>])
    \<and> (if ?old then tr_wire (gw_transport g') = tr_wire (gw_transport g)
      else \<exists>i text. js_dump J (rpc_message J event (listen_params J True) i) = Inr text
        \<and> tr_wire (gw_transport g') = tr_wire (gw_transport g) @ [text])"
  proof (cases ?old)
    case True
    then show ?thesis
      using assms(4) sub by (auto simp: subscribe_cases split: if_splits)
  next
    case False
    obtain q0 g2 where q0: "Gateway_request J W event (listen_params J True) (Some i) now g1 = (q0, g2)" by fastforce
    then obtain p where q: "Gateway_request J W event (listen_params J True) (Some i) now g1 = (Inr p, g2)"
        and g': "g' = snd (Gateway_run J W evs g2)"
      using assms(4,5) sub False by (auto simp: subscribe_cases r case_prod_beta split: sum.splits if_splits)
    have "sv_eventList (gw_server g') = sv_eventList (gw_server g1)"
      using kept_run [of g2 J W evs] request_frame(1) [of J W event "listen_params J True" "Some i" now g1] q
      by (simp add: g' kept_def)
    moreover have "tr_wire (gw_transport g') = tr_wire (gw_transport g2)"
      by (simp add: g')
    ultimately show ?thesis
      using False request_wire [OF g1(1) assms(2) q] g1(2,3) sub by auto
  qed
  then show "sv_eventList (gw_server g') = (if subscribed event u (sv_eventList (gw_server g)) then sv_eventList (gw_server g)
      else sv_eventList (gw_server g) @ [\<lparr>ev_name = event, ev_lambda = k, ev_usercb = u\<rparr>])"
    and "if ?old then tr_wire (gw_transport g') = tr_wire (gw_transport g)
      else \<exists>i text. js_dump J (rpc_message J event (listen_params J True) i) = Inr text
        \<and> tr_wire (gw_transport g') = tr_wire (gw_transport g) @ [text]"
    by blast+
qed

lemma unsubscribe_wire:
  assumes "tr_status (gw_transport g) = Connected" and "\<And>h text. ws_send W h text = 0" and "server_inv (gw_server g)"
    and "Gateway_unsubscribe J W event u now evs g = (Inr r, outs, g')"
  shows "sv_eventList (gw_server g') = filter (\<lambda>e. \<not> is_subscriber event u e) (sv_eventList (gw_server g))"
    and "if \<not> subscribed event u (sv_eventList (gw_server g))
        \<or> Server_isAnySubscriber event (snd (Server_unsubscribe event u (gw_server g)))
      then tr_wire (gw_transport g') = tr_wire (gw_transport g)
      else \<exists>i text. js_dump J (rpc_message J event (listen_params J False) i) = Inr text
        \<and> tr_wire (gw_transport g') = tr_wire (gw_transport g) @ [text]"
proof -
  note sub = es.unsubscribe_result [OF assms(3), of event u] es.unsubscribe_subs [OF assms(3), of event u]
  let ?g1 = "unsubscribe_ready event u g"
  let ?none = "\<not> subscribed event u (sv_eventList (gw_server g)) \<or> Server_isAnySubscriber event (snd (Server_unsubscribe event u (gw_server g)))"
  have g1: "tr_status (gw_transport ?g1) = Connected" "tr_wire (gw_transport ?g1) = tr_wire (gw_transport g)"
      "gw_server ?g1 = snd (Server_unsubscribe event u (gw_server g))"
    using assms(1) by (auto simp: unsubscribe_ready_def Let_def)
  have "sv_eventList (gw_server g') = filter (\<lambda>e. \<not> is_subscriber event u e) (sv_eventList (gw_server g))
    \<and> (if ?none then tr_wire (gw_transport g') = tr_wire (gw_transport g)
      else \<exists>i text. js_dump J (rpc_message J event (listen_params J False) i) = Inr text
        \<and> tr_wire (gw_transport g') = tr_wire (gw_transport g) @ [text])"
  proof (cases ?none)
    case True
    then show ?thesis
      using assms(4) sub by (auto simp: unsubscribe_cases split: if_splits)
  next
    case False
    obtain q0 g2 where q0: "Gateway_request J W event (listen_params J False) None now ?g1 = (q0, g2)" by fastforce
    then obtain p where q: "Gateway_request J W event (listen_params J False) None now ?g1 = (Inr p, g2)"
        and g': "g' = snd (Gateway_run J W evs g2)"
      using assms(4) sub False by (auto simp: unsubscribe_cases case_prod_beta split: sum.splits if_splits)
    have "sv_eventList (gw_server g') = sv_eventList (gw_server ?g1)"
      using kept_run [of g2 J W evs] request_frame(1) [of J W event "listen_params J False" None now ?g1] q
      by (simp add: g' kept_def)
    moreover have "tr_wire (gw_transport g') = tr_wire (gw_transport g2)"
      by (simp add: g')
    ultimately show ?thesis
      using False request_wire [OF g1(1) assms(2) q] g1(2,3) sub by auto
  qed
  then show "sv_eventList (gw_server g') = filter (\<lambda>e. \<not> is_subscriber event u e) (sv_eventList (gw_server g))"
    and "if ?none then tr_wire (gw_transport g') = tr_wire (gw_transport g)
      else \<exists>i text. js_dump J (rpc_message J event (listen_params J False) i) = Inr text
        \<and> tr_wire (gw_transport g') = tr_wire (gw_transport g) @ [text]"
    by blast+
qed

section \<open>One upstream subscription per event\<close>




















text \<open>
  A subscribe that fails after its message was sent (refused, or no acknowledgement in time) takes the
  listener away again but does not tell the server, which goes on sending the event.
\<close>

lemma failed_subscribe_stays_upstream:
  assumes "tr_status (gw_transport g) = Connected" and "\<And>h text. ws_send W h text = 0" and "server_inv (gw_server g)"
    and "\<not> subscribed event u (sv_eventList (gw_server g))" and "\<not> Server_isAnySubscriber event (gw_server g)"
    and "Gateway_subscribe J W event k u now evs g = (Inr r, outs, g')" and "r \<noteq> Err_None"
  shows "sv_eventList (gw_server g') = sv_eventList (gw_server g)
    \<and> (\<exists>i text. js_dump J (rpc_message J event (listen_params J True) i) = Inr text
        \<and> tr_wire (gw_transport g') = tr_wire (gw_transport g) @ [text])"
proof -
  obtain i g1 where r: "subscribe_ready event k u g = (i, g1)" by fastforce
  have g1: "tr_status (gw_transport g1) = Connected" "tr_wire (gw_transport g1) = tr_wire (gw_transport g)"
    using r assms(1) by (auto simp: subscribe_ready_def Transport_getNextMessageID_def Let_def split: if_splits)
  obtain q0 g2 where q0: "Gateway_request J W event (listen_params J True) (Some i) now g1 = (q0, g2)" by fastforce
  then obtain p where q: "Gateway_request J W event (listen_params J True) (Some i) now g1 = (Inr p, g2)"
      and g': "g' = subscribe_undo event u i (snd (Gateway_run J W evs g2))"
    using assms(4-7) es.subscribe_result [OF assms(3), of event k u]
    by (auto simp: subscribe_cases r case_prod_beta split: sum.splits if_splits)
  have "tr_wire (gw_transport g') = tr_wire (gw_transport g2)"
    by (simp add: g' subscribe_undo_def Let_def)
  then have "\<exists>i text. js_dump J (rpc_message J event (listen_params J True) i) = Inr text
      \<and> tr_wire (gw_transport g') = tr_wire (gw_transport g) @ [text]"
    using request_wire [OF g1(1) assms(2) q] g1(2) by simp
  moreover have "sv_eventList (gw_server g') = sv_eventList (gw_server g)"
    using ig.subscribe_subs [of "(g, [(now, evs)])" J W event k u r "(g', [])"] assms(3,6,7) by (simp add: IGateway_subscribe_def)
  ultimately show ?thesis by blast
qed

section \<open>Event names that are looked up under another name\<close>

lemma subscriber_key_dot:
  assumes "CHR ''.'' \<notin> set m"
  shows "subscriber_key (m @ CHR ''.'' # rest) = map tolower m @ CHR ''.'' # rest"
proof -
  have "find_idx (\<lambda>x. x = CHR ''.'') m = None" using assms by (auto simp: find_idx_None)
  then have "str_find_char CHR ''.'' (m @ CHR ''.'' # rest) 0 = Some (length m)"
    by (simp add: str_find_char_def find_idx_append)
  then show ?thesis by (simp add: subscriber_key_def)
qed

lemma map_tolower_same: "map tolower m = m \<longleftrightarrow> (\<forall>c \<in> set m. tolower c = c)"
  by (induction m) auto

lemma capital_other_name:
  assumes "CHR ''.'' \<notin> set m" and "\<exists>c \<in> set m. tolower c \<noteq> c" and "event = m @ CHR ''.'' # rest"
  shows "subscriber_key event \<noteq> event"
  using assms map_tolower_same[of m] by (auto simp: subscriber_key_dot)

text \<open>Two listeners of an event whose module name starts with a capital letter.\<close>

definition ex_capital :: "(nat, jval) Gateway" where
  "ex_capital = snd (snd (Gateway_subscribe ex_json ex_ws ''Device.onName'' 4 9 5 [EvIo (IoMessage True ''ack2'') 6, EvMessage]
     (snd (snd (Gateway_subscribe ex_json ex_ws ''Device.onName'' 3 8 2 [EvIo (IoMessage True ''ack1'') 3, EvMessage] ex_gateway)))))"

lemma ex_capital_reachable: "gateway_reachable ex_json ex_capital"
proof -
  have ids: "ids_left (gw_transport ex_gateway)"
    "ids_left (gw_transport (snd (snd (Gateway_subscribe ex_json ex_ws ''Device.onName'' 3 8 2 [EvIo (IoMessage True ''ack1'') 3, EvMessage] ex_gateway))))"
    by code_simp+
  show ?thesis
    unfolding ex_capital_def
    by (rule gr_step[OF gr_step[OF ex_gateway_reachable gs_subscribe[OF ids(1)]] gs_subscribe[OF ids(2)]])
qed

text \<open>
  C39. \<open>isAnySubscriber\<close> lower-cases the module part of an event name, \<open>subscribe\<close> stores the name as
  given. So for every event with a capital letter in its module part (and no listener under the
  lower-case name), on an open connection whose sends are accepted: each further listener that
  is subscribed asks the server again with \<open>listen: true\<close>, and each listener that leaves sends it
  \<open>listen: false\<close>, although another listener of the event is still registered.
\<close>

theorem capital_module_unsubscribes_others:
  assumes "event = m @ CHR ''.'' # rest" and "CHR ''.'' \<notin> set m" and "\<exists>c \<in> set m. tolower c \<noteq> c"
    and "\<forall>e \<in> set (sv_eventList (gw_server g)). ev_name e \<noteq> map tolower m @ CHR ''.'' # rest"
    and "gateway_reachable J g" and "tr_status (gw_transport g) = Connected" and "\<And>h text. ws_send W h text = 0"
    and "subscribed event u (sv_eventList (gw_server g))" and "subscribed event u' (sv_eventList (gw_server g))" and "u' \<noteq> u"
  shows "(Gateway_unsubscribe J W event u now evs g = (Inr r, outs, g') \<longrightarrow>
      subscribed event u' (sv_eventList (gw_server g'))
      \<and> (\<exists>i text. js_dump J (rpc_message J event (listen_params J False) i) = Inr text
          \<and> tr_wire (gw_transport g') = tr_wire (gw_transport g) @ [text]))
    \<and> (Gateway_subscribe J W event k u'' now evs g = (Inr Err_None, outs', g'') \<longrightarrow>
      (\<exists>i text. js_dump J (rpc_message J event (listen_params J True) i) = Inr text
          \<and> tr_wire (gw_transport g'') = tr_wire (gw_transport g) @ [text]))"
proof -
  have inv: "server_inv (gw_server g)" using gateway_reachable_inv[OF assms(5)] by (simp add: gateway_inv_def)
  have key: "subscriber_key event = map tolower m @ CHR ''.'' # rest" unfolding assms(1) by (rule subscriber_key_dot[OF assms(2)])
  have any: "\<not> Server_isAnySubscriber event (gw_server g)" using assms(4) by (simp add: Server_isAnySubscriber_def key list_ex_iff)
  have "\<not> Server_isAnySubscriber event (snd (Server_unsubscribe event u (gw_server g)))"
    using assms(4) es.unsubscribe_subs[OF inv, of event u] by (simp add: Server_isAnySubscriber_def key list_ex_iff)
  then have "subscribed event u' (sv_eventList (gw_server g'))
      \<and> (\<exists>i text. js_dump J (rpc_message J event (listen_params J False) i) = Inr text
          \<and> tr_wire (gw_transport g') = tr_wire (gw_transport g) @ [text])"
    if "Gateway_unsubscribe J W event u now evs g = (Inr r, outs, g')"
    using unsubscribe_wire[OF assms(6,7) inv that] assms(8-10) by (auto simp: subscribed_def is_subscriber_def)
  moreover have "\<exists>i text. js_dump J (rpc_message J event (listen_params J True) i) = Inr text
          \<and> tr_wire (gw_transport g'') = tr_wire (gw_transport g) @ [text]"
    if s: "Gateway_subscribe J W event k u'' now evs g = (Inr Err_None, outs', g'')"
  proof -
    have "\<not> subscribed event u'' (sv_eventList (gw_server g))"
      using s es.subscribe_result[OF inv, of event k u''] by (auto simp: subscribe_cases split: if_splits)
    then show ?thesis using subscribe_wire(2)[OF assms(6,7) inv s] any by simp
  qed
  ultimately show ?thesis by blast
qed

theorem capital_module_unsubscribes_others_witness:
  "\<exists>r outs g' text. Gateway_unsubscribe ex_json ex_ws ''Device.onName'' 8 7 [] ex_capital = (Inr r, outs, g')
     \<and> subscribed ''Device.onName'' 9 (sv_eventList (gw_server g'))
     \<and> tr_wire (gw_transport g') = tr_wire (gw_transport ex_capital) @ [text]"
proof -
  let ?e = "''Device.onName''"
  have s: "subscribed e u es \<longleftrightarrow> find_idx (is_subscriber e u) es \<noteq> None" for e u and es :: "nat CallbackDataEvent list"
    by (simp add: find_subscribed)
  have f: "?e = ''Device'' @ CHR ''.'' # ''onName''" "CHR ''.'' \<notin> set ''Device''" "\<exists>c \<in> set ''Device''. tolower c \<noteq> c"
      "\<forall>e \<in> set (sv_eventList (gw_server ex_capital)). ev_name e \<noteq> map tolower ''Device'' @ CHR ''.'' # ''onName''" by code_simp+
  have c: "tr_status (gw_transport ex_capital) = Connected" by code_simp
  have l: "subscribed ?e 8 (sv_eventList (gw_server ex_capital))" "subscribed ?e 9 (sv_eventList (gw_server ex_capital))"
    unfolding s by code_simp+
  have w: "ws_send ex_ws h wire = 0" for h wire by (simp add: ex_ws_def)
  have "fst (Gateway_unsubscribe ex_json ex_ws ?e 8 7 [] ex_capital) = Inr Err_None" by code_simp
  then obtain r outs g' where u: "Gateway_unsubscribe ex_json ex_ws ?e 8 7 [] ex_capital = (Inr r, outs, g')"
    by (metis prod.collapse)
  show ?thesis
    using capital_module_unsubscribes_others [OF f ex_capital_reachable c w l, of 7 "[]" r outs g' 0 0 "[]" undefined] u by auto
qed

end
