(* ===== verification/Fb_Singletons.thy ===== *)
theory Fb_Singletons
  imports Fb_Helper_System
begin

text \<open>
  The two singletons of the process. \<open>GetGatewayInstance\<close> and \<open>GetHelperInstance\<close> keep function-local
  statics: each is constructed by the first call, its destructor is registered when the constructor
  returns, and \<open>exit\<close> runs the registered destructors, the last registered first.
\<close>

section \<open>Construction\<close>

datatype static = StaticGateway | StaticHelper

record ('n, 'c, 'j) process =
  pr_gateway :: "('c WrappedCallback, 'j) Gateway option"
  pr_helper :: "'n HelperImpl option"
  pr_atexit :: "static list" \<comment> \<open>the last registered first\<close>
  pr_gone :: "('c WrappedCallback, 'j) Gateway option" \<comment> \<open>what the gateway's destructor left\<close>

definition process_init :: "('n, 'c, 'j) process" where
  "process_init = \<lparr>pr_gateway = None, pr_helper = None, pr_atexit = [], pr_gone = None\<rparr>"

definition GetGatewayInstance :: "('n, 'c, 'j) process \<Rightarrow> ('n, 'c, 'j) process" where
  "GetGatewayInstance p =
     (case pr_gateway p of
        None \<Rightarrow> p\<lparr>pr_gateway := Some Gateway_init, pr_atexit := StaticGateway # pr_atexit p\<rparr>
      | Some _ \<Rightarrow> p)"

definition GetHelperInstance :: "('n, 'c, 'j) process \<Rightarrow> ('n, 'c, 'j) process" where
  "GetHelperInstance p =
     (case pr_helper p of
        None \<Rightarrow> (let p = GetGatewayInstance p
                 in p\<lparr>pr_helper := Some HelperImpl_init, pr_atexit := StaticHelper # pr_atexit p\<rparr>)
      | Some _ \<Rightarrow> p)"

section \<open>Exit\<close>

text \<open>
  What can be seen of it: calls of the application, calls on members of the gateway that are gone, an
  exception out of the helper's destructor (which ends the process), a call on the gateway when it is
  gone.
\<close>

datatype ('k, 'j) exit_out = ExitCall "('k, 'j) app_call" | DeadMember upcall | HelperThrew exn | DeadGateway

fun run_atexit ::
    "'j json_api \<Rightarrow> ws_api \<Rightarrow> (timestamp \<times> gw_event list) list \<Rightarrow> io_event list \<Rightarrow> timestamp \<Rightarrow> io_event list \<Rightarrow>
     static list \<Rightarrow> ('n, 'c, 'j) process \<Rightarrow> ('c WrappedCallback, 'j) exit_out list \<times> ('n, 'c, 'j) process" where
  "run_atexit J W script evs now evs' [] p = ([], p)"
| "run_atexit J W script evs now evs' (StaticHelper # ds) p =
     (case (pr_helper p, pr_gateway p) of
        (None, _) \<Rightarrow> run_atexit J W script evs now evs' ds p
      | (Some h, None) \<Rightarrow> ([DeadGateway], p)
      | (Some h, Some g) \<Rightarrow>
          (case HelperImpl_destroy (IGateway_unsubscribe J W) h (g, script) of
             (Some e, h, w) \<Rightarrow> ([HelperThrew e], p\<lparr>pr_helper := Some h, pr_gateway := Some (fst w)\<rparr>)
           | (None, h, w) \<Rightarrow>
               run_atexit J W (snd w) evs now evs' ds (p\<lparr>pr_helper := None, pr_gateway := Some (fst w)\<rparr>)))"
| "run_atexit J W script evs now evs' (StaticGateway # ds) p =
     (case pr_gateway p of
        None \<Rightarrow> run_atexit J W script evs now evs' ds p
      | Some g \<Rightarrow>
          (let (outs, us, g) = Gateway_destroy J W evs now evs' g;
               (outs', p) = run_atexit J W script evs now evs' ds (p\<lparr>pr_gateway := None, pr_gone := Some g\<rparr>)
           in (map ExitCall outs @ map DeadMember us @ outs', p)))"

definition process_exit ::
    "'j json_api \<Rightarrow> ws_api \<Rightarrow> (timestamp \<times> gw_event list) list \<Rightarrow> io_event list \<Rightarrow> timestamp \<Rightarrow> io_event list \<Rightarrow>
     ('n, 'c, 'j) process \<Rightarrow> ('c WrappedCallback, 'j) exit_out list \<times> ('n, 'c, 'j) process" where
  "process_exit J W script evs now evs' p = run_atexit J W script evs now evs' (pr_atexit p) p"

section \<open>Reachable processes\<close>

text \<open>\<open>n\<close> more ids can be handed out before the counter wraps.\<close>

definition ids_for :: "nat \<Rightarrow> ('k, 'j) Gateway \<Rightarrow> bool" where
  "ids_for n g \<longleftrightarrow> unat (tr_id_counter (gw_transport g)) + n < 2 ^ 32"

text \<open>
  The instances are fetched in any order; the gateway is used directly for connections and requests,
  subscriptions go through the helper.
\<close>

inductive process_run :: "'j json_api \<Rightarrow> ('n, 'c, 'j) process \<Rightarrow> bool" for J where
  ps_start: "process_run J process_init"
| ps_gateway: "process_run J p \<Longrightarrow> process_run J (GetGatewayInstance p)"
| ps_helper: "process_run J p \<Longrightarrow> process_run J (GetHelperInstance p)"
| ps_connect: "process_run J p \<Longrightarrow> pr_gateway p = Some g \<Longrightarrow>
    process_run J (p\<lparr>pr_gateway := Some (snd (snd (Gateway_connect J W getenv cfg k evs g)))\<rparr>)"
| ps_disconnect: "process_run J p \<Longrightarrow> pr_gateway p = Some g \<Longrightarrow>
    process_run J (p\<lparr>pr_gateway := Some (snd (snd (Gateway_disconnect J W ios now g)))\<rparr>)"
| ps_request: "process_run J p \<Longrightarrow> pr_gateway p = Some g \<Longrightarrow> ids_for 1 g \<Longrightarrow>
    process_run J (p\<lparr>pr_gateway := Some (snd (Gateway_request J W m params None now g))\<rparr>)"
| ps_event: "process_run J p \<Longrightarrow> pr_gateway p = Some g \<Longrightarrow>
    process_run J (p\<lparr>pr_gateway := Some (snd (Gateway_event J W ev g))\<rparr>)"
| ps_call: "process_run J p \<Longrightarrow> pr_gateway p = Some g \<Longrightarrow> pr_helper p = Some h \<Longrightarrow>
    hp_currentId h \<notin> fst ` set (hp_subscriptions h) \<Longrightarrow> ids_for (Suc (length (hp_subscriptions h))) g \<Longrightarrow>
    helper_step (IGateway_subscribe J W) (IGateway_unsubscribe J W) (h, (g, script)) (h', (g', script')) \<Longrightarrow>
    process_run J (p\<lparr>pr_helper := Some h', pr_gateway := Some g'\<rparr>)"

lemma ids_for_left: "ids_for (Suc n) g \<Longrightarrow> ids_left (gw_transport g)"
  unfolding ids_for_def ids_left_def by (auto simp: unsigned_minus_1_eq_mask mask_eq_exp_minus_1)

lemma event_id_counter [simp]: "tr_id_counter (gw_transport (snd (Gateway_event J W ev g))) = tr_id_counter (gw_transport g)"
  by (cases "(J, W, ev, g)" rule: Gateway_event.cases)
    (auto simp: Let_def case_prod_beta upcalls_transport deliver_transport split: pass.split)

lemma run_id_counter [simp]: "tr_id_counter (gw_transport (snd (Gateway_run J W evs g))) = tr_id_counter (gw_transport g)"
  by (induction evs arbitrary: g) (simp_all add: case_prod_beta Let_def)

lemma request_id_counter:
  "tr_id_counter (gw_transport (snd (Gateway_request J W m p None now g))) = tr_id_counter (gw_transport g) + 1"
  by (auto simp: Gateway_request_def request_none_eq Transport_getNextMessageID_def Client_request_def Let_def case_prod_beta
      split: sum.split option.split)

lemma unsubscribe_id_counter:
  "tr_id_counter (gw_transport (snd (snd (Gateway_unsubscribe J W event u now evs g))))
     \<in> {tr_id_counter (gw_transport g), tr_id_counter (gw_transport g) + 1}"
proof -
  let ?r = "Gateway_request J W event (listen_params J False) None now (unsubscribe_ready event u g)"
  have "gw_transport (unsubscribe_ready event u g) = gw_transport g"
    by (simp add: unsubscribe_ready_def Let_def)
  then have "tr_id_counter (gw_transport (snd ?r)) = tr_id_counter (gw_transport g) + 1"
    by (simp add: request_id_counter)
  then show ?thesis
    by (auto simp: unsubscribe_cases case_prod_beta split: sum.split) 
qed

lemma ids_for_next: "ids_for (Suc n) g \<Longrightarrow>
    tr_id_counter (gw_transport g') \<in> {tr_id_counter (gw_transport g), tr_id_counter (gw_transport g) + 1} \<Longrightarrow> ids_for n g'"
  unfolding ids_for_def by (auto simp: unat_word_ariths intro: le_less_trans [OF add_right_mono [OF mod_less_eq_dividend]])

lemma unsubscribe_reachable:
  assumes "gateway_reachable J (fst w)" and "ids_for (Suc n) (fst w)"
  shows "gateway_reachable J (fst (snd (IGateway_unsubscribe J W event u w))) \<and> ids_for n (fst (snd (IGateway_unsubscribe J W event u w)))"
  using gr_step [OF assms(1) gs_unsubscribe [OF ids_for_left [OF assms(2)]]] ids_for_next [OF assms(2) unsubscribe_id_counter]
  by (simp add: IGateway_unsubscribe_def case_prod_beta Let_def)

lemma loop_reachable:
  assumes "gateway_reachable J (fst w)" and "ids_for (length its) (fst w)"
    and "unsubscribe_loop (IGateway_unsubscribe J W) P its w = (threw, rest, w')"
  shows "gateway_reachable J (fst w')"
  using assms
proof (induction its arbitrary: w rest)
  case (Cons it its)
  let ?u = "IGateway_unsubscribe J W (sd_eventName (sp_data (snd it))) (sp_addr (snd it)) w"
  have u: "gateway_reachable J (fst (snd ?u))" "ids_for (length its) (fst (snd ?u))"
    using unsubscribe_reachable [OF Cons.prems(1), of "length its"] Cons.prems(2) by auto
  have w: "ids_for (length its) (fst w)"
    using Cons.prems(2) by (simp add: ids_for_def)
  show ?case
    using Cons.prems(3) Cons.IH [OF u] Cons.IH [OF Cons.prems(1) w] u(1)
    by (cases ?u) (auto split: if_splits sum.splits prod.splits)
qed simp

lemma helper_call_reachable:
  assumes "helper_step (IGateway_subscribe J W) (IGateway_unsubscribe J W) (h, (g, script)) (h', (g', script'))"
    and "gateway_reachable J g" and "ids_for (Suc (length (hp_subscriptions h))) g"
  shows "gateway_reachable J g'"
  using assms(1)
proof cases
  case (hs_subscribe addr owner event n c r)
  have "gateway_reachable J (fst (snd (IGateway_subscribe J W event k u (g, script))))" for k u
    using gr_step [OF assms(2) gs_subscribe [OF ids_for_left [OF assms(3)]]]
    by (simp add: IGateway_subscribe_def case_prod_beta Let_def)
  moreover have "(g', script') = snd (IGateway_subscribe J W event
      \<lparr>wc_wpData = hp_next_block h, wc_callback = c, wc_eventName = event\<rparr> addr (g, script))"
    using hs_subscribe by (auto simp: HelperImpl_subscribe_def Let_def split: prod.splits sum.splits if_splits)
  ultimately show ?thesis
    by (metis fst_conv)
next
  case (hs_unsubscribe i r)
  have "gateway_reachable J (fst (snd (IGateway_unsubscribe J W event u (g, script))))" for event u
    using unsubscribe_reachable [of J "(g, script)"] assms(2,3) by simp
  moreover have "(g', script') = (case om_lookup (hp_subscriptions h) i of None \<Rightarrow> (g, script)
      | Some sp \<Rightarrow> snd (IGateway_unsubscribe J W (sd_eventName (sp_data sp)) (sp_addr sp) (g, script)))"
    using hs_unsubscribe by (auto simp: HelperImpl_unsubscribe_def split: prod.splits sum.splits option.splits)
  ultimately show ?thesis
    using assms(2) by (cases "om_lookup (hp_subscriptions h) i") (simp, metis fst_conv option.simps(5))
next
  case (hs_unsubscribeAll owner r)
  then obtain rest where "unsubscribe_loop (IGateway_unsubscribe J W) (\<lambda>sp. sd_owner (sp_data sp) = owner) (hp_subscriptions h) (g, script)
      = (r, rest, (g', script'))"
    by (auto simp: HelperImpl_unsubscribeAll_def Let_def split: prod.splits)
  then show ?thesis
    using loop_reachable [of J "(g, script)"] assms(2,3) by (force simp: ids_for_def)
qed

text \<open>Which instances exist determines what is registered; they are in reachable states.\<close>

definition process_ok :: "'j json_api \<Rightarrow> ('n, 'c, 'j) process \<Rightarrow> bool" where
  "process_ok J p \<longleftrightarrow>
     (case (pr_helper p, pr_gateway p) of
        (None, None) \<Rightarrow> pr_atexit p = []
      | (None, Some g) \<Rightarrow> pr_atexit p = [StaticGateway] \<and> gateway_reachable J g \<and> helper_system J (HelperImpl_init :: 'n HelperImpl) g
      | (Some h, Some g) \<Rightarrow> pr_atexit p = [StaticHelper, StaticGateway] \<and> gateway_reachable J g \<and> helper_system J h g
      | (Some h, None) \<Rightarrow> False)"

lemma GetGatewayInstance_ok: "process_ok J p \<Longrightarrow> process_ok J (GetGatewayInstance p)"
  by (auto simp: process_ok_def GetGatewayInstance_def intro: gr_start hy_start split: option.splits)

lemma GetHelperInstance_ok: "process_ok J p \<Longrightarrow> process_ok J (GetHelperInstance p)"
  by (auto simp: process_ok_def GetHelperInstance_def GetGatewayInstance_def Let_def intro: gr_start hy_start split: option.splits)

lemma gateway_use_ok:
  fixes p :: "('n, 'c, 'j) process"
  assumes "process_ok J p" and "pr_gateway p = Some g" and "gateway_step J g g'"
    and "\<And>h :: 'n HelperImpl. helper_system J h g \<Longrightarrow> helper_system J h g'"
  shows "process_ok J (p\<lparr>pr_gateway := Some g'\<rparr>)"
  using assms by (auto simp: process_ok_def intro: gr_step split: option.splits)

lemma process_run_ok: "process_run J p \<Longrightarrow> process_ok J p"
proof (induction rule: process_run.induct)
  case ps_start
  show ?case by (simp add: process_ok_def process_init_def)
next
  case (ps_connect p g W getenv cfg k evs)
  show ?case by (rule gateway_use_ok [OF ps_connect.IH ps_connect.hyps(2) gs_connect hy_connect])
next
  case (ps_disconnect p g W ios now)
  show ?case by (rule gateway_use_ok [OF ps_disconnect.IH ps_disconnect.hyps(2) gs_disconnect hy_disconnect])
next
  case (ps_request p g W m params now)
  from ps_request.hyps(3) have "ids_left (gw_transport g)" by (simp add: ids_for_left)
  then show ?case by (rule gateway_use_ok [OF ps_request.IH ps_request.hyps(2) gs_request hy_request])
next
  case (ps_event p g W ev)
  show ?case by (rule gateway_use_ok [OF ps_event.IH ps_event.hyps(2) gs_event hy_event])
next
  case (ps_call p g h W script h' g' script')
  then have "gateway_reachable J g" "helper_system J h g" "pr_atexit p = [StaticHelper, StaticGateway]"
    by (auto simp: process_ok_def)
  then show ?case
    using hy_helper [OF _ ps_call.hyps(4,6)] helper_call_reachable [OF ps_call.hyps(6) _ ps_call.hyps(5)]
    by (simp add: process_ok_def)
qed (auto intro: GetGatewayInstance_ok GetHelperInstance_ok)

section \<open>An orderly exit\<close>

lemma transport_destroy_ends:
  assumes "close_documented W (tr_connectionHandle t)" and "transport_inv t"
  shows "\<exists>us t'. Transport_destroy W evs t = (None, us, t') \<and> tr_status t' = NotStarted
    \<and> \<not> tr_connectionThread t' \<and> \<not> tr_messageWorker t'"
  using assms close_documented_ok [of W "t\<lparr>tr_perpetual := False\<rparr>"]
  by (simp add: Transport_destroy_def Transport_disconnect_def stopMessageWorker_eq case_prod_beta Let_def transport_inv_def)

lemma destroy_members_ends:
  assumes "\<not> gw_watchdogThread g" and "close_documented W (tr_connectionHandle (gw_transport g))" and "transport_inv (gw_transport g)"
  shows "\<exists>ns us g'. Gateway_destroy_members W evs g = (map RunNotification ns, us, g') \<and> all_stopped g'
    \<and> sv_eventList (gw_server g') = []"
  using assms(1) transport_destroy_ends [OF assms(2,3), of evs]
  by (auto simp: all_stopped_def Gateway_destroy_members_def Server_destroy_def stopNotificationWorker_eq Let_def case_prod_beta)

lemma runs_not_fatal [simp]: "\<not> list_ex fatal (map RunNotification ns)"
  by (induction ns) simp_all

lemma destroy_ends:
  assumes "json_throws_std J" and "gateway_reachable J g" and "\<And>h. close_documented W h"
  shows "\<exists>outs us g'. Gateway_destroy J W evs now evs' g = (outs, us, g') \<and> \<not> list_ex fatal outs
    \<and> all_stopped g' \<and> sv_eventList (gw_server g') = []
    \<and> (gw_connectionStarted g \<longrightarrow> us = [])"
proof (cases "gw_connectionStarted g")
  case True
  obtain us t ns g1 where d: "Gateway_disconnect J W evs now g =
      (Inr Err_None, fst (Gateway_upcalls J now us (g\<lparr>gw_transport := t\<rparr>)) @ map RunNotification ns, g1)"
    and t: "gateway_inv (g\<lparr>gw_transport := t\<rparr>)" and g1: "gateway_inv g1" "all_stopped g1"
    using disconnect_ends [OF gateway_reachable_inv [OF assms(2)] assms(3), of J evs now] by blast
  from g1 have w: "\<not> gw_watchdogThread g1" "transport_inv (gw_transport g1)" by (simp_all add: all_stopped_def gateway_inv_def)
  obtain ns' us' g2 where m: "Gateway_destroy_members W evs' g1 = (map RunNotification ns', us', g2)"
    "all_stopped g2" "sv_eventList (gw_server g2) = []"
    using destroy_members_ends [OF w(1) assms(3) w(2), of evs'] by blast
  moreover have "us' = []"
    using destroy_members_stopped [OF g1(2), of W evs'] m(1) by simp
  ultimately show ?thesis
    using True d upcalls_quiet [OF assms(1) t, of now us] by (simp add: Gateway_destroy_def)
next
  case False
  then have "\<not> gw_watchdogThread g" "transport_inv (gw_transport g)"
    using gateway_reachable_inv [OF assms(2)] by (simp_all add: gateway_inv_def)
  from destroy_members_ends [OF this(1) assms(3) this(2), of evs'] False show ?thesis
    by (auto simp: Gateway_destroy_def)
qed

text \<open>
  C17. Leaving the process, whichever singleton was fetched first and whatever was done with them: the
  helper is destroyed before the gateway it unsubscribes from. Provided that no unsubscription of
  the helper's destructor throws, that message ids are left for them, and that \<open>get_con_from_hdl\<close>
  throws at most \<open>std::bad_weak_ptr\<close>, the gateway is left without a listener of the helper when
  its own destructor runs; that destructor does not end the process and joins the websocket
  thread, both workers and the watchdog. Members that are already destroyed are called (by the
  message worker) only when no connection was started at that time, which is the case of a lost
  connection.
\<close>

theorem exit_is_orderly:
  assumes "json_throws_std J" and "process_run J p" and "pr_helper p = Some h" and "pr_gateway p = Some g"
    and "\<And>hdl. close_documented W hdl" and "ids_for (length (hp_subscriptions h)) g"
    and "HelperImpl_destroy (IGateway_unsubscribe J W) h (g, script) = (None, h', (g', script'))"
  shows "pr_atexit p = [StaticHelper, StaticGateway] \<and> sv_eventList (gw_server g') = []
    \<and> (\<exists>outs us g''. process_exit J W script evs now evs' p = (map ExitCall outs @ map DeadMember us,
          p\<lparr>pr_helper := None, pr_gateway := None, pr_gone := Some g''\<rparr>)
        \<and> \<not> list_ex fatal outs \<and> (gw_connectionStarted g' \<longrightarrow> us = [])
        \<and> tr_status (gw_transport g'') = NotStarted \<and> \<not> tr_connectionThread (gw_transport g'')
        \<and> \<not> tr_messageWorker (gw_transport g'') \<and> \<not> sv_worker (gw_server g'') \<and> \<not> gw_watchdogThread g'')"
proof -
  have ok: "pr_atexit p = [StaticHelper, StaticGateway]" "gateway_reachable J g" "helper_system J h g"
    using process_run_ok [OF assms(2)] assms(3,4) by (simp_all add: process_ok_def)
  obtain rest where l: "unsubscribe_loop (IGateway_unsubscribe J W) (\<lambda>_. True) (hp_subscriptions h) (g, script) = (None, rest, (g', script'))"
    using assms(7) by (auto simp: HelperImpl_destroy_def split: prod.splits)
  have own: "server_inv (gw_server g)" "all_owned (hp_subscriptions h) (sv_eventList (gw_server g))"
    using helper_system_inv [OF ok(3)] by simp_all
  have "sv_eventList (gw_server g') = []"
    using ig.loop_spec [OF _ l] own by (auto simp: all_owned_def owns_def filter_empty_conv)
  moreover have r: "gateway_reachable J g'"
    using loop_reachable [OF _ _ l] ok(2) assms(6) by simp
  moreover obtain outs us g'' where d: "Gateway_destroy J W evs now evs' g' = (outs, us, g'')" "\<not> list_ex fatal outs"
    "all_stopped g''" "gw_connectionStarted g' \<longrightarrow> us = []"
    using destroy_ends [OF assms(1) r assms(5), of evs now evs'] by blast
  moreover have "process_exit J W script evs now evs' p = (map ExitCall outs @ map DeadMember us,
      p\<lparr>pr_helper := None, pr_gateway := None, pr_gone := Some g''\<rparr>)"
    using assms(3,4,7) ok(1) d(1) by (simp add: process_exit_def)
  ultimately show ?thesis
    using ok(1) unfolding all_stopped_def by blast
qed

definition ex_process :: "(nat, nat, jval) process" where
  "ex_process = (GetHelperInstance (GetGatewayInstance process_init))\<lparr>pr_helper := Some ex_helper, pr_gateway := Some (fst ex_world_subscribed)\<rparr>"

lemma ex_process_run: "process_run ex_json ex_process"
proof -
  let ?p = "GetHelperInstance (GetGatewayInstance process_init) :: (nat, nat, jval) process"
  have p: "pr_gateway ?p = Some Gateway_init" "pr_helper ?p = Some HelperImpl_init"
    by (simp_all add: GetHelperInstance_def GetGatewayInstance_def process_init_def)
  have "process_run ex_json ?p"
    by (intro ps_start ps_gateway ps_helper)
  from ps_event [OF ps_connect [OF this p(1), of ex_ws "\<lambda>_. None" ex_config 5 "[]"], of _ ex_ws "EvIo (IoOpen 7) 1"]
  have "process_run ex_json (?p\<lparr>pr_gateway := Some (fst ex_world)\<rparr>)"
    by (simp add: ex_world_def)
  moreover have "tr_id_counter (gw_transport (fst ex_world)) = 0"
    by code_simp
  then have "ids_for (Suc 0) (fst ex_world)"
    by (simp add: ids_for_def)
  ultimately show ?thesis
    using ps_call [of ex_json "?p\<lparr>pr_gateway := Some (fst ex_world)\<rparr>" "fst ex_world" HelperImpl_init ex_ws "snd ex_world"
        ex_helper "fst ex_world_subscribed" "snd ex_world_subscribed"] p ex_helper_call
    by (simp add: ex_process_def HelperImpl_init_def)
qed

theorem exit_is_orderly_witness:
  "sv_eventList (gw_server (fst ex_world_subscribed)) \<noteq> []
   \<and> (\<exists>outs us g''. process_exit ex_json ex_ws (snd ex_world_subscribed) [] 9 [] ex_process
        = (map ExitCall outs @ map DeadMember us, ex_process\<lparr>pr_helper := None, pr_gateway := None, pr_gone := Some g''\<rparr>)
      \<and> \<not> sv_worker (gw_server g''))"
proof -
  let ?d = "HelperImpl_destroy (IGateway_unsubscribe ex_json ex_ws) ex_helper (fst ex_world_subscribed, snd ex_world_subscribed)"
  have n: "sv_eventList (gw_server (fst ex_world_subscribed)) \<noteq> []" and "fst ?d = None"
    and "tr_id_counter (gw_transport (fst ex_world_subscribed)) = 1" by code_simp+
  then have ids: "ids_for (length (hp_subscriptions ex_helper)) (fst ex_world_subscribed)"
    by (simp add: ids_for_def ex_helper_eq)
  have d: "?d = (None, fst (snd ?d), (fst (snd (snd ?d)), snd (snd (snd ?d))))" using \<open>fst ?d = None\<close> by (metis prod.collapse)
  have p: "pr_helper ex_process = Some ex_helper" "pr_gateway ex_process = Some (fst ex_world_subscribed)"
    by (simp_all add: ex_process_def)
  show ?thesis
    using exit_is_orderly [OF ex_json_std ex_process_run p ex_ws_close ids d, of "[]" 9 "[]"] n by blast
qed

end
