(* ===== verification/Fb_Worker_Threads.thy ===== *)
theory Fb_Worker_Threads
  imports Fb_Worker
begin

text \<open>
  The worker protocol of \<open>Fb_Worker\<close> under concurrency: the worker thread, any number of threads that
  queue something for it, and the thread that stops it. The sections are those of the code: the
  worker locks the mutex, tests its predicate, and blocks on the condition variable (which
  releases the mutex) or takes an element; a producer reads the stop flag, then pushes under the
  mutex, then notifies; the stopper raises the flag without the mutex, notifies, and joins. A
  notification wakes the worker only if it is already blocked. Spurious wake-ups are left out.
\<close>

section \<open>Threads\<close>

datatype 'w wpc =
    Locking \<comment> \<open>about to lock the mutex\<close>
  | Checking \<comment> \<open>holds the mutex, about to test the predicate of \<open>wait\<close>\<close>
  | Blocking \<comment> \<open>holds the mutex, saw the predicate false, about to block\<close>
  | Waiting \<comment> \<open>blocked, mutex released\<close>
  | Passing \<comment> \<open>holds the mutex, saw the predicate true\<close>
  | Running 'w \<comment> \<open>mutex released, handing the element over\<close>
  | Gone \<comment> \<open>the thread's function has returned\<close>

fun holds_mutex :: "'w wpc \<Rightarrow> bool" where
  "holds_mutex Checking = True"
| "holds_mutex Blocking = True"
| "holds_mutex Passing = True"
| "holds_mutex _ = False"

fun in_hand :: "'w wpc \<Rightarrow> 'w list" where
  "in_hand (Running w) = [w]"
| "in_hand _ = []"

text \<open>\<open>notify_one\<close> and \<open>notify_all\<close>: the worker is the only thread that waits.\<close>

fun wake :: "'w wpc \<Rightarrow> 'w wpc" where
  "wake Waiting = Locking"
| "wake pc = pc"

datatype 'w ppc = PIdle | PPushing 'w \<comment> \<open>has seen the flag down\<close> | PNotifying

datatype spc = SIdle | SNotifying \<comment> \<open>has raised the flag\<close> | SJoining | SDone

record ('s, 'w) wsys =
  ws_state :: 's
  ws_wpc :: "'w wpc"
  ws_ppc :: "nat \<Rightarrow> 'w ppc"
  ws_spc :: spc
  ws_pushed :: "'w list" \<comment> \<open>what was ever queued, in order\<close>
  ws_delivered :: "'w list" \<comment> \<open>what the worker has handed over, in order\<close>

definition wsys_start :: "'s \<Rightarrow> ('s, 'w) wsys" where
  "wsys_start s = \<lparr>ws_state = s, ws_wpc = Locking, ws_ppc = (\<lambda>_. PIdle), ws_spc = SIdle, ws_pushed = [], ws_delivered = []\<rparr>"

inductive wstep ::
    "('s \<Rightarrow> 'w list) \<Rightarrow> ('s \<Rightarrow> bool) \<Rightarrow> ('s \<Rightarrow> 'w pass \<times> 's) \<Rightarrow> ('s \<Rightarrow> 'w \<Rightarrow> bool) \<Rightarrow> ('w \<Rightarrow> 's \<Rightarrow> 's) \<Rightarrow> ('s \<Rightarrow> 's) \<Rightarrow>
     ('s, 'w) wsys \<Rightarrow> ('s, 'w) wsys \<Rightarrow> bool"
  for queue_of stopped pass may_push push raise where
  w_lock: "ws_wpc c = Locking \<Longrightarrow> wstep queue_of stopped pass may_push push raise c (c\<lparr>ws_wpc := Checking\<rparr>)"
| w_ready: "ws_wpc c = Checking \<Longrightarrow> stopped (ws_state c) \<or> queue_of (ws_state c) \<noteq> [] \<Longrightarrow>
    wstep queue_of stopped pass may_push push raise c (c\<lparr>ws_wpc := Passing\<rparr>)"
| w_unready: "ws_wpc c = Checking \<Longrightarrow> \<not> (stopped (ws_state c) \<or> queue_of (ws_state c) \<noteq> []) \<Longrightarrow>
    wstep queue_of stopped pass may_push push raise c (c\<lparr>ws_wpc := Blocking\<rparr>)"
| w_block: "ws_wpc c = Blocking \<Longrightarrow> wstep queue_of stopped pass may_push push raise c (c\<lparr>ws_wpc := Waiting\<rparr>)"
| w_take: "ws_wpc c = Passing \<Longrightarrow> pass (ws_state c) = (Took w, s) \<Longrightarrow>
    wstep queue_of stopped pass may_push push raise c (c\<lparr>ws_state := s, ws_wpc := Running w\<rparr>)"
| w_exit: "ws_wpc c = Passing \<Longrightarrow> pass (ws_state c) = (Exited, s) \<Longrightarrow>
    wstep queue_of stopped pass may_push push raise c (c\<lparr>ws_state := s, ws_wpc := Gone\<rparr>)"
| w_again: "ws_wpc c = Passing \<Longrightarrow> pass (ws_state c) = (Blocked, s) \<Longrightarrow>
    wstep queue_of stopped pass may_push push raise c (c\<lparr>ws_state := s, ws_wpc := Locking\<rparr>)"
| w_run: "ws_wpc c = Running w \<Longrightarrow>
    wstep queue_of stopped pass may_push push raise c (c\<lparr>ws_wpc := Locking, ws_delivered := ws_delivered c @ [w]\<rparr>)"
| p_test: "ws_ppc c t = PIdle \<Longrightarrow> \<not> stopped (ws_state c) \<Longrightarrow> may_push (ws_state c) w \<Longrightarrow>
    wstep queue_of stopped pass may_push push raise c (c\<lparr>ws_ppc := (ws_ppc c)(t := PPushing w)\<rparr>)"
| p_push: "ws_ppc c t = PPushing w \<Longrightarrow> \<not> holds_mutex (ws_wpc c) \<Longrightarrow>
    wstep queue_of stopped pass may_push push raise c
      (c\<lparr>ws_state := push w (ws_state c), ws_ppc := (ws_ppc c)(t := PNotifying), ws_pushed := ws_pushed c @ [w]\<rparr>)"
| p_notify: "ws_ppc c t = PNotifying \<Longrightarrow>
    wstep queue_of stopped pass may_push push raise c (c\<lparr>ws_wpc := wake (ws_wpc c), ws_ppc := (ws_ppc c)(t := PIdle)\<rparr>)"
| s_raise: "ws_spc c = SIdle \<Longrightarrow>
    wstep queue_of stopped pass may_push push raise c (c\<lparr>ws_state := raise (ws_state c), ws_spc := SNotifying\<rparr>)"
| s_notify: "ws_spc c = SNotifying \<Longrightarrow>
    wstep queue_of stopped pass may_push push raise c (c\<lparr>ws_wpc := wake (ws_wpc c), ws_spc := SJoining\<rparr>)"
| s_join: "ws_spc c = SJoining \<Longrightarrow> ws_wpc c = Gone \<Longrightarrow>
    wstep queue_of stopped pass may_push push raise c (c\<lparr>ws_spc := SDone\<rparr>)"

section \<open>The contract of a worker with producers and a stopper\<close>

locale threaded_worker = queue_worker queue_of stopped set_queue step
  for queue_of :: "'s \<Rightarrow> 'w list" and stopped :: "'s \<Rightarrow> bool" and set_queue :: "'w list \<Rightarrow> 's \<Rightarrow> 's"
    and step :: "'s \<Rightarrow> 'w pass \<times> 's" +
  fixes may_push :: "'s \<Rightarrow> 'w \<Rightarrow> bool" and push :: "'w \<Rightarrow> 's \<Rightarrow> 's" and raise :: "'s \<Rightarrow> 's"
  assumes queue_push: "queue_of (push w s) = queue_of s @ [w]"
    and stopped_push: "stopped (push w s) = stopped s"
    and queue_raise: "queue_of (raise s) = queue_of s"
    and stopped_raise: "stopped (raise s)"
begin

lemma step_Took: "step s = (Took w, s') \<Longrightarrow> queue_of s = w # queue_of s' \<and> stopped s' = stopped s"
  by (cases "queue_of s") (auto simp: step_take step_idle queue_set stopped_set split: if_splits)

lemma step_Exited: "step s = (Exited, s') \<Longrightarrow> queue_of s = [] \<and> stopped s \<and> s' = s"
  by (cases "queue_of s") (auto simp: step_take step_idle split: if_splits)

lemma step_Blocked: "step s = (Blocked, s') \<Longrightarrow> queue_of s = [] \<and> \<not> stopped s \<and> s' = s"
  by (cases "queue_of s") (auto simp: step_take step_idle split: if_splits)

text \<open>
  Nothing is lost, duplicated or reordered between push and delivery; the worker is at a place
  that fits the flag and the queue; and a blocked worker with a non-empty queue is about to be
  woken.
\<close>

definition winv :: "('s, 'w) wsys \<Rightarrow> bool" where
  "winv c \<longleftrightarrow> ws_delivered c @ in_hand (ws_wpc c) @ queue_of (ws_state c) = ws_pushed c
     \<and> (stopped (ws_state c) \<longleftrightarrow> ws_spc c \<noteq> SIdle)
     \<and> (ws_wpc c = Gone \<longrightarrow> stopped (ws_state c))
     \<and> (ws_wpc c = Passing \<longrightarrow> stopped (ws_state c) \<or> queue_of (ws_state c) \<noteq> [])
     \<and> (ws_wpc c = Blocking \<longrightarrow> queue_of (ws_state c) = [])
     \<and> (ws_wpc c = Waiting \<longrightarrow> queue_of (ws_state c) = [] \<or> (\<exists>t. ws_ppc c t = PNotifying))
     \<and> (ws_spc c = SDone \<longrightarrow> ws_wpc c = Gone)"

lemma winv_start: "queue_of s = [] \<Longrightarrow> \<not> stopped s \<Longrightarrow> winv (wsys_start s)"
  by (simp add: winv_def wsys_start_def)

lemma wake_cases: "wake pc = (if pc = Waiting then Locking else pc)"
  by (cases pc) simp_all

lemma winv_step:
  assumes "wstep queue_of stopped step may_push push raise c c'" and "winv c"
  shows "winv c'"
  using assms
proof cases
  case (w_take w s)
  with step_Took[of "ws_state c"] assms(2) show ?thesis by (auto simp: winv_def)
next
  case (w_exit s)
  with step_Exited[of "ws_state c"] assms(2) show ?thesis by (auto simp: winv_def)
next
  case (w_again s)
  with step_Blocked[of "ws_state c"] assms(2) show ?thesis by (auto simp: winv_def)
next
  case (p_push t w)
  with assms(2) show ?thesis by (auto simp: winv_def queue_push stopped_push)
next
  case (p_notify t)
  with assms(2) show ?thesis by (auto simp: winv_def wake_cases)
next
  case s_raise
  with assms(2) show ?thesis by (auto simp: winv_def queue_raise stopped_raise)
next
  case s_notify
  with assms(2) show ?thesis by (auto simp: winv_def wake_cases)
next
  case (p_test t w)
  then have "\<exists>u. ws_ppc c' u = PNotifying" if "\<exists>u. ws_ppc c u = PNotifying"
    using that by (metis fun_upd_other ppc.distinct(3) wsys.select_convs(3) wsys.surjective wsys.update_convs(3))
  moreover have "ws_wpc c' = ws_wpc c" "ws_state c' = ws_state c" "ws_spc c' = ws_spc c" "ws_pushed c' = ws_pushed c"
      "ws_delivered c' = ws_delivered c" using p_test by simp_all
  ultimately show ?thesis using assms(2) unfolding winv_def by metis
qed (auto simp: winv_def)

lemma winv_steps: "(wstep queue_of stopped step may_push push raise)\<^sup>*\<^sup>* c c' \<Longrightarrow> winv c \<Longrightarrow> winv c'"
  by (induction rule: rtranclp_induct) (auto intro: winv_step)

text \<open>
  When the flag is raised while no producer is between its test and its push, what was pushed by
  then is what is delivered by the time the stop returns.
\<close>

lemma quiet_step:
  assumes "wstep queue_of stopped step may_push push raise c c'" and "stopped (ws_state c)" and "\<forall>t w. ws_ppc c t \<noteq> PPushing w"
    and "ws_wpc c = Gone \<longrightarrow> queue_of (ws_state c) = []"
  shows "stopped (ws_state c') \<and> (\<forall>t w. ws_ppc c' t \<noteq> PPushing w) \<and> ws_pushed c' = ws_pushed c
    \<and> (ws_wpc c' = Gone \<longrightarrow> queue_of (ws_state c') = [])"
  using assms(1)
proof cases
  case (w_take w s)
  with step_Took[of "ws_state c"] assms(2,3) show ?thesis by auto
next
  case (w_exit s)
  with step_Exited[of "ws_state c"] assms(2,3) show ?thesis by auto
next
  case (w_again s)
  with step_Blocked[of "ws_state c"] assms(2,3) show ?thesis by auto
qed (use assms(2-4) in \<open>auto simp: wake_cases queue_raise stopped_raise split: if_splits\<close>)

lemma quiet_steps:
  assumes "(wstep queue_of stopped step may_push push raise)\<^sup>*\<^sup>* c c'" and "stopped (ws_state c)" and "\<forall>t w. ws_ppc c t \<noteq> PPushing w"
    and "ws_wpc c = Gone \<longrightarrow> queue_of (ws_state c) = []"
  shows "stopped (ws_state c') \<and> (\<forall>t w. ws_ppc c' t \<noteq> PPushing w) \<and> ws_pushed c' = ws_pushed c
    \<and> (ws_wpc c' = Gone \<longrightarrow> queue_of (ws_state c') = [])"
  using assms(1)
proof (induction rule: rtranclp_induct)
  case (step c1 c2)
  then show ?case using quiet_step[of c1 c2] by auto
qed (use assms(2-4) in auto)

lemma quiet_stop_delivers:
  assumes "winv c" and "stopped (ws_state c)" and "\<forall>t w. ws_ppc c t \<noteq> PPushing w" and "ws_wpc c \<noteq> Gone"
    and "(wstep queue_of stopped step may_push push raise)\<^sup>*\<^sup>* c c'" and "ws_spc c' = SDone"
  shows "ws_delivered c' = ws_pushed c \<and> queue_of (ws_state c') = []"
proof -
  have "winv c'" by (rule winv_steps[OF assms(5,1)])
  with quiet_steps[OF assms(5,2,3)] assms(4,6) show ?thesis by (auto simp: winv_def)
qed

section \<open>When the stop returns\<close>

text \<open>After the flag was raised outside the window between the worker's test and its blocking.\<close>

definition wakeable :: "('s, 'w) wsys \<Rightarrow> bool" where
  "wakeable c \<longleftrightarrow> stopped (ws_state c) \<and> ws_wpc c \<noteq> Blocking \<and> (ws_wpc c = Waiting \<longrightarrow> ws_spc c = SNotifying)"

lemma wakeable_step:
  assumes "wstep queue_of stopped step may_push push raise c c'" and "wakeable c"
  shows "wakeable c'"
  using assms(1)
proof cases
  case (w_take w s)
  with step_Took[of "ws_state c"] assms(2) show ?thesis by (auto simp: wakeable_def)
next
  case (w_exit s)
  with step_Exited[of "ws_state c"] assms(2) show ?thesis by (auto simp: wakeable_def)
next
  case (w_again s)
  with step_Blocked[of "ws_state c"] assms(2) show ?thesis by (auto simp: wakeable_def)
qed (use assms(2) in \<open>auto simp: wakeable_def wake_cases stopped_push stopped_raise split: if_splits\<close>)

lemma wakeable_steps: "(wstep queue_of stopped step may_push push raise)\<^sup>*\<^sup>* c c' \<Longrightarrow> wakeable c \<Longrightarrow> wakeable c'"
  by (induction rule: rtranclp_induct) (auto intro: wakeable_step)

text \<open>How far the worker of a stopped queue is from its end.\<close>

fun distance :: "'w wpc \<Rightarrow> nat" where
  "distance Gone = 0"
| "distance Passing = 1"
| "distance Checking = 2"
| "distance Locking = 3"
| "distance Waiting = 4"
| "distance Blocking = 5"
| "distance (Running w) = 4"

lemma worker_steps_to_end:
  "wakeable c \<Longrightarrow> ws_spc c = SJoining \<Longrightarrow> \<exists>c'. (wstep queue_of stopped step may_push push raise)\<^sup>*\<^sup>* c c' \<and> ws_spc c' = SJoining \<and> ws_wpc c' = Gone"
proof (induction "5 * length (queue_of (ws_state c)) + distance (ws_wpc c)" arbitrary: c rule: less_induct)
  case less
  have st: "stopped (ws_state c)" using less.prems(1) by (simp add: wakeable_def)
  have go: ?case if "wstep queue_of stopped step may_push push raise c c1" "ws_spc c1 = SJoining"
      "5 * length (queue_of (ws_state c1)) + distance (ws_wpc c1) < 5 * length (queue_of (ws_state c)) + distance (ws_wpc c)" for c1
    using less.hyps[OF that(3) wakeable_step[OF that(1) less.prems(1)] that(2)] that(1)
    by (meson converse_rtranclp_into_rtranclp)
  show ?case
  proof (cases "ws_wpc c")
    case Locking
    show ?thesis by (rule go[OF w_lock[OF Locking]]) (simp_all add: less.prems(2) Locking)
  next
    case Checking
    show ?thesis by (rule go[OF w_ready[OF Checking]]) (simp_all add: less.prems(2) Checking st)
  next
    case Passing
    show ?thesis
    proof (cases "queue_of (ws_state c)")
      case Nil
      then have "step (ws_state c) = (Exited, ws_state c)" using st by (simp add: step_idle)
      then have "wstep queue_of stopped step may_push push raise c (c\<lparr>ws_state := ws_state c, ws_wpc := Gone\<rparr>)" by (rule w_exit[OF Passing])
      from go[OF this] show ?thesis by (simp add: less.prems(2) Passing)
    next
      case (Cons w ws)
      have "wstep queue_of stopped step may_push push raise c (c\<lparr>ws_state := set_queue ws (ws_state c), ws_wpc := Running w\<rparr>)"
        using w_take[OF Passing, of step] step_take[OF Cons] by blast
      from go[OF this] show ?thesis by (simp add: less.prems(2) Passing queue_set Cons)
    qed
  next
    case (Running w)
    show ?thesis by (rule go[OF w_run[OF Running]]) (simp_all add: less.prems(2) Running)
  next
    case Gone
    with less.prems(2) show ?thesis by blast
  qed (use less.prems in \<open>simp_all add: wakeable_def\<close>)
qed

text \<open>Then the stop can always come to its end, whatever the threads have done in between.\<close>

lemma stop_can_finish:
  assumes "winv c" and "wakeable c"
  shows "\<exists>c'. (wstep queue_of stopped step may_push push raise)\<^sup>*\<^sup>* c c' \<and> ws_spc c' = SDone"
proof -
  have finish: "\<exists>c'. (wstep queue_of stopped step may_push push raise)\<^sup>*\<^sup>* d c' \<and> ws_spc c' = SDone" if "wakeable d" "ws_spc d = SJoining" for d
  proof -
    obtain d' where "(wstep queue_of stopped step may_push push raise)\<^sup>*\<^sup>* d d'" "ws_spc d' = SJoining" "ws_wpc d' = Gone"
      using worker_steps_to_end[OF \<open>wakeable d\<close> \<open>ws_spc d = SJoining\<close>] by blast
    from this(1) s_join[OF this(2,3)] have "(wstep queue_of stopped step may_push push raise)\<^sup>*\<^sup>* d (d'\<lparr>ws_spc := SDone\<rparr>)"
      by (rule rtranclp.rtrancl_into_rtrancl)
    then show ?thesis by (intro exI[of _ "d'\<lparr>ws_spc := SDone\<rparr>"]) simp
  qed
  show ?thesis
  proof (cases "ws_spc c")
    case SIdle
    then show ?thesis using assms by (simp add: winv_def wakeable_def)
  next
    case SNotifying
    let ?d = "c\<lparr>ws_wpc := wake (ws_wpc c), ws_spc := SJoining\<rparr>"
    have s: "wstep queue_of stopped step may_push push raise c ?d" by (rule s_notify[OF SNotifying])
    obtain c' where "(wstep queue_of stopped step may_push push raise)\<^sup>*\<^sup>* ?d c'" "ws_spc c' = SDone" using finish[OF wakeable_step[OF s assms(2)]] by auto
    with s show ?thesis by (meson converse_rtranclp_into_rtranclp)
  next
    case SJoining
    then show ?thesis using finish assms(2) by blast
  next
    case SDone
    then show ?thesis by blast
  qed
qed

text \<open>Inside the window the notification is lost and, with no producer on its way, nothing moves any more.\<close>

lemma lost_wakeup_stuck:
  assumes "stopped (ws_state c)" and "ws_wpc c = Waiting" and "ws_spc c = SJoining" and "\<forall>t. ws_ppc c t = PIdle"
  shows "\<not> wstep queue_of stopped step may_push push raise c c'"
  using assms by (auto elim!: wstep.cases)

lemma stop_can_hang:
  assumes "queue_of s = []" and "\<not> stopped s"
  shows "\<exists>c. (wstep queue_of stopped step may_push push raise)\<^sup>*\<^sup>* (wsys_start s) c
    \<and> ws_spc c = SJoining \<and> ws_wpc c = Waiting \<and> (\<nexists>c'. wstep queue_of stopped step may_push push raise c c')"
proof -
  let ?c0 = "wsys_start s :: ('s, 'w) wsys"
  let ?c1 = "?c0\<lparr>ws_wpc := Checking\<rparr>"
  let ?c2 = "?c1\<lparr>ws_wpc := Blocking\<rparr>"
  let ?c3 = "?c2\<lparr>ws_state := raise (ws_state ?c2), ws_spc := SNotifying\<rparr>"
  let ?c4 = "?c3\<lparr>ws_wpc := wake (ws_wpc ?c3), ws_spc := SJoining\<rparr>"
  let ?c5 = "?c4\<lparr>ws_wpc := Waiting\<rparr>"
  have "wstep queue_of stopped step may_push push raise ?c0 ?c1" by (rule w_lock) (simp add: wsys_start_def)
  moreover have "wstep queue_of stopped step may_push push raise ?c1 ?c2" by (rule w_unready) (simp_all add: wsys_start_def assms)
  moreover have "wstep queue_of stopped step may_push push raise ?c2 ?c3" by (rule s_raise) (simp add: wsys_start_def)
  moreover have "wstep queue_of stopped step may_push push raise ?c3 ?c4" by (rule s_notify) simp
  moreover have "wstep queue_of stopped step may_push push raise ?c4 ?c5" by (rule w_block) simp
  ultimately have "(wstep queue_of stopped step may_push push raise)\<^sup>*\<^sup>* ?c0 ?c5" by (meson converse_rtranclp_into_rtranclp rtranclp.rtrancl_refl)
  moreover have "\<not> wstep queue_of stopped step may_push push raise ?c5 c'" for c'
    by (rule lost_wakeup_stuck) (simp_all add: stopped_raise wsys_start_def)
  ultimately show ?thesis by (intro exI[of _ ?c5]) simp
qed

text \<open>A producer that tested the flag before it was raised can push after the worker is gone.\<close>

lemma late_push_stranded:
  assumes "queue_of s = []" and "\<not> stopped s" and "may_push s w"
  shows "\<exists>c. (wstep queue_of stopped step may_push push raise)\<^sup>*\<^sup>* (wsys_start s) c \<and> ws_spc c = SDone \<and> queue_of (ws_state c) = [w] \<and> ws_delivered c = []"
proof -
  let ?c0 = "wsys_start s :: ('s, 'w) wsys"
  let ?c1 = "?c0\<lparr>ws_ppc := (ws_ppc ?c0)(0 := PPushing w)\<rparr>"
  let ?c2 = "?c1\<lparr>ws_state := raise (ws_state ?c1), ws_spc := SNotifying\<rparr>"
  let ?c3 = "?c2\<lparr>ws_wpc := wake (ws_wpc ?c2), ws_spc := SJoining\<rparr>"
  let ?c4 = "?c3\<lparr>ws_wpc := Checking\<rparr>"
  let ?c5 = "?c4\<lparr>ws_wpc := Passing\<rparr>"
  let ?c6 = "?c5\<lparr>ws_state := raise s, ws_wpc := Gone\<rparr>"
  let ?c7 = "?c6\<lparr>ws_spc := SDone\<rparr>"
  let ?c8 = "?c7\<lparr>ws_state := push w (ws_state ?c7), ws_ppc := (ws_ppc ?c7)(0 := PNotifying), ws_pushed := ws_pushed ?c7 @ [w]\<rparr>"
  have exit: "step (raise s) = (Exited, raise s)" using assms(1) by (simp add: step_idle queue_raise stopped_raise)
  have "wstep queue_of stopped step may_push push raise ?c0 ?c1" by (rule p_test) (simp_all add: wsys_start_def assms)
  moreover have "wstep queue_of stopped step may_push push raise ?c1 ?c2" by (rule s_raise) (simp add: wsys_start_def)
  moreover have "wstep queue_of stopped step may_push push raise ?c2 ?c3" by (rule s_notify) simp
  moreover have "wstep queue_of stopped step may_push push raise ?c3 ?c4" by (rule w_lock) (simp add: wsys_start_def)
  moreover have "wstep queue_of stopped step may_push push raise ?c4 ?c5" by (rule w_ready) (simp_all add: wsys_start_def stopped_raise)
  moreover have "wstep queue_of stopped step may_push push raise ?c5 ?c6" by (rule w_exit) (simp_all add: wsys_start_def exit)
  moreover have "wstep queue_of stopped step may_push push raise ?c6 ?c7" by (rule s_join) (simp_all add: wsys_start_def)
  moreover have "wstep queue_of stopped step may_push push raise ?c7 ?c8" by (rule p_push) (simp_all add: wsys_start_def)
  ultimately have "(wstep queue_of stopped step may_push push raise)\<^sup>*\<^sup>* ?c0 ?c8" by (meson converse_rtranclp_into_rtranclp rtranclp.rtrancl_refl)
  then show ?thesis by (intro exI[of _ ?c8]) (simp add: queue_push queue_raise assms(1) wsys_start_def)
qed

end

end
