(* ===== verification/Fb_Races.thy ===== *)
theory Fb_Races
  imports Fb_Transport Fb_Server Fb_Worker_Threads
begin

text \<open>
  The two worker threads of the library under concurrency: \<open>Transport::processQueuedMessages\<close> with
  the websocket thread as its producer, and \<open>Server::processQueuedNotifications\<close> with whoever calls
  \<open>notify\<close>. Both interpret the locale \<open>threaded_worker\<close>; the sequential operations of \<open>Fb_Transport\<close> and
  \<open>Fb_Server\<close> are shown to be made of the same sections.
\<close>

section \<open>The sections of notify and stop\<close>

text \<open>What \<open>notify\<close> computes after the test of the flag: nothing when the event has no subscriber.\<close>

definition notify_collect :: "'j json_api \<Rightarrow> string \<Rightarrow> 'j \<Rightarrow> ('k, 'j) Server \<Rightarrow> ('k, 'j) QueuedNotification option" where
  "notify_collect J method parameters s =
     (let params = notify_params J parameters;
          callbacks = filter (\<lambda>callback. ev_name callback = method) (sv_eventList s)
      in if callbacks = [] then None else Some \<lparr>qn_callbacks = callbacks, qn_params = params\<rparr>)"

definition notify_push :: "('k, 'j) QueuedNotification \<Rightarrow> ('k, 'j) Server \<Rightarrow> ('k, 'j) Server" where
  "notify_push n s = s\<lparr>sv_queue := sv_queue s @ [n]\<rparr>"

definition raise_notification_stop :: "('k, 'j) Server \<Rightarrow> ('k, 'j) Server" where
  "raise_notification_stop s = s\<lparr>sv_stop := True\<rparr>"

lemma notify_sections:
  "Server_notify J method params s =
     (if sv_stop s then s else case notify_collect J method params s of None \<Rightarrow> s | Some n \<Rightarrow> notify_push n s)"
  by (simp add: Server_notify_def notify_collect_def notify_push_def Let_def)

definition message_push :: "string \<Rightarrow> Transport \<Rightarrow> Transport" where
  "message_push payload t = t\<lparr>tr_messageQueue := tr_messageQueue t @ [payload]\<rparr>"

definition raise_message_stop :: "Transport \<Rightarrow> Transport" where
  "raise_message_stop t = t\<lparr>tr_stopMessageWorker := True\<rparr>"

lemma message_sections:
  "Transport_onMessage text payload t =
     (if \<not> text \<or> tr_stopMessageWorker t then t else message_push payload t)"
  by (simp add: Transport_onMessage_def message_push_def)

text \<open>The threads around the two queues; the subscriber list does not change meanwhile.\<close>

definition notification_step ::
    "'j json_api \<Rightarrow> (('k, 'j) Server, ('k, 'j) QueuedNotification) wsys \<Rightarrow> (('k, 'j) Server, ('k, 'j) QueuedNotification) wsys \<Rightarrow> bool" where
  "notification_step J = wstep sv_queue sv_stop processQueuedNotifications_pass
     (\<lambda>s n. \<exists>method params. notify_collect J method params s = Some n) notify_push raise_notification_stop"

definition message_step :: "(Transport, string) wsys \<Rightarrow> (Transport, string) wsys \<Rightarrow> bool" where
  "message_step = wstep tr_messageQueue tr_stopMessageWorker processQueuedMessages_pass (\<lambda>_ _. True) message_push raise_message_stop"

interpretation nt: threaded_worker sv_queue sv_stop "\<lambda>q s. s\<lparr>sv_queue := q\<rparr>" processQueuedNotifications_pass
  "\<lambda>s n. \<exists>method params. notify_collect J method params s = Some n" notify_push raise_notification_stop for J :: "'j json_api"
  by unfold_locales (simp_all add: notify_push_def raise_notification_stop_def)

interpretation mt: threaded_worker tr_messageQueue tr_stopMessageWorker "\<lambda>q t. t\<lparr>tr_messageQueue := q\<rparr>"
  processQueuedMessages_pass "\<lambda>_ _. True" message_push raise_message_stop
  by unfold_locales (simp_all add: message_push_def raise_message_stop_def)

lemma nt_steps: "(notification_step J)\<^sup>*\<^sup>* c c' \<Longrightarrow> nt.winv c \<Longrightarrow> nt.winv c'"
  unfolding notification_step_def by (rule nt.winv_steps)

lemma mt_steps: "message_step\<^sup>*\<^sup>* c c' \<Longrightarrow> mt.winv c \<Longrightarrow> mt.winv c'"
  unfolding message_step_def by (rule mt.winv_steps)

section \<open>Properties\<close>

text \<open>
  C19. However the websocket thread, the message worker and a disconnecting thread interleave: every
  payload that was queued is delivered, in the worker's hands or still queued, each once and in
  order of arrival, and a payload is never slept over (if the worker is blocked while something
  is queued, a notification is on its way).
\<close>

theorem messages_neither_lost_nor_reordered:
  assumes "message_step\<^sup>*\<^sup>* (wsys_start t) c" and "tr_messageQueue t = []" and "\<not> tr_stopMessageWorker t"
  shows "ws_delivered c @ in_hand (ws_wpc c) @ tr_messageQueue (ws_state c) = ws_pushed c
    \<and> (ws_wpc c = Waiting \<and> tr_messageQueue (ws_state c) \<noteq> [] \<longrightarrow> (\<exists>p. ws_ppc c p = PNotifying))"
  using mt_steps[OF assms(1) mt.winv_start[OF assms(2,3)]] by (auto simp: mt.winv_def)

theorem messages_neither_lost_nor_reordered_witness:
  "\<exists>c. message_step\<^sup>*\<^sup>* (wsys_start Transport_init) c \<and> ws_pushed c = [''a'']
     \<and> ws_delivered c @ in_hand (ws_wpc c) @ tr_messageQueue (ws_state c) = [''a'']"
proof -
  let ?c0 = "wsys_start Transport_init :: (Transport, string) wsys"
  let ?c1 = "?c0\<lparr>ws_ppc := (ws_ppc ?c0)(0 := PPushing ''a'')\<rparr>"
  let ?c2 = "?c1\<lparr>ws_state := message_push ''a'' (ws_state ?c1), ws_ppc := (ws_ppc ?c1)(0 := PNotifying), ws_pushed := ws_pushed ?c1 @ [''a'']\<rparr>"
  have i: "tr_messageQueue Transport_init = []" "\<not> tr_stopMessageWorker Transport_init" by (simp_all add: Transport_init_def)
  have "message_step ?c0 ?c1" unfolding message_step_def by (rule p_test) (simp_all add: wsys_start_def i)
  moreover have "message_step ?c1 ?c2" unfolding message_step_def by (rule p_push) (simp_all add: wsys_start_def)
  ultimately have s: "message_step\<^sup>*\<^sup>* ?c0 ?c2" by (meson converse_rtranclp_into_rtranclp rtranclp.rtrancl_refl)
  have p: "ws_pushed ?c2 = [''a'']" by (simp add: wsys_start_def)
  show ?thesis using messages_neither_lost_nor_reordered [OF s i, THEN conjunct1, unfolded p] s p by (intro exI[of _ ?c2] conjI)
qed

text \<open>
  C18. Stopping the message worker the way \<open>disconnect\<close> does, after the websocket thread is joined (no
  producer between its test of the flag and its push), loses nothing: when the stop has returned
  every payload ever queued was delivered. And if the flag is not raised just when the worker,
  having found nothing to do, is about to block, the stop never gets stuck: whatever the threads
  do next, it can still come to its end.
\<close>

theorem message_stop_delivers_and_returns:
  assumes "message_step\<^sup>*\<^sup>* (wsys_start t) c" and "tr_messageQueue t = []" and "\<not> tr_stopMessageWorker t"
    and "ws_spc c = SIdle" and "c1 = c\<lparr>ws_state := raise_message_stop (ws_state c), ws_spc := SNotifying\<rparr>"
    and "message_step\<^sup>*\<^sup>* c1 c2"
  shows "((\<forall>p w. ws_ppc c p \<noteq> PPushing w) \<and> ws_spc c2 = SDone \<longrightarrow>
        ws_delivered c2 = ws_pushed c \<and> tr_messageQueue (ws_state c2) = [])
    \<and> (ws_wpc c \<noteq> Blocking \<longrightarrow> (\<exists>c3. message_step\<^sup>*\<^sup>* c2 c3 \<and> ws_spc c3 = SDone))"
proof -
  have inv: "mt.winv c" by (rule mt_steps[OF assms(1) mt.winv_start[OF assms(2,3)]])
  have st: "message_step c c1" unfolding message_step_def assms(5) by (rule s_raise[OF assms(4)])
  then have inv1: "mt.winv c1" using mt_steps[OF r_into_rtranclp[of message_step] inv] by blast
  have flag: "tr_stopMessageWorker (ws_state c1)" by (simp add: assms(5) raise_message_stop_def)
  have run: "ws_wpc c \<noteq> Gone" using inv assms(4) by (auto simp: mt.winv_def)
  have "\<exists>c3. message_step\<^sup>*\<^sup>* c2 c3 \<and> ws_spc c3 = SDone" if "ws_wpc c \<noteq> Blocking"
  proof -
    have "mt.wakeable c1" using that flag by (simp add: mt.wakeable_def assms(5))
    then have "mt.wakeable c2" using assms(6) unfolding message_step_def by (rule mt.wakeable_steps[rotated])
    with mt_steps[OF assms(6) inv1] show ?thesis unfolding message_step_def by (rule mt.stop_can_finish)
  qed
  moreover have "ws_delivered c2 = ws_pushed c \<and> tr_messageQueue (ws_state c2) = []"
    if "\<forall>p w. ws_ppc c p \<noteq> PPushing w" "ws_spc c2 = SDone"
    using mt.quiet_stop_delivers[OF inv1 flag _ _ assms(6)[unfolded message_step_def] that(2)] that(1) run by (simp add: assms(5))
  ultimately show ?thesis by blast
qed

theorem message_stop_delivers_and_returns_witness:
  "\<exists>c3. message_step\<^sup>*\<^sup>* ((wsys_start Transport_init :: (Transport, string) wsys)
      \<lparr>ws_state := raise_message_stop Transport_init, ws_spc := SNotifying\<rparr>) c3 \<and> ws_spc c3 = SDone"
proof -
  let ?c = "wsys_start Transport_init :: (Transport, string) wsys"
  have i: "tr_messageQueue Transport_init = []" "\<not> tr_stopMessageWorker Transport_init" "ws_spc ?c = SIdle"
    by (simp_all add: Transport_init_def wsys_start_def)
  show ?thesis
    using message_stop_delivers_and_returns [OF rtranclp.rtrancl_refl [of message_step ?c] i refl rtranclp.rtrancl_refl]
    by (simp add: wsys_start_def)
qed

text \<open>
  C31. Both stops raise the flag and notify without holding the mutex of the condition variable. If that
  falls between the worker's test and its blocking, the notification is lost: for each of the two
  workers a state is reachable in which the stopping thread waits in \<open>join\<close>, the worker waits for a
  notification that was already sent, and no thread can take a step.
\<close>

theorem stop_can_lose_wakeup:
  "(\<exists>c. message_step\<^sup>*\<^sup>* (wsys_start Transport_init) c \<and> ws_spc c = SJoining \<and> ws_wpc c = Waiting \<and> (\<nexists>c'. message_step c c'))
   \<and> (\<exists>c. (notification_step J)\<^sup>*\<^sup>* (wsys_start Server_init) c \<and> ws_spc c = SJoining \<and> ws_wpc c = Waiting \<and> (\<nexists>c'. notification_step J c c'))"
proof -
  have m: "tr_messageQueue Transport_init = []" "\<not> tr_stopMessageWorker Transport_init" by (simp_all add: Transport_init_def)
  have n: "sv_queue Server_init = []" "\<not> sv_stop Server_init" by (simp_all add: Server_init_def)
  show ?thesis
    using mt.stop_can_hang[OF m] nt.stop_can_hang[OF n, of J] unfolding message_step_def notification_step_def by blast
qed

text \<open>
  C36. A notification can be stranded: a thread in \<open>notify\<close> that tested the flag before \<open>stopNotificationWorker\<close>
  raised it may queue its notification after the worker has gone and the stop has returned. It
  stays in the queue, and the next \<open>subscribe\<close>, which starts a worker again, has it delivered then.
\<close>

theorem late_notification_stranded:
  assumes "sv_queue s = []" and "\<not> sv_stop s" and "notify_collect J method params s = Some n"
  shows "\<exists>c. (notification_step J)\<^sup>*\<^sup>* (wsys_start s) c \<and> ws_spc c = SDone \<and> ws_delivered c = [] \<and> sv_queue (ws_state c) = [n]
    \<and> (let s' = snd (Server_subscribe event k u ((ws_state c)\<lparr>sv_worker := False\<rparr>))
       in sv_worker s' \<and> fst (processQueuedNotifications_pass s') = Took n)"
proof -
  have "\<exists>method params. notify_collect J method params s = Some n" using assms(3) by blast
  from nt.late_push_stranded[OF assms(1,2) this] obtain c where c: "(notification_step J)\<^sup>*\<^sup>* (wsys_start s) c"
      "ws_spc c = SDone" "sv_queue (ws_state c) = [n]" "ws_delivered c = []"
    unfolding notification_step_def by blast
  then show ?thesis
    by (intro exI[of _ c])
      (simp add: Server_subscribe_def ensureNotificationWorkerStarted_def processQueuedNotifications_pass_def Let_def split: option.splits)
qed

theorem late_notification_stranded_witness:
  "\<exists>c n. (notification_step (ref_json []))\<^sup>*\<^sup>* (wsys_start ex_server) c \<and> ws_spc c = SDone \<and> ws_delivered c = []
     \<and> sv_queue (ws_state c) = [n] \<and> map ev_usercb (qn_callbacks n) = [3]"
proof -
  let ?n = "\<lparr>qn_callbacks = [\<lparr>ev_name = ''tts.stop'', ev_lambda = 12, ev_usercb = 3\<rparr>], qn_params = JNull\<rparr> :: (nat, jval) QueuedNotification"
  have i: "sv_queue ex_server = []" "\<not> sv_stop ex_server" by (simp_all add: ex_server_eq)
  have n: "notify_collect (ref_json []) ''tts.stop'' JNull ex_server = Some ?n"
    by (simp add: ex_server_eq notify_collect_def notify_params_def ref_json_def)
  show ?thesis using late_notification_stranded [OF i n, of "''tts.stop''" 9 9] by (auto intro: exI[of _ ?n])
qed

end
