(* ===== verification/Fb_Worker_Start.thy ===== *)
theory Fb_Worker_Start
  imports Fb_Races
begin

text \<open>
  Starting the notification worker under concurrency. \<open>ensureNotificationWorkerStarted\<close> and
  \<open>stopNotificationWorker\<close> take no lock: the first reads whether there is a thread, clears the stop
  flag and assigns the new thread; the second raises the flag, reads whether there is a thread and
  joins it. Calls through the helper are serialised by its \<open>mutex_\<close>, calls of \<open>IGateway::subscribe\<close> are
  not; stops are serialised by \<open>cleanup_mtx\<close>. Assigning to a \<open>std::thread\<close> that is joinable calls
  \<open>std::terminate\<close>.
\<close>

section \<open>The sections\<close>

datatype start_pc = NotStarting | Clearing \<comment> \<open>has seen no worker\<close> | Assigning

datatype stop_pc = NotStopping | Raised | Joining

record ('k, 'j) starters =
  sw_server :: "('k, 'j) Server"
  sw_running :: bool \<comment> \<open>the thread's function has not returned\<close>
  sw_pc :: "nat \<Rightarrow> start_pc"
  sw_lock :: "nat option" \<comment> \<open>the helper's mutex\<close>
  sw_stopper :: stop_pc
  sw_terminated :: bool

definition starters_init :: "('k, 'j) Server \<Rightarrow> ('k, 'j) starters" where
  "starters_init s = \<lparr>sw_server = s, sw_running = sv_worker s, sw_pc = (\<lambda>_. NotStarting), sw_lock = None,
     sw_stopper = NotStopping, sw_terminated = False\<rparr>"

definition ensure_test :: "('k, 'j) Server \<Rightarrow> start_pc" where
  "ensure_test s = (if \<not> sv_worker s then Clearing else NotStarting)"

definition ensure_clear :: "('k, 'j) Server \<Rightarrow> ('k, 'j) Server" where
  "ensure_clear s = s\<lparr>sv_stop := False\<rparr>"

definition ensure_assign :: "('k, 'j) Server \<Rightarrow> ('k, 'j) Server option" where
  "ensure_assign s = (if sv_worker s then None else Some (s\<lparr>sv_worker := True\<rparr>))"

lemma ensure_sections:
  "Some (ensureNotificationWorkerStarted s) =
     (case ensure_test s of NotStarting \<Rightarrow> Some s | _ \<Rightarrow> ensure_assign (ensure_clear s))"
  by (simp add: ensureNotificationWorkerStarted_def ensure_test_def ensure_clear_def ensure_assign_def)

text \<open>\<open>serial\<close>: the subscribers go through the helper.\<close>

inductive start_step :: "'j json_api \<Rightarrow> bool \<Rightarrow> ('k, 'j) starters \<Rightarrow> ('k, 'j) starters \<Rightarrow> bool" for J serial where
  test: "sw_pc w t = NotStarting \<Longrightarrow> \<not> serial \<or> sw_lock w = None \<Longrightarrow> ensure_test (sw_server w) = pc \<Longrightarrow>
    start_step J serial w (w\<lparr>sw_pc := (sw_pc w)(t := pc), sw_lock := if pc = NotStarting then sw_lock w else Some t\<rparr>)"
| clear: "sw_pc w t = Clearing \<Longrightarrow>
    start_step J serial w (w\<lparr>sw_pc := (sw_pc w)(t := Assigning), sw_server := ensure_clear (sw_server w)\<rparr>)"
| assign: "sw_pc w t = Assigning \<Longrightarrow> ensure_assign (sw_server w) = Some s \<Longrightarrow>
    start_step J serial w (w\<lparr>sw_pc := (sw_pc w)(t := NotStarting), sw_lock := None, sw_server := s, sw_running := True\<rparr>)"
| terminate: "sw_pc w t = Assigning \<Longrightarrow> ensure_assign (sw_server w) = None \<Longrightarrow>
    start_step J serial w (w\<lparr>sw_terminated := True\<rparr>)"
| raise: "sw_stopper w = NotStopping \<Longrightarrow>
    start_step J serial w (w\<lparr>sw_stopper := Raised, sw_server := raise_notification_stop (sw_server w)\<rparr>)"
| unneeded: "sw_stopper w = Raised \<Longrightarrow> \<not> sv_worker (sw_server w) \<Longrightarrow> start_step J serial w (w\<lparr>sw_stopper := NotStopping\<rparr>)"
| join: "sw_stopper w = Raised \<Longrightarrow> sv_worker (sw_server w) \<Longrightarrow> start_step J serial w (w\<lparr>sw_stopper := Joining\<rparr>)"
| joined: "sw_stopper w = Joining \<Longrightarrow> \<not> sw_running w \<Longrightarrow>
    start_step J serial w (w\<lparr>sw_stopper := NotStopping, sw_server := (sw_server w)\<lparr>sv_worker := False\<rparr>\<rparr>)"
| exits: "sw_running w \<Longrightarrow> fst (processQueuedNotifications_pass (sw_server w)) = Exited \<Longrightarrow>
    start_step J serial w (w\<lparr>sw_running := False\<rparr>)"
| takes: "sw_running w \<Longrightarrow> processQueuedNotifications_pass (sw_server w) = (Took n, s) \<Longrightarrow>
    start_step J serial w (w\<lparr>sw_server := s\<rparr>)"
| notifies: "start_step J serial w (w\<lparr>sw_server := Server_notify J name params (sw_server w)\<rparr>)"

section \<open>Through the helper: one worker at a time\<close>

definition starters_inv :: "('k, 'j) starters \<Rightarrow> bool" where
  "starters_inv w \<longleftrightarrow> \<not> sw_terminated w \<and> (sw_running w \<longrightarrow> sv_worker (sw_server w))
     \<and> (\<forall>t. sw_pc w t \<noteq> NotStarting \<longrightarrow> sw_lock w = Some t \<and> \<not> sv_worker (sw_server w))
     \<and> (sw_stopper w = Joining \<longrightarrow> sv_worker (sw_server w))"

lemma notify_worker [simp]: "sv_worker (Server_notify J name params s) = sv_worker s"
  by (auto simp: Server_notify_def Let_def)

lemma pass_worker: "processQueuedNotifications_pass s = (p, s') \<Longrightarrow> sv_worker s' = sv_worker s \<and> sv_stop s' = sv_stop s"
  by (auto simp: processQueuedNotifications_pass_def split: list.splits if_splits)

lemma start_step_inv: "start_step J True w w' \<Longrightarrow> starters_inv w \<Longrightarrow> starters_inv w'"
  by (induction rule: start_step.induct)
    (auto simp: starters_inv_def ensure_test_def ensure_clear_def ensure_assign_def raise_notification_stop_def
      dest: pass_worker split: if_splits, metis option.inject start_pc.distinct)

lemma start_steps_inv: "(start_step J True)\<^sup>*\<^sup>* w w' \<Longrightarrow> starters_inv w \<Longrightarrow> starters_inv w'"
  by (induction rule: rtranclp_induct) (auto intro: start_step_inv)

lemma starters_inv_init: "starters_inv (starters_init s)"
  by (simp add: starters_inv_def starters_init_def)

text \<open>
  C20. Subscribers that go through the helper start the notification worker safely, also while it is
  being stopped: no thread object is overwritten while joinable (which would end the process), at
  most one thread is about to start a worker, and a worker that runs is always one that will be joined.
\<close>

theorem serialised_starts_are_safe:
  assumes "(start_step J True)\<^sup>*\<^sup>* (starters_init s) w"
  shows "\<not> sw_terminated w \<and> card {t. sw_pc w t \<noteq> NotStarting} \<le> 1 \<and> (sw_running w \<longrightarrow> sv_worker (sw_server w))"
proof -
  have inv: "starters_inv w"
    using assms starters_inv_init by (rule start_steps_inv)
  then have "{t. sw_pc w t \<noteq> NotStarting} \<subseteq> (case sw_lock w of None \<Rightarrow> {} | Some t \<Rightarrow> {t})"
    by (auto simp: starters_inv_def split: option.split)
  then have "card {t. sw_pc w t \<noteq> NotStarting} \<le> card (case sw_lock w of None \<Rightarrow> {} | Some t \<Rightarrow> {t})"
    by (intro card_mono) (auto split: option.split)
  also have "\<dots> \<le> 1"
    by (simp split: option.split)
  finally show ?thesis
    using inv by (simp add: starters_inv_def)
qed

section \<open>Where the sections collide\<close>

definition seen_no_worker :: "('k, 'j) starters" where
  "seen_no_worker = (starters_init Server_init)\<lparr>sw_pc := (\<lambda>_. NotStarting)(0 := Clearing), sw_lock := Some 0\<rparr>"

lemma seen_no_worker_step: "start_step J serial (starters_init Server_init) seen_no_worker"
  using start_step.test [of "starters_init Server_init" 0 serial Clearing J]
  by (simp add: seen_no_worker_def starters_init_def Server_init_def ensure_test_def)

theorem serialised_starts_are_safe_witness:
  "\<exists>w. (start_step (ref_json []) True)\<^sup>*\<^sup>* (starters_init (Server_init :: (nat, jval) Server)) w \<and> w = seen_no_worker
    \<and> \<not> sw_terminated w \<and> card {t. sw_pc w t \<noteq> NotStarting} \<le> 1"
  using serialised_starts_are_safe [of "ref_json []" "Server_init :: (nat, jval) Server" seen_no_worker]
    seen_no_worker_step [of "ref_json []" True] by blast

definition unstoppable :: "('k, 'j) starters \<Rightarrow> bool" where
  "unstoppable w \<longleftrightarrow> sw_stopper w = Joining \<and> sw_running w \<and> \<not> sv_stop (sw_server w) \<and> sv_worker (sw_server w)
     \<and> sw_pc w = (\<lambda>_. NotStarting)"

lemma notify_stop [simp]: "sv_stop (Server_notify J name params s) = sv_stop s"
  by (auto simp: Server_notify_def Let_def)

lemma unstoppable_step: "start_step J serial w w' \<Longrightarrow> unstoppable w \<Longrightarrow> unstoppable w'"
  by (induction rule: start_step.induct)
    (auto simp: unstoppable_def ensure_test_def processQueuedNotifications_pass_def split: list.splits if_splits)

lemma unstoppable_steps: "(start_step J serial)\<^sup>*\<^sup>* w w' \<Longrightarrow> unstoppable w \<Longrightarrow> unstoppable w'"
  by (induction rule: rtranclp_induct) (auto intro: unstoppable_step)

text \<open>
  C34. A subscriber that has seen no worker clears the stop flag without looking at it again. When the
  connection is torn down in between, even with every subscriber serialised by the helper, the flag of
  the stop is lost: the worker runs on and the thread that joins it waits for ever.
\<close>

theorem subscribe_can_undo_stop:
  "\<exists>w. (start_step J True)\<^sup>*\<^sup>* (starters_init (Server_init :: ('k, 'j) Server)) w
    \<and> {w'. (start_step J True)\<^sup>*\<^sup>* w w'} \<subseteq> {w'. sw_stopper w' = Joining \<and> sw_running w'}"
proof -
  define a where "a = (seen_no_worker :: ('k, 'j) starters)\<lparr>sw_stopper := Raised,
    sw_server := raise_notification_stop (sw_server seen_no_worker)\<rparr>"
  define b where "b = a\<lparr>sw_pc := (sw_pc a)(0 := Assigning), sw_server := ensure_clear (sw_server a)\<rparr>"
  define c where "c = b\<lparr>sw_pc := (sw_pc b)(0 := NotStarting), sw_lock := None,
    sw_server := (sw_server b)\<lparr>sv_worker := True\<rparr>, sw_running := True\<rparr>"
  note state = a_def b_def c_def seen_no_worker_def starters_init_def Server_init_def raise_notification_stop_def ensure_clear_def
  have s1: "start_step J True seen_no_worker a"
    unfolding a_def by (rule start_step.raise) (simp add: seen_no_worker_def starters_init_def)
  have s2: "start_step J True a b"
    unfolding b_def by (rule start_step.clear) (simp add: a_def seen_no_worker_def)
  have s3: "start_step J True b c"
    unfolding c_def by (rule start_step.assign) (simp_all add: state ensure_assign_def)
  have s4: "start_step J True c (c\<lparr>sw_stopper := Joining\<rparr>)"
    by (rule start_step.join) (simp_all add: state)
  have "(start_step J True)\<^sup>*\<^sup>* (starters_init Server_init) (c\<lparr>sw_stopper := Joining\<rparr>)"
    by (rule converse_rtranclp_into_rtranclp, rule seen_no_worker_step)
      (rule converse_rtranclp_into_rtranclp, rule s1, rule converse_rtranclp_into_rtranclp, rule s2,
       rule converse_rtranclp_into_rtranclp, rule s3, rule r_into_rtranclp, rule s4)
  moreover have "unstoppable (c\<lparr>sw_stopper := Joining\<rparr>)"
    by (auto simp: unstoppable_def state)
  ultimately show ?thesis
    using unstoppable_steps unfolding unstoppable_def by (intro exI [of _ "c\<lparr>sw_stopper := Joining\<rparr>"]) blast
qed

text \<open>
  Two threads that call \<open>IGateway::subscribe\<close> directly can both see no worker; the second to start
  one assigns to a joinable thread, which ends the process.
\<close>

lemma concurrent_subscribes_can_terminate:
  "\<exists>w. (start_step J False)\<^sup>*\<^sup>* (starters_init (Server_init :: ('k, 'j) Server)) w \<and> sw_terminated w"
proof -
  define a where "a = (seen_no_worker :: ('k, 'j) starters)\<lparr>sw_pc := (\<lambda>_. NotStarting)(0 := Clearing, 1 := Clearing), sw_lock := Some 1\<rparr>"
  define b where "b = a\<lparr>sw_pc := (sw_pc a)(0 := Assigning), sw_server := ensure_clear (sw_server a)\<rparr>"
  define c where "c = b\<lparr>sw_pc := (sw_pc b)(1 := Assigning), sw_server := ensure_clear (sw_server b)\<rparr>"
  define d where "d = c\<lparr>sw_pc := (sw_pc c)(0 := NotStarting), sw_lock := None,
    sw_server := (sw_server c)\<lparr>sv_worker := True\<rparr>, sw_running := True\<rparr>"
  note state = a_def b_def c_def d_def seen_no_worker_def starters_init_def Server_init_def ensure_clear_def ensure_assign_def
  have s1: "start_step J False seen_no_worker a"
    using start_step.test [of "seen_no_worker :: ('k, 'j) starters" 1 False Clearing J]
    by (simp add: state ensure_test_def)
  have s2: "start_step J False a b"
    unfolding b_def by (rule start_step.clear) (simp add: a_def)
  have s3: "start_step J False b c"
    unfolding c_def by (rule start_step.clear) (simp add: b_def a_def)
  have s4: "start_step J False c d"
    unfolding d_def by (rule start_step.assign) (simp_all add: state)
  have s5: "start_step J False d (d\<lparr>sw_terminated := True\<rparr>)"
    by (rule start_step.terminate [of _ 1]) (simp_all add: state)
  have "(start_step J False)\<^sup>*\<^sup>* (starters_init Server_init) (d\<lparr>sw_terminated := True\<rparr>)"
    by (rule converse_rtranclp_into_rtranclp, rule seen_no_worker_step)
      (rule converse_rtranclp_into_rtranclp, rule s1, rule converse_rtranclp_into_rtranclp, rule s2,
       rule converse_rtranclp_into_rtranclp, rule s3, rule converse_rtranclp_into_rtranclp, rule s4,
       rule r_into_rtranclp, rule s5)
  then show ?thesis
    by (intro exI [of _ "d\<lparr>sw_terminated := True\<rparr>"]) simp
qed

end
