(* ===== verification/Fb_Waits.thy ===== *)
theory Fb_Waits
  imports Fb_Transport
begin

text \<open>
  Which thread waits for which. The operations of the library are reduced to the actions that can
  block or unblock a thread: the two mutexes that are held across a wait (\<open>mutex_\<close> of the helper and
  \<open>cleanup_mtx\<close> of the gateway), the joins, the wait for an answer, and what answers it. The other
  mutexes protect sections in which nothing waits. A thread that runs no operation is idle; event
  callbacks run on the notification worker, the close handler on the websocket thread. A worker that
  is told to stop stops once it is idle, unless it misses the stop: the wake-up that \<open>stop_can_lose_wakeup\<close>
  loses and the flag that \<open>subscribe_can_undo_stop\<close> clears make it deaf. The websocket loop ends when
  it has been stopped and no handler runs.
\<close>

section \<open>Threads and actions\<close>

datatype thr = App nat | Ws | Msg | Note | Dog

datatype mtx = HelperMtx | CleanupMtx

datatype act =
    Lock mtx
  | Unlock mtx
  | Ask \<comment> \<open>\<open>Client::request\<close>: refused at once unless connected\<close>
  | Await \<comment> \<open>\<open>future.get()\<close>\<close>
  | AwaitFor \<comment> \<open>\<open>future.wait_for(timeout)\<close>\<close>
  | StartNote \<comment> \<open>\<open>ensureNotificationWorkerStarted\<close>\<close>
  | StartWs \<comment> \<open>\<open>Transport::start\<close>\<close>
  | Dial \<comment> \<open>the state becomes \<open>Connecting\<close>\<close>
  | StartDog \<comment> \<open>start the watchdog unless it runs\<close>
  | SetStatus TransportState
  | Join thr
  | CancelAll

section \<open>Operations\<close>

definition invoke_acts :: "act list" where
  "invoke_acts = [Ask, Await]"

text \<open>\<open>upstream\<close>: whether the gateway has to tell the server.\<close>

definition upstream_acts :: "bool \<Rightarrow> act list" where
  "upstream_acts upstream = (if upstream then [Ask, AwaitFor] else [])"

definition subscribe_acts :: "bool \<Rightarrow> act list" where
  "subscribe_acts upstream = Lock HelperMtx # StartNote # upstream_acts upstream @ [Unlock HelperMtx]"

definition unsubscribe_acts :: "bool \<Rightarrow> act list" where
  "unsubscribe_acts upstream = Lock HelperMtx # upstream_acts upstream @ [Unlock HelperMtx]"

definition unsubscribeAll_acts :: "bool list \<Rightarrow> act list" where
  "unsubscribeAll_acts us = Lock HelperMtx # concat (map upstream_acts us) @ [Unlock HelperMtx]"

definition cleanup_acts :: "act list" where
  "cleanup_acts = [Lock CleanupMtx, Join Dog, CancelAll, Join Note, Unlock CleanupMtx]"

definition connect_acts :: "TransportState \<Rightarrow> bool \<Rightarrow> act list" where
  "connect_acts st dialled =
     (if st = Connected \<or> st = Connecting then []
      else (if st = NotStarted then [StartWs] else [])
        @ (if dialled then [Dial, Lock CleanupMtx, StartDog, Unlock CleanupMtx] else []))"

definition disconnect_acts :: "TransportState \<Rightarrow> act list" where
  "disconnect_acts st =
     (if st = NotStarted then [] else [Join Ws, Join Msg, SetStatus NotStarted]) @ cleanup_acts"

definition close_acts :: "act list" where
  "close_acts = SetStatus Disconnected # cleanup_acts"

section \<open>Steps\<close>

record waits =
  wt_todo :: "thr \<Rightarrow> act list"
  wt_owner :: "mtx \<Rightarrow> thr option"
  wt_open :: "thr set" \<comment> \<open>threads whose request is not answered\<close>
  wt_status :: TransportState
  wt_alive :: "thr set"
  wt_deaf :: "thr set" \<comment> \<open>workers that missed the stop they are being joined for\<close>

definition waits_init :: waits where
  "waits_init = \<lparr>wt_todo = (\<lambda>_. []), wt_owner = (\<lambda>_. None), wt_open = {}, wt_status = NotStarted, wt_alive = {},
     wt_deaf = {}\<rparr>"

text \<open>
  Whether the next action of thread \<open>t\<close> can be taken. A wait with a time limit ends by itself; joining
  itself does not block either, it throws.
\<close>

fun enabled :: "waits \<Rightarrow> thr \<Rightarrow> act \<Rightarrow> bool" where
  "enabled s t (Lock m) = (wt_owner s m = None)"
| "enabled s t Await = (t \<notin> wt_open s)"
| "enabled s t (Join u) = (u = t \<or> wt_todo s u = [] \<and> u \<notin> wt_deaf s)"
| "enabled s t _ = True"

text \<open>The exception of a thread that joins itself abandons the operation and releases its locks.\<close>

definition abandon :: "thr \<Rightarrow> waits \<Rightarrow> waits" where
  "abandon t s = s\<lparr>wt_todo := (wt_todo s)(t := []),
     wt_owner := (\<lambda>m. if wt_owner s m = Some t then None else wt_owner s m)\<rparr>"

fun effect :: "thr \<Rightarrow> act \<Rightarrow> waits \<Rightarrow> waits" where
  "effect t (Lock m) s = s\<lparr>wt_owner := (wt_owner s)(m := Some t)\<rparr>"
| "effect t (Unlock m) s = s\<lparr>wt_owner := (wt_owner s)(m := None)\<rparr>"
| "effect t Ask s = (if wt_status s = Connected then s\<lparr>wt_open := insert t (wt_open s)\<rparr> else s)"
| "effect t Await s = s"
| "effect t AwaitFor s = s\<lparr>wt_open := wt_open s - {t}\<rparr>"
| "effect t StartNote s = s\<lparr>wt_alive := insert Note (wt_alive s)\<rparr>"
| "effect t StartWs s = s\<lparr>wt_status := Disconnected, wt_alive := insert Ws (insert Msg (wt_alive s))\<rparr>"
| "effect t Dial s = s\<lparr>wt_status := Connecting\<rparr>"
| "effect t StartDog s = s\<lparr>wt_alive := insert Dog (wt_alive s)\<rparr>"
| "effect t (SetStatus st) s = s\<lparr>wt_status := st\<rparr>"
| "effect t (Join u) s = (if u = t then abandon t s else s\<lparr>wt_alive := wt_alive s - {u}\<rparr>)"
| "effect t CancelAll s = s\<lparr>wt_open := {}\<rparr>"

definition pop :: "thr \<Rightarrow> act list \<Rightarrow> waits \<Rightarrow> waits" where
  "pop t as s = s\<lparr>wt_todo := (wt_todo s)(t := as)\<rparr>"

text \<open>The steps that are bound to come: a thread goes on, or the watchdog times a request out.\<close>

inductive progress :: "waits \<Rightarrow> waits \<Rightarrow> bool" where
  go_on: "wt_todo s t = a # as \<Longrightarrow> enabled s t a \<Longrightarrow> progress s (effect t a (pop t as s))"
| time_out: "t \<in> wt_open s \<Longrightarrow> Dog \<in> wt_alive s \<Longrightarrow> progress s (s\<lparr>wt_open := wt_open s - {t}\<rparr>)"

text \<open>
  All steps; \<open>may_start s t as\<close> says which operations an idle thread may begin. The connection opens or
  closes on the websocket thread between its handlers, and a reply may come at any time. With
  \<open>misses\<close> a worker that is being joined may miss its stop; a spurious wake-up may let it hear again.
\<close>

inductive wait_step :: "(waits \<Rightarrow> thr \<Rightarrow> act list \<Rightarrow> bool) \<Rightarrow> bool \<Rightarrow> waits \<Rightarrow> waits \<Rightarrow> bool" for may_start misses where
  progressed: "progress s s' \<Longrightarrow> wait_step may_start misses s s'"
| started: "wt_todo s t = [] \<Longrightarrow> may_start s t as \<Longrightarrow> wait_step may_start misses s (pop t as s)"
| opened: "wt_todo s Ws = [] \<Longrightarrow> Ws \<in> wt_alive s \<Longrightarrow> wt_status s = Connecting \<Longrightarrow>
    wait_step may_start misses s (s\<lparr>wt_status := Connected\<rparr>)"
| closed: "wt_todo s Ws = [] \<Longrightarrow> Ws \<in> wt_alive s \<Longrightarrow> wt_status s = Connecting \<or> wt_status s = Connected \<Longrightarrow>
    wait_step may_start misses s (pop Ws close_acts s)"
| replied: "t \<in> wt_open s \<Longrightarrow> wait_step may_start misses s (s\<lparr>wt_open := wt_open s - {t}\<rparr>)"
| missed: "misses \<Longrightarrow> u = Msg \<or> u = Note \<Longrightarrow> wt_todo s t = Join u # as \<Longrightarrow>
    wait_step may_start misses s (s\<lparr>wt_deaf := insert u (wt_deaf s)\<rparr>)"
| heard: "wait_step may_start misses s (s\<lparr>wt_deaf := wt_deaf s - {u}\<rparr>)"

text \<open>
  The rules of use: callbacks and application threads call the helper; one thread, \<open>App 0\<close>, connects
  and disconnects, and it does not connect again before the close handler has returned.
\<close>

definition helper_op :: "act list \<Rightarrow> bool" where
  "helper_op as \<longleftrightarrow> as = invoke_acts \<or> (\<exists>up. as = subscribe_acts up \<or> as = unsubscribe_acts up)
     \<or> (\<exists>us. as = unsubscribeAll_acts us)"

fun by_the_rules :: "waits \<Rightarrow> thr \<Rightarrow> act list \<Rightarrow> bool" where
  "by_the_rules s (App n) as =
     (helper_op as
      \<or> n = 0 \<and> as = disconnect_acts (wt_status s)
      \<or> n = 0 \<and> wt_todo s Ws = [] \<and> (\<exists>dialled. as = connect_acts (wt_status s) dialled))"
| "by_the_rules s Note as = (Note \<in> wt_alive s \<and> helper_op as)"
| "by_the_rules s _ as = False"

section \<open>The shape of what is left to do\<close>

text \<open>What is left of a helper operation that holds the helper's mutex.\<close>

fun locked :: "act list \<Rightarrow> bool" where
  "locked [] = False"
| "locked [a] = (a = Unlock HelperMtx)"
| "locked (a # as) = ((a = StartNote \<or> a = Ask \<or> a = AwaitFor) \<and> locked as)"

definition helping :: "act list \<Rightarrow> bool" where
  "helping as \<longleftrightarrow> as = [] \<or> as = [Await] \<or> as = [Ask, Await] \<or> locked as \<or> (\<exists>r. as = Lock HelperMtx # r \<and> locked r)"

definition cleaning :: "act list \<Rightarrow> bool" where
  "cleaning as \<longleftrightarrow> as = cleanup_acts \<or> as = [Join Dog, CancelAll, Join Note, Unlock CleanupMtx]
     \<or> as = [CancelAll, Join Note, Unlock CleanupMtx] \<or> as = [Join Note, Unlock CleanupMtx] \<or> as = [Unlock CleanupMtx]"

definition dialling :: "act list \<Rightarrow> bool" where
  "dialling as \<longleftrightarrow> as = [StartWs] \<or> as = [StartDog, Unlock CleanupMtx]
     \<or> (\<exists>r. r = [Lock CleanupMtx, StartDog, Unlock CleanupMtx] \<and> (as = r \<or> as = Dial # r \<or> as = StartWs # Dial # r))"

definition leaving :: "act list \<Rightarrow> bool" where
  "leaving as \<longleftrightarrow> (\<exists>r. r = SetStatus NotStarted # cleanup_acts \<and> (as = r \<or> as = Join Msg # r \<or> as = Join Ws # Join Msg # r))"

definition shape :: "thr \<Rightarrow> act list \<Rightarrow> bool" where
  "shape t as \<longleftrightarrow>
     (case t of
        App n \<Rightarrow> helping as \<or> n = 0 \<and> (cleaning as \<or> dialling as \<or> leaving as)
      | Note \<Rightarrow> helping as
      | Ws \<Rightarrow> as = [] \<or> as = close_acts \<or> cleaning as
      | _ \<Rightarrow> as = [])"

lemmas shape_defs = shape_def helping_def cleaning_def dialling_def leaving_def close_acts_def cleanup_acts_def

definition holds :: "mtx \<Rightarrow> act list \<Rightarrow> bool" where
  "holds m as \<longleftrightarrow> Unlock m \<in> set as \<and> Lock m \<notin> set as"

lemma holds_Nil [simp]: "\<not> holds m []"
  by (simp add: holds_def)

lemma locked_step [simp]: "locked (a # as) \<longleftrightarrow> (a = StartNote \<or> a = Ask \<or> a = AwaitFor) \<and> locked as" if "as \<noteq> []"
  using that by (cases as) auto

lemma locked_upstream [simp]: "locked (upstream_acts up @ as) \<longleftrightarrow> locked as" if "as \<noteq> []"
  using that by (cases as) (auto simp: upstream_acts_def)

lemma locked_upstreams [simp]: "locked (concat (map upstream_acts us) @ as) \<longleftrightarrow> locked as" if "as \<noteq> []"
  using that by (induction us) (auto)

lemma helper_op_helping: "helper_op as \<Longrightarrow> helping as"
  by (auto simp: helper_op_def helping_def invoke_acts_def subscribe_acts_def unsubscribe_acts_def
      unsubscribeAll_acts_def)

lemma connect_acts_shape: "\<not> helping (connect_acts st d) \<Longrightarrow> dialling (connect_acts st d)"
  by (auto simp: connect_acts_def dialling_def helping_def)

lemma disconnect_acts_shape: "\<not> cleaning (disconnect_acts st) \<Longrightarrow> leaving (disconnect_acts st)"
  by (auto simp: disconnect_acts_def cleaning_def leaving_def)

lemma by_the_rules_shape: "by_the_rules s t as \<Longrightarrow> shape t as"
  by (cases "(s, t, as)" rule: by_the_rules.cases)
    (auto simp: shape_def helper_op_helping intro: connect_acts_shape disconnect_acts_shape)

lemma locked_set: "locked as \<Longrightarrow> set as \<subseteq> {StartNote, Ask, AwaitFor, Unlock HelperMtx} \<and> Unlock HelperMtx \<in> set as"
  by (induction as rule: locked.induct) auto

lemma locked_Cons: "locked (a # as) \<Longrightarrow>
    a = Unlock HelperMtx \<and> as = [] \<or> (a = StartNote \<or> a = Ask \<or> a = AwaitFor) \<and> locked as"
  by (cases as) auto

lemma locked_holds: "locked as \<Longrightarrow> holds m as \<longleftrightarrow> m = HelperMtx"
  using locked_set [of as] by (cases m) (auto simp: holds_def)

lemma shape_Cons: "shape t (a # as) \<Longrightarrow> shape t as"
  by (cases t) (auto simp: shape_defs dest: locked_Cons)

text \<open>What is left is part of a helper operation or one of finitely many tails of the others.\<close>

definition admin_todos :: "act list list" where
  "admin_todos = [close_acts, SetStatus NotStarted # cleanup_acts, Join Msg # SetStatus NotStarted # cleanup_acts,
     Join Ws # Join Msg # SetStatus NotStarted # cleanup_acts,
     cleanup_acts, [Join Dog, CancelAll, Join Note, Unlock CleanupMtx], [CancelAll, Join Note, Unlock CleanupMtx],
     [Join Note, Unlock CleanupMtx], [Unlock CleanupMtx],
     [StartWs], [StartWs, Dial, Lock CleanupMtx, StartDog, Unlock CleanupMtx],
     [Dial, Lock CleanupMtx, StartDog, Unlock CleanupMtx],
     [Lock CleanupMtx, StartDog, Unlock CleanupMtx], [StartDog, Unlock CleanupMtx]]"

lemma shape_cases:
  assumes "shape t as"
  obtains "helping as" | "as \<in> set admin_todos" "t = App 0 \<or> t = Ws"
  using assms by (cases t) (auto simp: shape_def cleaning_def dialling_def leaving_def admin_todos_def helping_def [of "[]"])

lemma helping_set:
  assumes "helping as"
  shows "set as \<subseteq> {Lock HelperMtx, Await, StartNote, Ask, AwaitFor, Unlock HelperMtx}"
  using assms locked_set by (fastforce simp: helping_def)

lemma locked_Cons_holds: "locked (a # as) \<Longrightarrow> holds m as \<longleftrightarrow> m = HelperMtx \<and> a \<noteq> Unlock m"
  using locked_Cons [of a as] locked_holds [of as m] by auto

lemma helping_holds: "helping (a # as) \<Longrightarrow> holds m as \<longleftrightarrow> a = Lock m \<or> holds m (a # as) \<and> a \<noteq> Unlock m"
  unfolding helping_def
  using locked_Cons_holds [of a as m] locked_holds [of "a # as" m] locked_set [of "a # as"] locked_holds [of as m]
  by (elim disjE exE) (auto simp: holds_def)

lemma admin_holds: "a # as \<in> set admin_todos \<Longrightarrow>
    holds m as \<longleftrightarrow> a = Lock m \<or> holds m (a # as) \<and> a \<noteq> Unlock m"
  by (auto simp: admin_todos_def close_acts_def cleanup_acts_def holds_def)

lemma shape_holds: "shape t (a # as) \<Longrightarrow> holds m as \<longleftrightarrow> a = Lock m \<or> holds m (a # as) \<and> a \<noteq> Unlock m"
  by (erule shape_cases) (auto simp: helping_holds admin_holds)

section \<open>The invariant\<close>

text \<open>
  A connection is active, or its end is being cleaned up after. While it is active some thread will
  answer every open request: the watchdog, or a clean-up, or the connect that is about to start the
  watchdog. A clean-up that has cancelled the requests finds none when it joins the callbacks.
\<close>

abbreviation active :: "TransportState \<Rightarrow> bool" where
  "active st \<equiv> st = Connecting \<or> st = Connected"

definition tearing :: "act list \<Rightarrow> bool" where
  "tearing as \<longleftrightarrow> Join Note \<in> set as \<and> (\<forall>st. SetStatus st \<notin> set as)"

definition wt_locks :: "waits \<Rightarrow> bool" where
  "wt_locks s \<longleftrightarrow> (\<forall>m t. wt_owner s m = Some t \<longleftrightarrow> holds m (wt_todo s t))"

definition wt_teardown :: "waits \<Rightarrow> bool" where
  "wt_teardown s \<longleftrightarrow>
     (\<forall>t. tearing (wt_todo s t) \<longrightarrow> \<not> active (wt_status s))
   \<and> (\<forall>t. Dial \<in> set (wt_todo s t) \<longrightarrow> \<not> active (wt_status s) \<and> wt_todo s Ws = [])
   \<and> (\<forall>t. Join Note \<in> set (wt_todo s t) \<and> CancelAll \<notin> set (wt_todo s t) \<longrightarrow> wt_open s = {})"

definition wt_answered :: "waits \<Rightarrow> bool" where
  "wt_answered s \<longleftrightarrow>
     (wt_open s \<noteq> {} \<or> active (wt_status s)) \<and> Dog \<notin> wt_alive s \<longrightarrow>
     (\<exists>t. StartDog \<in> set (wt_todo s t) \<or> CancelAll \<in> set (wt_todo s t))"

definition wt_inv :: "waits \<Rightarrow> bool" where
  "wt_inv s \<longleftrightarrow> (\<forall>t. shape t (wt_todo s t)) \<and> finite {t. wt_todo s t \<noteq> []} \<and> finite (wt_open s)
     \<and> wt_locks s \<and> wt_teardown s \<and> wt_answered s"

lemma pop_simps [simp]:
  "wt_todo (pop t as s) = (wt_todo s)(t := as)" "wt_owner (pop t as s) = wt_owner s"
  "wt_open (pop t as s) = wt_open s" "wt_status (pop t as s) = wt_status s" "wt_alive (pop t as s) = wt_alive s"
  by (simp_all add: pop_def)

lemma shape_not_self: "shape t (a # as) \<Longrightarrow> a \<noteq> Join t"
  by (cases t) (auto simp: shape_defs dest: locked_Cons)

lemma shape_unlock: "shape t (Unlock m # as) \<Longrightarrow> holds m (Unlock m # as)"
  by (erule shape_cases)
    (auto simp: helping_def admin_todos_def close_acts_def cleanup_acts_def holds_def dest: locked_Cons)

lemma effect_todo: "a \<noteq> Join t \<Longrightarrow> wt_todo (effect t a s) = wt_todo s"
  by (cases a) auto

lemma effect_owner: "a \<noteq> Join t \<Longrightarrow> wt_owner (effect t a s) =
    (\<lambda>m. if a = Lock m then Some t else if a = Unlock m then None else wt_owner s m)"
  by (cases a) (auto simp: fun_eq_iff)

lemma progress_locks:
  assumes step: "wt_todo s t = a # as" "enabled s t a" and shape: "\<forall>t. shape t (wt_todo s t)" and locks: "wt_locks s"
  shows "wt_locks (effect t a (pop t as s))"
proof -
  have sh: "shape t (a # as)"
    using shape step(1) by metis
  note holds = shape_holds [OF sh] and self = shape_not_self [OF sh]
  have free: "\<not> holds m (wt_todo s u)" if "a = Lock m" for m u
    using step(2) that locks by (metis enabled.simps(1) option.distinct(1) wt_locks_def)
  have mine: "u = t" if "a = Unlock m" "holds m (wt_todo s u)" for m u
    using sh shape_unlock [of t m as] that locks step(1) by (metis option.inject wt_locks_def)
  show ?thesis
    using locks free mine step(1) unfolding wt_locks_def effect_todo [OF self] effect_owner [OF self]
    by (auto simp: holds split: if_splits) 
qed

lemma shape_heads:
  "shape t (Dial # as) \<Longrightarrow> t = App 0 \<and> as = [Lock CleanupMtx, StartDog, Unlock CleanupMtx]"
  "shape t (SetStatus st # as) \<Longrightarrow> \<not> active st \<and> CancelAll \<in> set as"
  "shape t (Join Dog # as) \<Longrightarrow> CancelAll \<in> set as"
  "shape t (CancelAll # as) \<Longrightarrow> as = [Join Note, Unlock CleanupMtx]"
  by (cases t; auto simp: shape_defs dest: locked_Cons)+

lemma shape_threads:
  "shape t as \<Longrightarrow> Join Note \<in> set as \<Longrightarrow> t = Ws \<or> t = App 0"
  "shape t as \<Longrightarrow> Dial \<in> set as \<Longrightarrow> t = App 0"
  by (cases t; auto simp: shape_def cleaning_def dialling_def leaving_def close_acts_def cleanup_acts_def
      dest!: helping_set)+

lemma shape_teardown: "shape t as \<Longrightarrow> Join Note \<in> set as \<Longrightarrow> CancelAll \<notin> set as \<Longrightarrow> tearing as"
  by (auto elim!: shape_cases simp: tearing_def admin_todos_def close_acts_def cleanup_acts_def dest!: helping_set)

lemma effect_status: "shape t (a # as) \<Longrightarrow> active (wt_status (effect t a s)) \<Longrightarrow> a = Dial \<or> active (wt_status s)"
  by (cases a) (auto simp: abandon_def dest: shape_heads split: if_splits)

lemma effect_open: "wt_open (effect t a s) \<subseteq> wt_open s \<or> a = Ask \<and> wt_status s = Connected"
  by (cases a) (auto simp: abandon_def)

lemma effect_dog: "Dog \<notin> wt_alive (effect t a s) \<Longrightarrow> Dog \<notin> wt_alive s \<or> a = Join Dog"
  by (cases a) (auto simp: abandon_def split: if_splits)

lemma wt_teardownD:
  assumes "wt_teardown s"
  shows "tearing (wt_todo s t) \<Longrightarrow> \<not> active (wt_status s)"
    and "Dial \<in> set (wt_todo s t) \<Longrightarrow> \<not> active (wt_status s) \<and> wt_todo s Ws = []"
    and "Join Note \<in> set (wt_todo s t) \<Longrightarrow> CancelAll \<notin> set (wt_todo s t) \<Longrightarrow> wt_open s = {}"
  using assms unfolding wt_teardown_def by blast+

lemma tearing_inactive:
  assumes step: "wt_todo s t = a # as" and shape: "\<forall>t. shape t (wt_todo s t)" and tear: "wt_teardown s"
    and tearing: "tearing (wt_todo (effect t a (pop t as s)) u)"
  shows "\<not> active (wt_status (effect t a (pop t as s)))"
proof
  let ?s = "pop t as s" and ?s' = "effect t a (pop t as s)"
  have sh: "shape t (a # as)"
    using shape step(1) by metis
  have todo: "wt_todo ?s' = (wt_todo s)(t := as)"
    by (simp add: effect_todo [OF shape_not_self [OF sh]])
  have shape': "shape u (wt_todo ?s' u)"
    using shape shape_Cons [OF sh] by (simp add: todo)
  assume "active (wt_status ?s')"
  then consider "a = Dial" | "active (wt_status s)" "\<And>st. a \<noteq> SetStatus st"
    using effect_status [OF sh, of ?s] shape_heads(2) sh by (cases a) auto
  then show False
  proof cases
    case 1
    then have "t = App 0 \<and> as = [Lock CleanupMtx, StartDog, Unlock CleanupMtx]"
      using shape_heads(1) sh by metis
    moreover have "wt_todo s Ws = []"
      using wt_teardownD(2) [OF tear, of t] step 1 by simp
    ultimately show False
      using shape_threads(1) [OF shape'] tearing unfolding tearing_def todo by (auto split: if_splits)
  next
    case 2
    then have "tearing (wt_todo s u)"
      using tearing step by (auto simp: tearing_def todo split: if_splits)
    then show False
      using 2 wt_teardownD(1) [OF tear] by blast
  qed
qed

lemma progress_teardown:
  assumes step: "wt_todo s t = a # as" and shape: "\<forall>t. shape t (wt_todo s t)" and tear: "wt_teardown s"
  shows "wt_teardown (effect t a (pop t as s))"
proof -
  have sh: "shape t (a # as)"
    using shape step(1) by metis
  let ?s = "pop t as s" and ?s' = "effect t a (pop t as s)"
  have todo: "wt_todo ?s' = (wt_todo s)(t := as)"
    by (simp add: effect_todo [OF shape_not_self [OF sh]])
  have shape': "shape u (wt_todo ?s' u)" for u
    using shape shape_Cons [OF sh] by (simp add: todo)
  note one = tearing_inactive [OF step shape tear]
  have two: "\<not> active (wt_status ?s') \<and> wt_todo ?s' Ws = []" if dial: "Dial \<in> set (wt_todo ?s' u)" for u
  proof -
    have u: "Dial \<in> set (wt_todo s u)"
      using dial step by (auto simp: todo split: if_splits)
    have "a \<noteq> Dial"
      using dial shape_heads(1) [of t as] sh shape_threads(2) [OF shape' dial] by (auto simp: todo)
    then show ?thesis
      using wt_teardownD(2) [OF tear u] step effect_status [OF sh, of ?s] by (auto simp: todo)
  qed
  have three: "wt_open ?s' = {}" if u: "Join Note \<in> set (wt_todo ?s' u)" "CancelAll \<notin> set (wt_todo ?s' u)" for u
  proof (cases "u = t \<and> a = CancelAll")
    case False
    then have "Join Note \<in> set (wt_todo s u)" "CancelAll \<notin> set (wt_todo s u)"
      using u step by (auto simp: todo split: if_splits)
    then have "wt_open s = {}" "\<not> active (wt_status s)"
      using shape_teardown shape wt_teardownD(1,3) [OF tear] by blast+
    then show ?thesis
      using effect_open [of t a ?s] by auto
  qed simp
  show ?thesis
    unfolding wt_teardown_def using one two three by blast
qed

lemma progress_answered:
  assumes step: "wt_todo s t = a # as" and shape: "\<forall>t. shape t (wt_todo s t)"
    and tear: "wt_teardown s" and ans: "wt_answered s"
  shows "wt_answered (effect t a (pop t as s))"
proof -
  have sh: "shape t (a # as)"
    using shape step(1) by metis
  let ?s = "pop t as s" and ?s' = "effect t a (pop t as s)"
  have todo: "wt_todo ?s' = (wt_todo s)(t := as)"
    by (simp add: effect_todo [OF shape_not_self [OF sh]])
  show ?thesis
    unfolding wt_answered_def
  proof (intro impI)
    assume now: "(wt_open ?s' \<noteq> {} \<or> active (wt_status ?s')) \<and> Dog \<notin> wt_alive ?s'"
    show "\<exists>u. StartDog \<in> set (wt_todo ?s' u) \<or> CancelAll \<in> set (wt_todo ?s' u)"
    proof (cases "StartDog \<in> set as \<or> CancelAll \<in> set as")
      case False
      then have a: "a \<noteq> Dial" "a \<noteq> Join Dog"
        using shape_heads(1,3) [of t as] sh by auto
      have dog: "a \<noteq> StartDog"
        using now by auto
      have cancel: "a \<noteq> CancelAll"
      proof
        assume "a = CancelAll"
        with sh have "tearing (wt_todo s t)"
          using shape_heads(4) [of t as] step by (simp add: tearing_def)
        then show False
          using \<open>a = CancelAll\<close> now wt_teardownD(1) [OF tear, of t] by simp
      qed
      have "(wt_open s \<noteq> {} \<or> active (wt_status s)) \<and> Dog \<notin> wt_alive s"
        using now effect_open [of t a ?s] effect_status [OF sh, of ?s] effect_dog [of t a ?s] a by auto
      then obtain u where "StartDog \<in> set (wt_todo s u) \<or> CancelAll \<in> set (wt_todo s u)"
        using ans unfolding wt_answered_def by blast
      then show ?thesis
        using False dog cancel step by (metis fun_upd_apply set_ConsD todo)
    qed (auto simp: todo)
  qed
qed

lemma effect_finite: "finite (wt_open s) \<Longrightarrow> finite (wt_open (effect t a s))"
  by (cases a) (auto simp: abandon_def)

lemma busy_finite: "finite {t. wt_todo s t \<noteq> []} \<Longrightarrow> finite {u. ((wt_todo s)(t := as)) u \<noteq> []}"
  by (rule finite_subset [of _ "insert t {t. wt_todo s t \<noteq> []}"]) (auto split: if_splits)

lemma fewer_open_inv:
  assumes "wt_inv s" "A \<subseteq> wt_open s"
  shows "wt_inv (s\<lparr>wt_open := A\<rparr>)"
  using assms by (auto simp: wt_inv_def wt_locks_def wt_teardown_def wt_answered_def dest: finite_subset)

lemma deaf_inv [simp]: "wt_inv (s\<lparr>wt_deaf := A\<rparr>) = wt_inv s"
  by (simp add: wt_inv_def wt_locks_def wt_teardown_def wt_answered_def)

lemma progress_inv:
  assumes "progress s s'" "wt_inv s"
  shows "wt_inv s'"
  using assms(1)
proof cases
  case (go_on t a as)
  have inv: "\<forall>t. shape t (wt_todo s t)" "finite {t. wt_todo s t \<noteq> []}" "finite (wt_open s)"
    "wt_locks s" "wt_teardown s" "wt_answered s"
    using assms(2) by (auto simp: wt_inv_def)
  have sh: "shape t (a # as)"
    using inv(1) go_on(2) by metis
  have todo: "wt_todo s' = (wt_todo s)(t := as)"
    using go_on(1) by (simp add: effect_todo [OF shape_not_self [OF sh]])
  have "\<forall>u. shape u (wt_todo s' u)"
    using inv(1) shape_Cons [OF sh] by (simp add: todo)
  moreover have "finite (wt_open s')"
    using inv(3) go_on(1) by (simp add: effect_finite)
  ultimately show ?thesis
    unfolding wt_inv_def todo
    using busy_finite [OF inv(2)] progress_locks [OF go_on(2,3) inv(1,4)] progress_teardown [OF go_on(2) inv(1,5)]
      progress_answered [OF go_on(2) inv(1,5,6)] go_on(1) todo by simp
next
  case (time_out t)
  then show ?thesis
    using assms(2) by (auto intro: fewer_open_inv)
qed

text \<open>Beginning an operation keeps the invariant: it holds no lock yet and waits for nothing.\<close>

lemma start_inv:
  assumes inv: "wt_inv s" and idle: "wt_todo s t = []" and shape: "shape t as" and unlocked: "\<And>m. \<not> holds m as"
    and tearing: "tearing as \<Longrightarrow> \<not> active (wt_status s)"
    and dial: "Dial \<in> set as \<Longrightarrow> \<not> active (wt_status s) \<and> wt_todo s Ws = [] \<and> t \<noteq> Ws"
    and ws: "t = Ws \<Longrightarrow> active (wt_status s)"
    and cancel: "Join Note \<in> set as \<Longrightarrow> CancelAll \<in> set as"
  shows "wt_inv (pop t as s)"
proof -
  have "wt_locks (pop t as s)"
    using inv idle unlocked by (auto simp: wt_inv_def wt_locks_def)
  moreover have "wt_teardown (pop t as s)"
  proof -
    note tear = wt_teardownD [of s]
    have t: "wt_teardown s"
      using inv by (simp add: wt_inv_def)
    have "\<not> active (wt_status s)" if "tearing (((wt_todo s)(t := as)) u)" for u
      using that tearing tear(1) [OF t, of u] by (cases "u = t") auto
    moreover have "\<not> active (wt_status s) \<and> ((wt_todo s)(t := as)) Ws = []" if "Dial \<in> set (((wt_todo s)(t := as)) u)" for u
      using that dial ws tear(2) [OF t, of u] by (cases "u = t") auto
    moreover have "wt_open s = {}"
      if "Join Note \<in> set (((wt_todo s)(t := as)) u)" "CancelAll \<notin> set (((wt_todo s)(t := as)) u)" for u
      using that cancel tear(3) [OF t, of u] by (cases "u = t") auto
    ultimately show ?thesis
      unfolding wt_teardown_def pop_simps by blast
  qed
  moreover have "wt_answered (pop t as s)"
    using inv idle unfolding wt_inv_def wt_answered_def pop_simps fun_upd_apply by (metis empty_iff list.set(1))
  ultimately show ?thesis
    using inv shape busy_finite [of s t as] by (simp add: wt_inv_def)
qed

lemma helping_start: "helper_op as \<Longrightarrow> \<not> holds m as"
  by (auto simp: helper_op_def holds_def invoke_acts_def subscribe_acts_def unsubscribe_acts_def
      unsubscribeAll_acts_def upstream_acts_def split: if_splits)

lemma rules_start_inv:
  assumes inv: "wt_inv s" and idle: "wt_todo s t = []" and rules: "by_the_rules s t as"
  shows "wt_inv (pop t as s)"
proof -
  have ws: "t \<noteq> Ws"
    using rules by auto
  consider "helper_op as" | "as = disconnect_acts (wt_status s)"
    | d where "as = connect_acts (wt_status s) d" "wt_todo s Ws = []"
    using rules by (cases t) auto
  then show ?thesis
  proof cases
    case 1
    then show ?thesis
      using inv idle by_the_rules_shape [OF rules] ws helping_start [OF 1] helping_set [OF helper_op_helping [OF 1]]
      by (intro start_inv) (auto simp: tearing_def)
  next
    case 2
    then show ?thesis
      using inv idle by_the_rules_shape [OF rules] ws
      by (intro start_inv) (auto simp: disconnect_acts_def cleanup_acts_def holds_def tearing_def split: if_splits)
  next
    case 3
    then show ?thesis
      using inv idle by_the_rules_shape [OF rules] ws
      by (intro start_inv) (auto simp: connect_acts_def holds_def tearing_def split: if_splits)
  qed
qed

lemma wait_step_inv:
  assumes "wait_step by_the_rules misses s s'" "wt_inv s"
  shows "wt_inv s'"
  using assms(1)
proof cases
  case progressed
  then show ?thesis using assms(2) by (rule progress_inv)
next
  case (started t as)
  then show ?thesis using assms(2) rules_start_inv by blast
next
  case opened
  then show ?thesis
    using assms(2) by (auto simp: wt_inv_def wt_locks_def wt_teardown_def wt_answered_def)
next
  case closed
  then show ?thesis
    using assms(2)
    by (auto intro!: start_inv simp: shape_def close_acts_def cleanup_acts_def holds_def tearing_def)
next
  case (replied t)
  then show ?thesis using assms(2) by (auto intro: fewer_open_inv)
qed (use assms(2) in simp_all)

lemma waits_init_inv: "wt_inv waits_init"
  by (auto simp: wt_inv_def waits_init_def shape_def helping_def wt_locks_def wt_teardown_def wt_answered_def tearing_def
      split: thr.split)

lemma reachable_wt_inv: "(wait_step by_the_rules misses)\<^sup>*\<^sup>* waits_init s \<Longrightarrow> wt_inv s"
  by (induction rule: rtranclp_induct) (auto intro: waits_init_inv wait_step_inv)

section \<open>No thread waits for ever\<close>

lemma go_on_possible: "wt_todo s t = a # as \<Longrightarrow> enabled s t a \<Longrightarrow> \<exists>s'. progress s s'"
  by (blast intro: progress.go_on)

text \<open>A state in which nothing goes on has no request that a watchdog could time out, and no lock is held.\<close>

lemma stuck_open: "\<nexists>s'. progress s s' \<Longrightarrow> wt_open s = {} \<or> Dog \<notin> wt_alive s"
  by (blast intro: progress.time_out)

lemma stuck_helper_mtx:
  assumes inv: "wt_inv s" and stuck: "\<nexists>s'. progress s s'"
  shows "wt_owner s HelperMtx = None"
proof (rule ccontr)
  assume "wt_owner s HelperMtx \<noteq> None"
  then obtain t where "holds HelperMtx (wt_todo s t)"
    using inv by (auto simp: wt_inv_def wt_locks_def)
  moreover have "shape t (wt_todo s t)"
    using inv by (simp add: wt_inv_def)
  ultimately have "locked (wt_todo s t)"
    by (auto elim!: shape_cases simp: helping_def holds_def admin_todos_def close_acts_def cleanup_acts_def)
  then obtain a as where "wt_todo s t = a # as" "a = Unlock HelperMtx \<or> a = StartNote \<or> a = Ask \<or> a = AwaitFor"
    using locked_Cons by (metis list.exhaust locked.simps(1))
  then show False
    using go_on_possible [of s t a as] stuck by auto
qed

lemma stuck_helping:
  assumes inv: "wt_inv s" and stuck: "\<nexists>s'. progress s s'" and helping: "helping (wt_todo s t)" and busy: "wt_todo s t \<noteq> []"
  shows "wt_todo s t = [Await] \<and> t \<in> wt_open s"
proof -
  obtain a as where todo: "wt_todo s t = a # as"
    using busy by (cases "wt_todo s t") auto
  have "\<not> enabled s t a"
    using go_on_possible [OF todo] stuck by blast
  then show ?thesis
    using helping stuck_helper_mtx [OF inv stuck] todo by (auto simp: helping_def dest: locked_Cons)
qed

lemma stuck_cleanup_mtx:
  assumes inv: "wt_inv s" and stuck: "\<nexists>s'. progress s s'" and hear: "wt_deaf s = {}"
  shows "wt_owner s CleanupMtx = None"
proof (rule ccontr)
  assume "wt_owner s CleanupMtx \<noteq> None"
  then obtain t where holds: "holds CleanupMtx (wt_todo s t)"
    using inv by (auto simp: wt_inv_def wt_locks_def)
  have shape: "shape u (wt_todo s u)" for u
    using inv by (simp add: wt_inv_def)
  have dog: "wt_todo s Dog = []" and cb: "helping (wt_todo s Note)"
    using shape [of Dog] shape [of Note] by (simp_all add: shape_def)
  have "wt_todo s t \<in> set [[Join Dog, CancelAll, Join Note, Unlock CleanupMtx], [CancelAll, Join Note, Unlock CleanupMtx],
      [Join Note, Unlock CleanupMtx], [Unlock CleanupMtx], [StartDog, Unlock CleanupMtx]]"
    using holds shape [of t]
    by (elim shape_cases) (auto simp: holds_def admin_todos_def close_acts_def cleanup_acts_def dest!: helping_set)
  then have "wt_todo s t = [Join Note, Unlock CleanupMtx]" "wt_todo s Note \<noteq> []"
    using go_on_possible [of s t] stuck dog hear by auto
  then show False
    using stuck_helping [OF inv stuck cb] inv by (auto simp: wt_inv_def dest: wt_teardownD(3) [of s t])
qed

lemma stuck_helps:
  assumes inv: "wt_inv s" and stuck: "\<nexists>s'. progress s s'" and hear: "wt_deaf s = {}"
  shows "helping (wt_todo s t)"
proof -
  have shape: "shape u (wt_todo s u)" for u
    using inv by (simp add: wt_inv_def)
  have unheld: "\<not> holds CleanupMtx (wt_todo s u)" for u
    using inv stuck_cleanup_mtx [OF inv stuck hear] by (metis option.distinct(1) wt_inv_def wt_locks_def)
  have "helping (wt_todo s Ws)"
    using shape [of Ws] unheld [of Ws] go_on_possible [of s Ws] stuck hear stuck_cleanup_mtx [OF inv stuck hear]
    by (auto simp: shape_defs holds_def)
  then have ws: "wt_todo s Ws = []"
    using shape [of Ws] helping_set by (fastforce simp: shape_def cleaning_def close_acts_def cleanup_acts_def)
  show ?thesis
  proof (rule shape_cases [OF shape [of t]])
    assume "wt_todo s t \<in> set admin_todos"
    then show ?thesis
      using unheld [of t] go_on_possible [of s t] stuck hear stuck_cleanup_mtx [OF inv stuck hear] ws shape [of Msg]
      by (auto simp: admin_todos_def close_acts_def cleanup_acts_def holds_def shape_def)
  qed
qed

lemma stuck_idle:
  assumes inv: "wt_inv s" and stuck: "\<nexists>s'. progress s s'" and hear: "wt_deaf s = {}"
  shows "wt_todo s t = []"
proof (rule ccontr)
  assume "wt_todo s t \<noteq> []"
  then have "wt_open s \<noteq> {}"
    using stuck_helping [OF inv stuck stuck_helps [OF inv stuck hear]] by blast
  then obtain u where "StartDog \<in> set (wt_todo s u) \<or> CancelAll \<in> set (wt_todo s u)"
    using stuck_open [OF stuck] inv by (auto simp: wt_inv_def wt_answered_def)
  then show False
    using helping_set [OF stuck_helps [OF inv stuck hear, of u]] by auto
qed

text \<open>Whoever is left when nothing goes on waits, directly or not, for a worker that missed its stop.\<close>

lemma stuck_deaf:
  assumes inv: "wt_inv s" and stuck: "\<nexists>s'. progress s s'" and busy: "wt_todo s t \<noteq> []"
  shows "\<exists>v u as. wt_todo s v = Join u # as \<and> u \<in> wt_deaf s"
proof (rule ccontr)
  assume none: "\<not> ?thesis"
  let ?h = "s\<lparr>wt_deaf := {}\<rparr>"
  have able: "enabled s v a" if "wt_todo s v = a # as" "enabled ?h v a" for v a as
    using that none by (cases a) auto
  have "\<not> progress ?h s'" for s'
  proof
    assume "progress ?h s'"
    then show False
      by cases (use able go_on_possible [of s] progress.time_out [of _ s] stuck in fastforce)+
  qed
  then have "\<nexists>s'. progress ?h s'"
    by blast
  from stuck_idle [of ?h, OF _ this, of t] inv busy show False by simp
qed

lemma effect_deaf [simp]: "wt_deaf (effect t a s) = wt_deaf s"
  by (cases a) (auto simp: abandon_def)

lemma pop_deaf [simp]: "wt_deaf (pop t as s) = wt_deaf s"
  by (simp add: pop_def)

lemma progress_deaf: "progress s s' \<Longrightarrow> wt_deaf s' = wt_deaf s"
  by (auto elim!: progress.cases)

lemma progresses_deaf: "progress\<^sup>*\<^sup>* s s' \<Longrightarrow> wt_deaf s' = wt_deaf s"
  by (induction rule: rtranclp_induct) (simp_all add: progress_deaf)

lemma reachable_hears: "(wait_step by_the_rules False)\<^sup>*\<^sup>* waits_init s \<Longrightarrow> wt_deaf s = {}"
  by (induction rule: rtranclp_induct) (auto simp: waits_init_def progress_deaf elim!: wait_step.cases)

text \<open>The work that is left bounds the number of steps: an action is worth one step, asking also one answer.\<close>

definition load :: "act list \<Rightarrow> nat" where
  "load as = sum_list (map (\<lambda>a. if a = Ask then 2 else 1) as)"

definition work :: "waits \<Rightarrow> nat" where
  "work s = (\<Sum>t | wt_todo s t \<noteq> []. load (wt_todo s t)) + card (wt_open s)"

lemma load_pop:
  assumes fin: "finite {t. wt_todo s t \<noteq> []}" and todo: "wt_todo s t = a # as"
  shows "(\<Sum>u | wt_todo s u \<noteq> []. load (wt_todo s u)) =
    (if a = Ask then 2 else 1) + (\<Sum>u | ((wt_todo s)(t := as)) u \<noteq> []. load (((wt_todo s)(t := as)) u))"
proof -
  let ?B = "{t. wt_todo s t \<noteq> []}" and ?f = "(wt_todo s)(t := as)"
  have "(\<Sum>u | ?f u \<noteq> []. load (?f u)) = (\<Sum>u\<in>?B. load (?f u))"
    using fin todo by (intro sum.mono_neutral_left) (auto simp: load_def split: if_splits)
  also have "\<dots> = load as + (\<Sum>u\<in>?B - {t}. load (wt_todo s u))"
    using fin todo by (subst sum.remove [of _ t]) (auto intro!: sum.cong)
  finally show ?thesis
    using fin todo by (subst sum.remove [of _ t]) (auto simp: load_def)
qed

lemma effect_card: "finite (wt_open s) \<Longrightarrow> card (wt_open (effect t a s)) \<le> card (wt_open s) + (if a = Ask then 1 else 0)"
  by (cases a) (auto simp: abandon_def card_insert_if intro: card_mono)

lemma progress_work:
  assumes "progress s s'" "wt_inv s"
  shows "work s' < work s"
  using assms(1)
proof cases
  case (go_on t a as)
  have fin: "finite {t. wt_todo s t \<noteq> []}" "finite (wt_open s)" and sh: "shape t (a # as)"
    using assms(2) go_on(2) unfolding wt_inv_def by (blast, blast, metis)
  then show ?thesis
    using load_pop [OF fin(1) go_on(2)] effect_card [of "pop t as s" t a] go_on(1)
    by (simp add: work_def effect_todo [OF shape_not_self [OF sh]] split: if_splits)
next
  case (time_out t)
  then show ?thesis
    using assms(2) card_Diff1_less [of "wt_open s" t] by (simp add: work_def wt_inv_def)
qed

lemma progress_steps:
  assumes "(progress ^^ k) s s'" "wt_inv s"
  shows "wt_inv s' \<and> k + work s' \<le> work s"
  using assms
proof (induction k arbitrary: s')
  case (Suc k)
  then obtain m where m: "(progress ^^ k) s m" "progress m s'"
    by auto
  then show ?case
    using Suc.IH [OF m(1)] Suc.prems(2) progress_inv [OF m(2)] progress_work [OF m(2)] by auto
qed simp

lemma progress_reaches_idle:
  assumes "wt_inv s" and "wt_deaf s = {}"
  shows "\<exists>s'. progress\<^sup>*\<^sup>* s s' \<and> (\<forall>t. wt_todo s' t = [])"
  using assms
proof (induction "work s" arbitrary: s rule: less_induct)
  case less
  show ?case
  proof (cases "\<exists>s'. progress s s'")
    case True
    then obtain m where m: "progress s m" ..
    then have "wt_deaf m = {}"
      using less.prems(2) progress_deaf by simp
    with less.hyps [OF progress_work [OF m less.prems(1)] progress_inv [OF m less.prems(1)]] m show ?thesis
      by (meson converse_rtranclp_into_rtranclp)
  next
    case False
    then show ?thesis
      using stuck_idle [OF less.prems(1) _ less.prems(2)] by blast
  qed
qed

text \<open>
  C6. No deadlock and no endless wait, under the rules of use: application threads and event callbacks
  call only the helper; one application thread connects and disconnects, and it does not connect while
  the close handler is running. Then, from whatever the threads have begun, the steps that are bound
  to come (threads going on, the watchdog timing requests out) are bounded in number. If no worker has
  missed its stop (\<open>wt_deaf s = {}\<close>, which is always so when workers hear the stop they are joined
  for), every thread has finished its operation when no such step is left, without any reply of the
  server. And in general, when threads are left over, one of them is joining a worker that has missed
  its stop: \<open>stop_can_lose_wakeup\<close> and \<open>subscribe_can_undo_stop\<close> are the only ways to hang.
\<close>

theorem no_deadlock:
  assumes "(wait_step by_the_rules misses)\<^sup>*\<^sup>* waits_init s"
  shows "(\<exists>n. \<forall>k s'. (progress ^^ k) s s' \<longrightarrow> k \<le> n)
     \<and> (\<not> misses \<longrightarrow> wt_deaf s = {})
     \<and> (wt_deaf s = {} \<longrightarrow>
          (\<forall>s'. progress\<^sup>*\<^sup>* s s' \<and> (\<nexists>s''. progress s' s'') \<longrightarrow> (\<forall>t. wt_todo s' t = []))
          \<and> (\<exists>s'. progress\<^sup>*\<^sup>* s s' \<and> (\<forall>t. wt_todo s' t = [])))
     \<and> (\<forall>s' t. progress\<^sup>*\<^sup>* s s' \<and> (\<nexists>s''. progress s' s'') \<and> wt_todo s' t \<noteq> [] \<longrightarrow>
          (\<exists>v u as. wt_todo s' v = Join u # as \<and> u \<in> wt_deaf s'))"
proof (intro conjI)
  note inv = reachable_wt_inv [OF assms]
  have inv': "wt_inv s'" if "progress\<^sup>*\<^sup>* s s'" for s'
    using progress_steps [OF _ inv] that by (metis rtranclp_imp_relpowp)
  show "\<exists>n. \<forall>k s'. (progress ^^ k) s s' \<longrightarrow> k \<le> n"
    using progress_steps [OF _ inv] by (intro exI [of _ "work s"]) force
  show "\<not> misses \<longrightarrow> wt_deaf s = {}"
    using assms reachable_hears by (cases misses) auto
  show "wt_deaf s = {} \<longrightarrow>
          (\<forall>s'. progress\<^sup>*\<^sup>* s s' \<and> (\<nexists>s''. progress s' s'') \<longrightarrow> (\<forall>t. wt_todo s' t = []))
          \<and> (\<exists>s'. progress\<^sup>*\<^sup>* s s' \<and> (\<forall>t. wt_todo s' t = []))"
    using stuck_idle [OF inv'] progresses_deaf progress_reaches_idle [OF inv] by (metis (no_types, lifting))
  show "\<forall>s' t. progress\<^sup>*\<^sup>* s s' \<and> (\<nexists>s''. progress s' s'') \<and> wt_todo s' t \<noteq> [] \<longrightarrow>
          (\<exists>v u as. wt_todo s' v = Join u # as \<and> u \<in> wt_deaf s')"
    using stuck_deaf [OF inv'] by blast
qed

section \<open>Schedules\<close>

text \<open>A run can be given as the list of its events.\<close>

datatype event = Go thr | Expire thr | Begin thr "act list" | Opens | Closes

fun can_play :: "(waits \<Rightarrow> thr \<Rightarrow> act list \<Rightarrow> bool) \<Rightarrow> event \<Rightarrow> waits \<Rightarrow> bool" where
  "can_play may_start (Go t) s = (wt_todo s t \<noteq> [] \<and> enabled s t (hd (wt_todo s t)))"
| "can_play may_start (Expire t) s = (t \<in> wt_open s \<and> Dog \<in> wt_alive s)"
| "can_play may_start (Begin t as) s = (wt_todo s t = [] \<and> may_start s t as)"
| "can_play may_start Opens s = (wt_todo s Ws = [] \<and> Ws \<in> wt_alive s \<and> wt_status s = Connecting)"
| "can_play may_start Closes s = (wt_todo s Ws = [] \<and> Ws \<in> wt_alive s \<and> active (wt_status s))"

fun play :: "event \<Rightarrow> waits \<Rightarrow> waits" where
  "play (Go t) s = effect t (hd (wt_todo s t)) (pop t (tl (wt_todo s t)) s)"
| "play (Expire t) s = s\<lparr>wt_open := wt_open s - {t}\<rparr>"
| "play (Begin t as) s = pop t as s"
| "play Opens s = s\<lparr>wt_status := Connected\<rparr>"
| "play Closes s = pop Ws close_acts s"

fun playable :: "(waits \<Rightarrow> thr \<Rightarrow> act list \<Rightarrow> bool) \<Rightarrow> event list \<Rightarrow> waits \<Rightarrow> bool" where
  "playable may_start [] s = True"
| "playable may_start (e # es) s = (can_play may_start e s \<and> playable may_start es (play e s))"

lemma play_step: "can_play may_start e s \<Longrightarrow> wait_step may_start misses s (play e s)"
  by (cases e) (auto intro: wait_step.intros progress.intros wait_step.progressed [OF progress.go_on] simp: neq_Nil_conv)

lemma playable_run: "playable may_start es s \<Longrightarrow> (wait_step may_start misses)\<^sup>*\<^sup>* s (fold play es s)"
  by (induction es arbitrary: s) (auto dest: play_step intro: converse_rtranclp_into_rtranclp)

lemmas acts_defs = invoke_acts_def upstream_acts_def subscribe_acts_def cleanup_acts_def connect_acts_def
  disconnect_acts_def close_acts_def

lemma helper_op_run: "helper_op [Ask, Await]" "helper_op [Lock HelperMtx, StartNote, Unlock HelperMtx]"
  unfolding helper_op_def acts_defs by auto

abbreviation connected_run :: "event list" where
  "connected_run \<equiv> Begin (App 0) (connect_acts NotStarted True) # replicate 5 (Go (App 0)) @ [Opens]
     @ Begin (App 1) (subscribe_acts False) # replicate 3 (Go (App 1))"

theorem no_deadlock_witness:
  "\<exists>s. s = fold play (connected_run @ [Begin (App 1) invoke_acts, Go (App 1), Closes, Go Ws,
        Begin (App 0) (disconnect_acts Disconnected)]) waits_init
    \<and> wt_todo s (App 1) = [Await] \<and> App 1 \<in> wt_open s \<and> wt_todo s Ws = cleanup_acts
    \<and> (\<exists>s'. progress\<^sup>*\<^sup>* s s' \<and> (\<forall>t. wt_todo s' t = []))"
proof -
  let ?es = "connected_run @ [Begin (App 1) invoke_acts, Go (App 1), Closes, Go Ws, Begin (App 0) (disconnect_acts Disconnected)]"
  have "playable by_the_rules ?es waits_init"
    by (simp add: numeral_nat waits_init_def helper_op_run ex_bool_eq acts_defs)
  then have run: "(wait_step by_the_rules False)\<^sup>*\<^sup>* waits_init (fold play ?es waits_init)"
    by (rule playable_run)
  have "wt_todo (fold play ?es waits_init) (App 1) = [Await] \<and> App 1 \<in> wt_open (fold play ?es waits_init)
      \<and> wt_todo (fold play ?es waits_init) Ws = cleanup_acts"
    by (simp add: numeral_nat waits_init_def acts_defs)
  then show ?thesis
    using no_deadlock [OF run] by blast
qed

text \<open>
  The rules of use do not exclude a missed stop: a \<open>disconnect()\<close> whose message worker misses it
  hangs in the join, and nothing that is bound to come ends it.
\<close>

lemma missed_stop_hangs:
  "\<exists>s. (wait_step by_the_rules True)\<^sup>*\<^sup>* waits_init s \<and> hd (wt_todo s (App 0)) = Join Msg \<and> Msg \<in> wt_deaf s
     \<and> (\<nexists>s'. progress s s')"
proof -
  let ?es = "connected_run @ [Begin (App 0) (disconnect_acts Connected), Go (App 0)]"
  let ?p = "fold play ?es waits_init"
  let ?s = "?p\<lparr>wt_deaf := insert Msg (wt_deaf ?p)\<rparr>"
  have "playable by_the_rules ?es waits_init"
    by (simp add: numeral_nat waits_init_def helper_op_run ex_bool_eq acts_defs)
  then have run: "(wait_step by_the_rules True)\<^sup>*\<^sup>* waits_init ?p"
    by (rule playable_run)
  have at: "wt_todo ?p = (\<lambda>_. [])(App 0 := Join Msg # SetStatus NotStarted # cleanup_acts)" "wt_open ?p = {}"
    by (simp_all add: numeral_nat waits_init_def acts_defs fun_eq_iff)
  then have "wait_step by_the_rules True ?p ?s"
    by (intro missed [where t = "App 0"]) simp_all
  with run have "(wait_step by_the_rules True)\<^sup>*\<^sup>* waits_init ?s"
    by (rule rtranclp.rtrancl_into_rtrancl)
  moreover have "\<nexists>s'. progress ?s s'"
    using at by (auto elim!: progress.cases split: if_splits)
  ultimately show ?thesis
    using at(1) by (intro exI [of _ ?s]) simp
qed

text \<open>Event callbacks that call \<open>disconnect()\<close>, and a \<open>connect()\<close> that does not wait for the close handler.\<close>

definition disconnecting_callbacks :: "waits \<Rightarrow> thr \<Rightarrow> act list \<Rightarrow> bool" where
  "disconnecting_callbacks s t as \<longleftrightarrow>
     by_the_rules s t as \<or> t = Note \<and> Note \<in> wt_alive s \<and> as = disconnect_acts (wt_status s)"

definition hasty_connects :: "waits \<Rightarrow> thr \<Rightarrow> act list \<Rightarrow> bool" where
  "hasty_connects s t as \<longleftrightarrow> by_the_rules s t as \<or> t = App 0 \<and> (\<exists>dialled. as = connect_acts (wt_status s) dialled)"

lemma mutual_join_stays:
  assumes "wait_step may_start misses s s'" "wt_todo s Note = Join Ws # as" "wt_todo s Ws = Join Note # bs"
  shows "wt_todo s' Note = Join Ws # as \<and> wt_todo s' Ws = Join Note # bs"
  using assms(1)
proof cases
  case progressed
  then show ?thesis
  proof cases
    case (go_on t a cs)
    then have "t \<noteq> Note" "t \<noteq> Ws"
      using assms(2,3) by auto
    then show ?thesis
      using go_on(1) assms(2,3) by (cases a) (auto simp: abandon_def)
  qed (use assms in auto)
qed (use assms in auto)

text \<open>
  C32. An event callback that calls \<open>disconnect()\<close> can hang the library for good: it runs on the
  notification worker and joins the websocket thread, whose close handler (run because of that very
  disconnect) joins the notification worker. From then on, whatever else happens, both stay blocked.
\<close>

theorem callback_disconnect_deadlocks:
  "\<exists>s. (wait_step disconnecting_callbacks False)\<^sup>*\<^sup>* waits_init s
    \<and> {s'. (wait_step disconnecting_callbacks True)\<^sup>*\<^sup>* s s'}
      \<subseteq> {s'. hd (wt_todo s' Note) = Join Ws \<and> hd (wt_todo s' Ws) = Join Note}"
proof -
  let ?es = "connected_run @ [Begin Note (disconnect_acts Connected), Closes, Go Ws, Go Ws, Go Ws, Go Ws]"
  let ?s = "fold play ?es waits_init"
  have "playable disconnecting_callbacks ?es waits_init"
    by (simp add: numeral_nat waits_init_def disconnecting_callbacks_def helper_op_run ex_bool_eq acts_defs)
  then have run: "(wait_step disconnecting_callbacks False)\<^sup>*\<^sup>* waits_init ?s"
    by (rule playable_run)
  have blocked: "\<exists>as. wt_todo ?s Note = Join Ws # as" "\<exists>bs. wt_todo ?s Ws = Join Note # bs"
    by (simp_all add: numeral_nat waits_init_def acts_defs)
  have "(\<exists>as. wt_todo s' Note = Join Ws # as) \<and> (\<exists>bs. wt_todo s' Ws = Join Note # bs)"
    if "(wait_step disconnecting_callbacks True)\<^sup>*\<^sup>* ?s s'" for s'
    using that by (induction rule: rtranclp_induct) (use blocked mutual_join_stays in blast)+
  then show ?thesis
    using run by (intro exI [of _ ?s]) fastforce
qed

text \<open>
  C33. A \<open>connect()\<close> that comes after the close handler has set the state to \<open>Disconnected\<close> but before its
  clean-up finds the old watchdog running and starts none; the clean-up then stops the old one. The new
  connection has no watchdog: a request on it that is not answered blocks its caller, and nothing the
  library does will end the wait.
\<close>

theorem reconnect_during_close_loses_watchdog:
  "\<exists>s. (wait_step hasty_connects False)\<^sup>*\<^sup>* waits_init s \<and> wt_status s = Connected \<and> Dog \<notin> wt_alive s
    \<and> App 1 \<in> wt_open s \<and> wt_todo s = (\<lambda>_. [])(App 1 := [Await]) \<and> (\<nexists>s'. progress s s')"
proof -
  let ?es = "connected_run @ [Closes, Go Ws, Begin (App 0) (connect_acts Disconnected True)] @ replicate 4 (Go (App 0))
    @ replicate 5 (Go Ws) @ [Opens, Begin (App 1) invoke_acts, Go (App 1)]"
  let ?s = "fold play ?es waits_init"
  have "playable hasty_connects ?es waits_init"
    by (simp add: numeral_nat waits_init_def hasty_connects_def helper_op_run ex_bool_eq acts_defs)
  then have run: "(wait_step hasty_connects False)\<^sup>*\<^sup>* waits_init ?s"
    by (rule playable_run)
  have at: "wt_status ?s = Connected" "Dog \<notin> wt_alive ?s" "App 1 \<in> wt_open ?s" "wt_todo ?s = (\<lambda>_. [])(App 1 := [Await])"
    by (simp_all add: numeral_nat waits_init_def acts_defs fun_eq_iff)
  then have "\<nexists>s'. progress ?s s'"
    by (auto elim!: progress.cases split: if_splits)
  then show ?thesis
    using run at by blast
qed

end
