(* ===== verification/Spec2Isabelle.thy ===== *)
theory Spec2Isabelle
  imports Fb_Managers Fb_Upstream Fb_Singletons Fb_Worker_Start Fb_Waits
begin

text \<open>
  Verification of the Firebolt C++ transport library.

  \<^bold>\<open>The program.\<close> An application talks to a Firebolt gateway over a websocket in JSON-RPC 2.0.
  From the bottom: \<open>Transport\<close> (\<open>src/transport.cpp\<close>) keeps the connection, a queue of received
  payloads with a worker thread, the message ids and the response headers. \<open>Client\<close>
  (\<open>src/gateway.cpp\<close>) keeps the table of pending requests and their promises. \<open>Server\<close>
  (same file) keeps the event subscribers and a queue of notifications with a second worker.
  \<open>GatewayImpl\<close> composes the three, runs the watchdog that times requests out, routes incoming
  messages and reacts to connection changes. \<open>HelperImpl\<close>, \<open>IHelper\<close> and \<open>SubscriptionManager\<close>
  (\<open>src/helpers_impl.h\<close>, \<open>src/helpers_impl.cpp\<close>, \<open>include/firebolt/helpers.h\<close>) are the typed
  calls and subscriptions above it. \<open>Logger\<close> (\<open>src/logger.cpp\<close>), \<open>buildGatewayUrl\<close>
  (\<open>src/utils.cpp\<close>), the value types (\<open>include/firebolt/types.h\<close>, \<open>config.h.in\<close>,
  \<open>json_types.h\<close>) serve all of them.

  \<^bold>\<open>The theories.\<close>

  \<^item> \<open>Fb_Prelude\<close>: machine types, C++ exceptions, \<open>std::string\<close> searches, \<open>std::map\<close> as an ordered
    list of pairs (locale \<open>ordered_map\<close>).
  \<^item> \<open>Fb_Types\<close>, \<open>Fb_Json\<close>: \<open>Error\<close>, \<open>LogLevel\<close>, \<open>Result\<close>, \<open>Config\<close>; the JSON package as the record
    \<open>json_api\<close> with its documented behaviour as the locale \<open>json_lib\<close> and a full instance
    \<open>ref_json\<close>; the readers of \<open>json_types.h\<close>.
  \<^item> \<open>Fb_Url\<close>: \<open>buildGatewayUrl\<close> and the two redactions of a URL before it is logged.
  \<^item> \<open>Fb_Worker\<close>: the protocol both worker threads follow (locale \<open>queue_worker\<close>).
  \<^item> \<open>Fb_Worker_Threads\<close>: the same protocol with its sections interleaved: the worker around its
    mutex and condition variable, any number of producers, the stopping thread (\<open>wstep\<close>, locale
    \<open>threaded_worker\<close>).
  \<^item> \<open>Fb_Client\<close>: \<open>class Client\<close>, one definition per critical section and the whole operations
    made of them; the locale \<open>client_transport\<close> is \<open>IClientTransport\<close>.
  \<^item> \<open>Fb_Transport\<close>: \<open>class Transport\<close> with the websocket library as the record \<open>ws_api\<close>; the
    interpretations \<open>mw\<close> and \<open>ct\<close> discharge the two locales for it; reachable states.
  \<^item> \<open>Fb_Client_Threads\<close>: the same critical sections interleaved by any number of threads, as the
    step relation \<open>cstep\<close>.
  \<^item> \<open>Fb_Client_Spec\<close>: what the request table promises: the abstract table \<open>rpc_table\<close> its operations
    refine, and the specification \<open>rpc_step\<close> (ask under a free id, settle, answer once) that every
    critical section of every thread refines.
  \<^item> \<open>Fb_Server\<close>: \<open>class Server\<close>; \<open>nw\<close> interprets the worker protocol, \<open>es\<close> the locale
    \<open>event_registry\<close> the gateway relies on.
  \<^item> \<open>Fb_Logger\<close>: levels, environment, the log file's path, the line in its fixed buffers, with the
    sizes in \<open>size_t\<close> arithmetic and every access outside an array as \<open>None\<close>.
  \<^item> \<open>Fb_Gateway\<close>: \<open>GatewayImpl\<close>; what the library's threads do is \<open>gw_event\<close>, a call that waits
    takes the list of events during its wait, \<open>disconnect\<close> those (\<open>io_event\<close>) of the websocket thread
    and the message worker until both are joined; invariant \<open>gateway_inv\<close>. The destructor is modelled
    with the order in which the members are destroyed.
  \<^item> \<open>Fb_Gateway_Reach\<close>: its reachable states (the websocket library may answer differently in every
    step). The locales \<open>client_steps\<close> and \<open>client_invariant\<close> lift a property of the request table to
    all of them; they are interpreted on \<open>accounted\<close> (every promise is answered or queued) and
    \<open>results_wf\<close> (every answer is well formed).
  \<^item> \<open>Fb_Gateway_Props\<close>: the properties of the gateway.
  \<^item> \<open>Fb_Helpers\<close>: the helper layer over the locale \<open>igateway\<close>, interpreted (\<open>ig\<close>) on the gateway. The
    notification worker locks a subscription and calls the application in two sections, between which
    anything may happen (\<open>notified_step\<close>).
  \<^item> \<open>Fb_Helper_System\<close>: helper and gateway together (locale \<open>helper_gateway\<close>, interpreted as \<open>hg\<close>).
  \<^item> \<open>Fb_Races\<close>: the interleaved protocol on the message worker (\<open>mt\<close>) and the notification worker
    (\<open>nt\<close>).
  \<^item> \<open>Fb_Upstream\<close>: the texts on the wire against the listeners of each event.
  \<^item> \<open>Fb_Managers\<close>: \<open>SubscriptionManager\<close>, several of which share the helper.
  \<^item> \<open>Fb_Singletons\<close>: the two function-local statics, the order in which they are constructed, and what
    their destructors do at \<open>exit\<close>.
  \<^item> \<open>Fb_Worker_Start\<close>: the sections of \<open>ensureNotificationWorkerStarted\<close> and \<open>stopNotificationWorker\<close>,
    interleaved (\<open>start_step\<close>), with and without the helper's mutex around the subscribers.
  \<^item> \<open>Fb_Waits\<close>: every operation reduced to what it waits for and what it releases (the two mutexes
    held across a wait, joins, answers), run by all threads together (\<open>wait_step\<close>); \<open>by_the_rules\<close>
    says which thread may begin which operation, and a worker may miss the stop it is joined for.
  \<^item> this theory: a request and its reply through every layer, that a call always returns, and that
    what is on the wire reads back as the request whose caller is in the table.

  \<^bold>\<open>What is shown.\<close> Requests: ids are distinct until the 32-bit counter wraps, a reply goes to the
  request with its id and to no other, a timeout, a lost connection and \<open>disconnect\<close> answer
  exactly what they should, no promise is set twice and none is lost under any interleaving
  (refinement), a call returns at the latest with the first watchdog pass after the wait time
  (liveness), and nothing the server sends can end the process. Subscriptions:
  \<open>subscribe\<close> is all or nothing at both levels, on an open connection the server is
  told of an event's first listener and of the last to leave and of no other (the conditions are
  those of \<open>one_upstream_subscription\<close>), a notification reaches exactly the
  subscribers of its event, in order, after \<open>unsubscribe\<close> the application is not
  called again but for the one call the worker may have been about to make, and the gateway never
  keeps a listener the helper has let go. Threads: they run exactly while the connection state
  says so, the workers drain their queues before they stop, queued messages are neither lost nor
  reordered under any interleaving, and where a stop can hang or strand a notification. The
  threads together cannot deadlock as long as event callbacks only use the helper and one thread
  connects and disconnects and every worker hears its stop (\<open>no_deadlock\<close>);
  \<open>callback_disconnect_deadlocks\<close>,
  \<open>reconnect_during_close_loses_watchdog\<close> and \<open>subscribe_can_undo_stop\<close>
  show what happens outside these rules, and with \<open>stop_can_lose_wakeup\<close> how a stop
  is missed. Objects: a manager's destructor takes away exactly its own subscriptions, and at exit
  the helper goes before the gateway and no thread is left running (if no destructor throws).
  Logging: a line never overruns its buffer, a file path cannot escape its directory, and what is
  redacted.
  Some theorems record behaviour that is surprising rather than wanted; they are named so.

  \<^bold>\<open>Conventions.\<close> Time points are integers in nanoseconds. A \<open>std::promise\<close> is a number and the
  store of values is part of the client. A \<open>std::function\<close> kept for later is a reference
  number. Exceptions are values; \<open>Uncaught\<close> is an exception that leaves a thread's function or a
  destructor. \<open>close_documented\<close> is the one thing assumed of the websocket library: that
  \<open>get_con_from_hdl\<close>, on the handle \<open>disconnect\<close> closes, returns the connection or throws
  \<open>bad_weak_ptr\<close>, as the comment there says; \<open>close_exception_leaves_running\<close> shows what follows
  otherwise. \<open>json_lib\<close> and \<open>json_throws_std\<close> are the documented behaviour of the JSON package. The
  only fuel is in \<open>worker_run\<close>: one more pass than the queue is long, which \<open>run_drains\<close>
  shows to be enough. A blocking \<open>future.get()\<close> is \<open>None\<close> while nothing that is going to
  happen answers it. Integers keep their width where it matters (ids, error codes, log masks).

  \<^bold>\<open>Not modelled.\<close> The memory order of the atomics and the races inside one critical section; the
  effect of the application's callbacks on the library (they are calls out, in order; what they
  may wait for is in \<open>Fb_Waits\<close>); the retry policy fields of \<open>Config\<close>, which no code reads; the vendored websocketpp header, the
  build files and the generated version header; the tests. In the gateway model each step of a
  library thread (a handler of the websocket thread, one pass of a worker) is atomic; the request table (\<open>Fb_Client_Threads\<close>) and the two workers
  (\<open>Fb_Races\<close>, without spurious wake-ups), and the worker's way into a callback (\<open>Fb_Helpers\<close>) are the parts that are interleaved section by section.
  Socket and file operations are parameters. \<open>Fb_Waits\<close> leaves out the mutexes under which nothing
  waits; that a worker misses its stop is one step there, whose causes \<open>stop_can_lose_wakeup\<close> and
  \<open>subscribe_can_undo_stop\<close> show section by section.
\<close>

section \<open>A request and its reply, through every layer\<close>

lemma request_sent_eq:
  assumes "gateway_inv g" and "ids_left (gw_transport g)" and "tr_status (gw_transport g) = Connected"
    and "js_dump J (rpc_message J m p (tr_id_counter (gw_transport g) + 1)) = Inr wire"
    and "ws_send W (tr_connectionHandle (gw_transport g)) wire = 0"
  shows "Gateway_request J W m p None now g = (Inr (client_next (gw_client g)),
    g\<lparr>gw_client := snd (request_enqueue (tr_id_counter (gw_transport g) + 1) m now (gw_client g)),
      gw_transport := (gw_transport g)\<lparr>tr_id_counter := tr_id_counter (gw_transport g) + 1, tr_wire := tr_wire (gw_transport g) @ [wire]\<rparr>\<rparr>)"
proof -
  let ?i = "tr_id_counter (gw_transport g) + 1"
  have n: "Transport_getNextMessageID (gw_transport g) = (?i, (gw_transport g)\<lparr>tr_id_counter := ?i\<rparr>)"
    by (simp add: Transport_getNextMessageID_def)
  have wf: "client_wf (gw_client g)" using assms(1) by (simp add: gateway_inv_def)
  show ?thesis
    using request_fresh_eq[OF wf gateway_inv_next_id(2)[OF assms(1,2) n], of Transport_getNextMessageID "Transport_send J W" m p now
        "(gw_transport g)\<lparr>tr_id_counter := ?i\<rparr>"] assms(3-5)
    by (simp add: Gateway_request_def request_none_eq n Transport_send_def Let_def)
qed

lemma reply_during_wait:
  assumes "json_lib J" and "gateway_inv g" and "\<not> gw_legacyRPCv1 g"
    and "tr_status (gw_transport g) \<noteq> NotStarted" and "tr_messageQueue (gw_transport g) = []"
    and "js_parse J payload = Inr msg" and "js_dump J msg = Inr txt"
    and "js_contains J msg ''id''" and "js_at J msg ''id'' = Inr v" and "js_is_number_integer J v" and "js_get_u32 J v = Inr i"
    and "js_contains J msg ''result''" and "\<not> js_contains J msg ''error''" and "js_at J msg ''result'' = Inr val"
    and "om_lookup (client_queue (gw_client g)) i = Some x"
  shows "client_promises (gw_client (snd (Gateway_run J W [EvIo (IoMessage True payload) t, EvMessage] g))) (caller_promise x)
      = Some (Result_value val)
    \<and> gw_transport (snd (Gateway_run J W [EvIo (IoMessage True payload) t, EvMessage] g)) = gw_transport g"
proof -
  have tr: "tr_connectionThread (gw_transport g)" "tr_messageWorker (gw_transport g)" "\<not> tr_stopMessageWorker (gw_transport g)"
    using assms(2,4) by (simp_all add: gateway_inv_def transport_inv_def)
  have wf: "client_wf (gw_client g)" using assms(2) by (simp add: gateway_inv_def)
  have log: "response_id_log J msg = Inr ()"
    using assms(9-11) json_lib.integer_get[OF assms(1), of v] by (auto simp: response_id_log_def)
  have r: "Client_response J msg (gw_client g) = (None, (gw_client g)\<lparr>client_queue := om_delete i (client_queue (gw_client g)),
      client_promises := (client_promises (gw_client g))(caller_promise x := Some (Result_value val))\<rparr>)"
    using assms(9,11,13-15) by (intro response_match[OF wf]) (simp_all add: response_id_def response_result_def)
  have "(gw_transport g)\<lparr>tr_messageQueue := []\<rparr> = gw_transport g" using assms(5) by simp
  then have same: "g\<lparr>gw_transport := (gw_transport g)\<lparr>tr_messageQueue := []\<rparr>\<rparr> = g" by simp
  have "Gateway_deliver J payload g = ([], g\<lparr>gw_client := snd (Client_response J msg (gw_client g))\<rparr>)"
    using assms(3,6-8,12) log r by (simp add: Gateway_deliver_def Gateway_onMessage_def legacy_event_def)
  then have "Gateway_run J W [EvIo (IoMessage True payload) t, EvMessage] g
      = ([], g\<lparr>gw_client := snd (Client_response J msg (gw_client g))\<rparr>)"
    using tr assms(5)
    by (simp add: Transport_onMessage_def processQueuedMessages_pass_def Let_def case_prod_beta same)
  then show ?thesis by (simp add: r)
qed

text \<open>
  C5. A request and its reply through every layer: on an open connection \<open>get\<close> puts exactly one
  JSON-RPC text on the wire, and when the reply with that id arrives and its result parses,
  \<open>get\<close> returns the parsed value.
\<close>

theorem get_returns_the_reply:
  assumes "json_lib J" and "gateway_reachable J g" and "ids_left (gw_transport g)"
    and "tr_status (gw_transport g) = Connected" and "tr_messageQueue (gw_transport g) = []" and "\<not> gw_legacyRPCv1 g"
    and "js_dump J (rpc_message J m p (tr_id_counter (gw_transport g) + 1)) = Inr wire"
    and "ws_send W (tr_connectionHandle (gw_transport g)) wire = 0"
    and "js_parse J payload = Inr msg" and "js_dump J msg = Inr txt"
    and "js_contains J msg ''id''" and "js_at J msg ''id'' = Inr v" and "js_is_number_integer J v"
    and "js_get_u32 J v = Inr (tr_id_counter (gw_transport g) + 1)"
    and "js_contains J msg ''result''" and "\<not> js_contains J msg ''error''" and "js_at J msg ''result'' = Inr val"
    and "fromJson val = Inr y"
  shows "\<exists>g'. IHelper_get J lg (IGateway_request_get J W) fromJson m p (g, [(now, [EvIo (IoMessage True payload) t, EvMessage])])
      = (Some (Inr (Result_value y)), (g', []))
    \<and> tr_wire (gw_transport g') = tr_wire (gw_transport g) @ [wire]"
proof -
  let ?i = "tr_id_counter (gw_transport g) + 1"
  have inv: "gateway_inv g" by (rule gateway_reachable_inv[OF assms(2)])
  obtain x c where e: "request_enqueue ?i m now (gw_client g) = (x, c)" by fastforce
  then have x: "caller_promise x = client_next (gw_client g)" "om_lookup (client_queue c) ?i = Some x"
      "client_promises c = client_promises (gw_client g)"
    by (auto simp: request_enqueue_def Let_def om_lookup_update)
  define g2 where "g2 = snd (Gateway_request J W m p None now g)"
  have g2: "g2 = g\<lparr>gw_client := c, gw_transport := (gw_transport g)\<lparr>tr_id_counter := ?i, tr_wire := tr_wire (gw_transport g) @ [wire]\<rparr>\<rparr>"
    and req: "Gateway_request J W m p None now g = (Inr (client_next (gw_client g)), g2)"
    using request_sent_eq[OF inv assms(3,4,7,8), of now] e by (simp_all add: g2_def)
  have inv2: "gateway_inv g2" unfolding g2_def by (rule gateway_inv_request[OF inv assms(3)])
  have "client_promises (gw_client g2) (client_next (gw_client g)) = None"
    using inv x(3) by (simp add: g2 gateway_inv_def client_wf_def)
  moreover have "client_promises (gw_client (snd (Gateway_run J W [EvIo (IoMessage True payload) t, EvMessage] g2))) (caller_promise x)
      = Some (Result_value val)
    \<and> gw_transport (snd (Gateway_run J W [EvIo (IoMessage True payload) t, EvMessage] g2)) = gw_transport g2"
    by (rule reply_during_wait[OF assms(1) inv2 _ _ _ assms(9-17)]) (simp_all add: g2 assms(4-6) x(2))
  ultimately have "IGateway_request_get J W m p (g, [(now, [EvIo (IoMessage True payload) t, EvMessage])])
      = (Some (Inr (Result_value val)), (snd (Gateway_run J W [EvIo (IoMessage True payload) t, EvMessage] g2), []))"
    by (simp add: IGateway_request_get_def req x(1) del: Gateway_run.simps)
  moreover have "tr_wire (gw_transport g2) = tr_wire (gw_transport g) @ [wire]" by (simp add: g2)
  ultimately show ?thesis
    using \<open>_ \<and> gw_transport (snd (Gateway_run _ _ _ g2)) = gw_transport g2\<close> assms(18)
    by (simp add: IHelper_get_def HelperImpl_getJson_def result_defs del: Gateway_run.simps)
qed

theorem get_returns_the_reply_witness:
  "\<exists>g'. IHelper_get ex_json False (IGateway_request_get ex_json ex_ws) Inr ''device.id'' JNull
       (ex_gateway, [(2, [EvIo (IoMessage True ''ack1'') 3, EvMessage])])
     = (Some (Inr (Result_value (JObj [(''listening'', JBool True)]))), (g', [])) \<and> tr_wire (gw_transport g') = [''?'']"
proof -
  let ?m = "JObj [(''id'', JUInt 1), (''result'', JObj [(''listening'', JBool True)])]"
  have f: "ids_left (gw_transport ex_gateway)" "tr_status (gw_transport ex_gateway) = Connected"
      "tr_messageQueue (gw_transport ex_gateway) = []" "\<not> gw_legacyRPCv1 ex_gateway"
      "js_dump ex_json (rpc_message ex_json ''device.id'' JNull (tr_id_counter (gw_transport ex_gateway) + 1)) = Inr ''?''"
      "ws_send ex_ws (tr_connectionHandle (gw_transport ex_gateway)) ''?'' = 0"
    by code_simp+
  have j: "js_parse ex_json ''ack1'' = Inr ?m" "js_dump ex_json ?m = Inr ''ack1''" "js_contains ex_json ?m ''id''"
      "js_at ex_json ?m ''id'' = Inr (JUInt 1)" "js_is_number_integer ex_json (JUInt 1)"
      "js_get_u32 ex_json (JUInt 1) = Inr (tr_id_counter (gw_transport ex_gateway) + 1)"
      "js_contains ex_json ?m ''result''" "\<not> js_contains ex_json ?m ''error''"
      "js_at ex_json ?m ''result'' = Inr (JObj [(''listening'', JBool True)])"
    by code_simp+
  have w: "tr_wire (gw_transport ex_gateway) = []" by code_simp
  show ?thesis
    using get_returns_the_reply [OF ex_json_lib ex_gateway_reachable f j, of Inr "JObj [(''listening'', JBool True)]" False 2 3] w
    by simp
qed

text \<open>What the JSON package documents of \<open>dump\<close> and \<open>parse\<close> for a value with finite numbers.\<close>

definition reads_back :: "'j json_api \<Rightarrow> 'j \<Rightarrow> bool" where
  "reads_back J j \<longleftrightarrow> (\<forall>s. js_dump J j = Inr s \<longrightarrow> js_parse J s = Inr j)"

text \<open>What a peer that parses a text finds in it: a JSON-RPC 2.0 request.\<close>

definition is_request :: "'j json_api \<Rightarrow> string \<Rightarrow> string \<Rightarrow> 'j \<Rightarrow> u32 \<Rightarrow> bool" where
  "is_request J s m p i \<longleftrightarrow> (\<exists>msg. js_parse J s = Inr msg
     \<and> exn_bind (js_at J msg ''jsonrpc'') (js_get_string J) = Inr ''2.0''
     \<and> exn_bind (js_at J msg ''method'') (js_get_string J) = Inr m
     \<and> exn_bind (js_at J msg ''id'') (js_get_u32 J) = Inr i
     \<and> (if js_empty J p then \<not> js_contains J msg ''params'' else js_at J msg ''params'' = Inr p))"

lemma dump_is_request:
  assumes "json_lib J" and "reads_back J (rpc_message J m p i)" and "js_dump J (rpc_message J m p i) = Inr s"
  shows "is_request J s m p i"
  using assms(2,3) json_lib.rpc_message_reads[OF assms(1)] json_lib.get_string_str[OF assms(1)] json_lib.get_u32_uint[OF assms(1)]
  by (auto simp: is_request_def reads_back_def)

text \<open>
  C28. The request on the wire and the caller in the table belong together. Provided the JSON
  package parses what it prints of the message, a request that returns a future has done one of two
  things: it has written one text, which a peer reads back as the JSON-RPC 2.0 request with this
  method, these parameters (none when they are empty) and an id that was not in the table before,
  and the caller is queued under that very id with no answer yet; or it has written nothing, left
  the table as it was, and the future already holds the error of the send.
\<close>

theorem request_reads_back_under_its_id:
  assumes "json_lib J" and "gateway_reachable J g" and "ids_left (gw_transport g)"
    and "reads_back J (rpc_message J m p (tr_id_counter (gw_transport g) + 1))"
    and "Gateway_request J W m p None now g = (Inr pr, g')"
  shows "(\<exists>s i x. tr_wire (gw_transport g') = tr_wire (gw_transport g) @ [s] \<and> is_request J s m p i
        \<and> om_lookup (client_queue (gw_client g)) i = None
        \<and> client_queue (gw_client g') = om_update i x (client_queue (gw_client g))
        \<and> caller_promise x = pr \<and> client_promises (gw_client g') pr = None)
    \<or> tr_wire (gw_transport g') = tr_wire (gw_transport g) \<and> client_queue (gw_client g') = client_queue (gw_client g)
        \<and> (\<exists>err. err \<noteq> Err_None \<and> client_promises (gw_client g') pr = Some (Result_error err))"
proof -
  have inv: "gateway_inv g" by (rule gateway_reachable_inv[OF assms(2)])
  have wf: "client_wf (gw_client g)" using inv by (simp add: gateway_inv_def)
  obtain i t where i: "Transport_getNextMessageID (gw_transport g) = (i, t)" by fastforce
  have new: "i \<notin> fst ` set (client_queue (gw_client g))" by (rule gateway_inv_next_id(2)[OF inv assms(3) i])
  have wire: "tr_wire t = tr_wire (gw_transport g)" "i = tr_id_counter (gw_transport g) + 1"
    using i by (auto simp: Transport_getNextMessageID_def)
  obtain err t' where s: "Transport_send J W m p i t = (Inr err, t')"
    and g': "g' = g\<lparr>gw_transport := t', gw_client := (if err = Err_None then snd (request_enqueue i m now (gw_client g))
        else (gw_client g)\<lparr>client_next := Suc (client_next (gw_client g)),
          client_promises := (client_promises (gw_client g))(client_next (gw_client g) := Some (Result_error err))\<rparr>)\<rparr>"
    and pr: "pr = client_next (gw_client g)"
    using assms(5) by (auto simp: Gateway_request_def request_none_eq i request_fresh_eq[OF wf new] split: prod.splits sum.splits)
  show ?thesis
  proof (cases "err = Err_None")
    case True
    obtain wr where d: "js_dump J (rpc_message J m p i) = Inr wr" "tr_wire t' = tr_wire t @ [wr]"
      using s True by (auto simp: Transport_send_def mapError_def Let_def split: if_splits sum.splits)
    have "client_promises (gw_client g) (client_next (gw_client g)) = None" using wf by (simp add: client_wf_def)
    with dump_is_request[OF assms(1) assms(4)[folded wire(2)] d(1)] d(2) wire(1) om_lookup_notin[OF new] show ?thesis
      unfolding g' pr by (simp add: True request_enqueue_def Let_def) fastforce
  next
    case False
    have "tr_wire t' = tr_wire t" using s False by (auto simp: Transport_send_def Let_def split: if_splits sum.splits)
    with False wire(1) show ?thesis by (auto simp: g' pr)
  qed
qed

theorem request_reads_back_under_its_id_witness:
  "\<exists>g' x. Gateway_request ex_json ex_ws ''device.name'' (JObj [(''k'', JBool True)]) None 2 ex_gateway = (Inr 0, g')
     \<and> tr_wire (gw_transport g') = [''req1''] \<and> is_request ex_json ''req1'' ''device.name'' (JObj [(''k'', JBool True)]) 1
     \<and> client_queue (gw_client g') = [(1, x)] \<and> caller_promise x = 0"
proof -
  let ?p = "JObj [(''k'', JBool True)]"
  have ids: "ids_left (gw_transport ex_gateway)" by code_simp
  have d: "js_dump ex_json (rpc_message ex_json ''device.name'' ?p (tr_id_counter (gw_transport ex_gateway) + 1)) = Inr ''req1''"
      "js_parse ex_json ''req1'' = Inr (rpc_message ex_json ''device.name'' ?p (tr_id_counter (gw_transport ex_gateway) + 1))"
    by code_simp+
  have rb: "reads_back ex_json (rpc_message ex_json ''device.name'' ?p (tr_id_counter (gw_transport ex_gateway) + 1))"
    unfolding reads_back_def using d by simp
  define g' where "g' = snd (Gateway_request ex_json ex_ws ''device.name'' ?p None 2 ex_gateway)"
  have c: "fst (Gateway_request ex_json ex_ws ''device.name'' ?p None 2 ex_gateway) = Inr 0"
      "tr_wire (gw_transport g') = [''req1'']" "map fst (client_queue (gw_client g')) = [1]"
      "tr_wire (gw_transport ex_gateway) = []" "client_queue (gw_client ex_gateway) = []"
    unfolding g'_def by code_simp+
  have r: "Gateway_request ex_json ex_ws ''device.name'' ?p None 2 ex_gateway = (Inr 0, g')"
    using c(1) by (simp add: g'_def prod_eq_iff)
  from request_reads_back_under_its_id [OF ex_json_lib ex_gateway_reachable ids rb r] c
  obtain i x where "is_request ex_json ''req1'' ''device.name'' ?p i" "client_queue (gw_client g') = [(i, x)]" "caller_promise x = 0"
    by auto
  with c r show ?thesis by auto
qed

section \<open>A request is always answered\<close>

text \<open>The promise has its answer, or waits in the queue since \<open>ts\<close>.\<close>

definition tracked :: "promise \<Rightarrow> timestamp \<Rightarrow> 'j Client \<Rightarrow> bool" where
  "tracked p ts c \<longleftrightarrow> client_promises c p \<noteq> None
     \<or> (\<exists>it \<in> set (client_queue c). caller_promise (snd it) = p \<and> caller_timestamp (snd it) = ts)"

lemma tracked_steps: "json_lib J \<Longrightarrow> client_steps J (tracked p ts)"
  by (rule taken_client_steps) (force simp: tracked_def taken_def)+

lemma tracked_request:
  assumes "gateway_inv g" and "ids_left (gw_transport g)" and "Gateway_request J W m p None now g = (Inr pr, g')"
  shows "gateway_good (tracked pr now) g'"
proof -
  obtain i t where i: "Transport_getNextMessageID (gw_transport g) = (i, t)" by fastforce
  have wf: "client_wf (gw_client g)" using assms(1) by (simp add: gateway_inv_def)
  have "tracked pr now (gw_client g')"
    using assms(3) gateway_inv_next_id(2)[OF assms(1,2) i]
    by (auto simp: Gateway_request_def request_none_eq i request_fresh_eq[OF wf] tracked_def request_enqueue_def
        set_om_update Let_def split: sum.splits prod.splits if_splits)
  then show ?thesis using gateway_inv_request[OF assms(1,2), of J W m p now] assms(3) by (simp add: gateway_good_def)
qed

text \<open>While the watchdog is not running the queue is empty: only the clean-up stops it.\<close>

definition covered :: "('k, 'j) Gateway \<Rightarrow> bool" where
  "covered g \<longleftrightarrow> gw_watchdogRunning g \<or> client_queue (gw_client g) = []"

lemma covered_deliver: "covered g \<Longrightarrow> covered (snd (Gateway_deliver J payload g))"
proof -
  assume c: "covered g"
  have "client_queue (snd (Client_response J msg (gw_client g))) = []" if "client_queue (gw_client g) = []" for msg
    using response_keys[of J msg "gw_client g"] that by simp
  with c have "covered (snd (Gateway_onMessage J msg g))" for msg
    by (auto simp: covered_def Gateway_onMessage_def case_prod_beta Let_def split: sum.splits)
  with c show ?thesis by (auto simp: Gateway_deliver_def case_prod_beta Let_def split: sum.splits option.splits)
qed

lemma covered_connection_change:
  assumes "gateway_inv g" and "covered g"
  shows "covered (snd (Gateway_onConnectionChange b e now g))"
proof -
  let ?g = "snd (connection_notice b e now g)"
  have "client_wf (gw_client ?g)" "gw_watchdogThread ?g = gw_watchdogRunning ?g" using assms(1) by (simp_all add: gateway_inv_def)
  then have "covered (snd (snd (Gateway_cleanupInternalState ?g)))"
    by (simp add: cleanup_eq covered_def cancelAll_eq)
  with assms(2) show ?thesis
    by (auto simp: Gateway_onConnectionChange_def covered_def case_prod_beta Let_def split: option.splits)
qed

lemma covered_upcalls: "gateway_inv g \<Longrightarrow> covered g \<Longrightarrow> covered (snd (Gateway_upcalls J now us g))"
proof (induction us arbitrary: g)
  case (Cons u us)
  then have "covered (snd (Gateway_upcall J now u g))" "gateway_inv (snd (Gateway_upcall J now u g))"
    by (cases u; simp add: covered_deliver covered_connection_change gateway_inv_deliver gateway_inv_connection_change)+
  with Cons.IH show ?case by (simp add: case_prod_beta Let_def)
qed simp

lemma covered_event:
  assumes "gateway_inv g" and "covered g"
  shows "covered (snd (Gateway_event J W ev g))"
proof (cases ev)
  case (EvIo e now)
  have "gateway_inv (g\<lparr>gw_transport := snd (Transport_io W e (gw_transport g))\<rparr>)" if "tr_connectionThread (gw_transport g)"
    using assms(1) that by (intro gateway_inv_transport transport_inv_io) (simp_all add: gateway_inv_def)
  moreover have "covered (g\<lparr>gw_transport := t\<rparr>)" for t using assms(2) by (simp add: covered_def)
  ultimately show ?thesis using EvIo assms(2) by (simp add: case_prod_beta Let_def covered_upcalls)
next
  case EvMessage
  have "covered (g\<lparr>gw_transport := t\<rparr>)" for t using assms(2) by (simp add: covered_def)
  with EvMessage assms(2) show ?thesis by (auto simp: case_prod_beta covered_deliver split: pass.splits)
next
  case EvNotification
  with assms(2) show ?thesis by (auto simp: covered_def case_prod_beta split: pass.splits)
next
  case (EvWatchdog now)
  with assms(2) show ?thesis by (auto simp: covered_def)
qed

lemma covered_run: "gateway_inv g \<Longrightarrow> covered g \<Longrightarrow> covered (snd (Gateway_run J W evs g))"
  by (induction evs arbitrary: g) (simp_all add: case_prod_beta Let_def covered_event gateway_inv_event)

lemma await_answered: "client_promises (gw_client g) p = Some r \<Longrightarrow> await J W p g script = (Some r, (g, script))"
  by (cases script) simp_all

lemma run_append: "snd (Gateway_run J W (evs @ evs') g) = snd (Gateway_run J W evs' (snd (Gateway_run J W evs g)))"
  by (induction evs arbitrary: g) (simp_all add: case_prod_beta Let_def)

text \<open>A watchdog pass that finds the request too old leaves it answered, or it was answered before.\<close>

lemma watchdog_answers:
  assumes "gateway_good (tracked p ts) g" and "covered g" and "duration_ms (now' - ts) > uint (gw_waitTime_ms g)"
  shows "client_promises (gw_client (snd (Gateway_event J W (EvWatchdog now') g))) p \<noteq> None"
proof -
  have wf: "client_wf (gw_client g)" and t: "tracked p ts (gw_client g)"
    using assms(1) by (simp_all add: gateway_good_def gateway_inv_def)
  show ?thesis
  proof (cases "gw_watchdogRunning g")
    case True
    then show ?thesis
      using t assms(3) by (force simp: checkPromises_eq[OF wf] tracked_def timed_out_def)
  next
    case False
    with t assms(2) show ?thesis by (simp add: tracked_def covered_def)
  qed
qed

lemma request_get_returns:
  assumes "json_lib J" and "gateway_reachable J g" and "ids_left (gw_transport g)" and "gw_connectionStarted g"
    and "duration_ms (now' - now) > uint (gw_waitTime_ms g)"
  shows "fst (IGateway_request_get J W m p (g, (now, evs @ [EvWatchdog now']) # script)) \<noteq> None"
proof (cases "Gateway_request J W m p None now g")
  case (Pair r g1)
  have inv: "gateway_inv g" by (rule gateway_reachable_inv[OF assms(2)])
  show ?thesis
  proof (cases r)
    case (Inl e)
    then show ?thesis by (simp add: IGateway_request_get_def Pair)
  next
    case (Inr pr)
    let ?g2 = "snd (Gateway_run J W evs g1)"
    have good1: "gateway_good (tracked pr now) g1" using tracked_request[OF inv assms(3)] Pair Inr by blast
    have good2: "gateway_good (tracked pr now) ?g2" by (rule client_steps.good_run[OF tracked_steps[OF assms(1)] good1])
    have "gw_watchdogRunning g" using inv assms(4) by (simp add: gateway_inv_def)
    then have "covered g1" using Pair by (auto simp: covered_def Gateway_request_def Let_def split: prod.splits)
    then have cov: "covered ?g2" using good1 by (simp add: covered_run gateway_good_def)
    have "gw_waitTime_ms ?g2 = gw_waitTime_ms g"
      using kept_run[of g1 J W evs] request_frame(2)[of g J W m p None now] Pair by (simp add: kept_def)
    then have "client_promises (gw_client (snd (Gateway_run J W (evs @ [EvWatchdog now']) g1))) pr \<noteq> None"
      using watchdog_answers[OF good2 cov, of now' J W] assms(5) by (simp add: run_append case_prod_beta Let_def)
    then obtain y where y: "client_promises (gw_client (snd (Gateway_run J W (evs @ [EvWatchdog now']) g1))) pr = Some y" by blast
    show ?thesis
      by (cases "client_promises (gw_client g1) pr")
        (simp_all add: IGateway_request_get_def Pair Inr await_answered[OF y] del: Gateway_run.simps)
  qed
qed

text \<open>
  C4. A call of the helper always returns: once a connection was started, whatever the server, the
  websocket and the library's threads do in any order after the request was made, as soon as the
  watchdog makes a pass later than the wait time, \<open>invoke\<close> and \<open>get\<close> have returned (with the reply,
  an error, or the exception of a request that cannot be printed). A lost connection that stops
  the watchdog is no exception: it answers the request itself.
\<close>

theorem calls_always_return:
  assumes "json_lib J" and "gateway_reachable J g" and "ids_left (gw_transport g)" and "gw_connectionStarted g"
    and "duration_ms (now' - now) > uint (gw_waitTime_ms g)"
  shows "fst (HelperImpl_invoke (IGateway_request_get J W) m p (g, (now, evs @ [EvWatchdog now']) # script)) \<noteq> None
    \<and> fst (IHelper_get J lg (IGateway_request_get J W) fromJson m p (g, (now, evs @ [EvWatchdog now']) # script)) \<noteq> None"
proof -
  obtain r w' where "IGateway_request_get J W m p (g, (now, evs @ [EvWatchdog now']) # script) = (Some r, w')"
    using request_get_returns[OF assms, of W m p evs script] by (metis not_None_eq prod.collapse)
  then show ?thesis
    by (auto simp: HelperImpl_invoke_def IHelper_get_def HelperImpl_getJson_def Let_def case_prod_beta split: sum.splits option.splits)
qed

theorem calls_always_return_witness:
  "fst (HelperImpl_invoke (IGateway_request_get ex_json ex_ws) ''device.id'' JNull
     (ex_gateway, [(2, [EvIo (IoMessage True ''not json'') 3, EvMessage, EvWatchdog 4000000000])])) \<noteq> None"
proof -
  have f: "ids_left (gw_transport ex_gateway)" "gw_connectionStarted ex_gateway"
      "duration_ms (4000000000 - 2) > uint (gw_waitTime_ms ex_gateway)"
    by code_simp+
  show ?thesis
    using calls_always_return [OF ex_json_lib ex_gateway_reachable f, of ex_ws "''device.id''" JNull
        "[EvIo (IoMessage True ''not json'') 3, EvMessage]" "[]" False "Inr :: jval \<Rightarrow> exn + jval"] by simp
qed

end
